(* ===== verification/Go_Prelude.thy ===== *)
theory Go_Prelude
  imports
    Complex_Main
    "HOL-Library.List_Lexorder"
    "HOL-Library.Char_ord"
    "HOL-Library.Multiset"
begin

text \<open>
  Shared ground of the development: what the Go sources use of the language and of its
  standard library, in executable form, with the lemmas the component theories share.

  \<^item> A Go string is a \<open>string\<close>, a list of bytes. The order on strings is the one of
    \<open>HOL-Library.List_Lexorder\<close> over \<open>HOL-Library.Char_ord\<close>: byte-wise lexicographic,
    as \<^verbatim>\<open>sort.Strings\<close> and the operator \<^verbatim>\<open><\<close> of Go compare.
  \<^item> A Go map that is iterated over is an association list: the list order is one
    possible iteration order, so a theorem over all lists covers every order.
  \<^item> A Go function that returns \<^verbatim>\<open>(T, error)\<close> returns \<open>'e + 't\<close>, with \<open>Inl\<close> the error.
  \<^item> \<^verbatim>\<open>float64\<close> is the type \<open>f64\<close> below where the code tests for or can produce a
    special value, and \<open>real\<close> where it cannot. Arithmetic is exact: rounding error and
    overflow of finite results are not modelled, and zero has no sign.
\<close>

named_theorems go_string_simps
named_theorems f64_simps

subsection \<open>Strings: Split, Join, prefixes and suffixes\<close>

text \<open>\<^verbatim>\<open>strings.Split(s, sep)\<close> for a one-byte separator, and \<^verbatim>\<open>strings.Join\<close>.\<close>

fun split_on :: "char \<Rightarrow> string \<Rightarrow> string list" where
  "split_on c [] = [[]]"
| "split_on c (x # xs) =
     (if x = c then [] # split_on c xs
      else (case split_on c xs of [] \<Rightarrow> [[x]] | p # ps \<Rightarrow> (x # p) # ps))"

fun join_with :: "string \<Rightarrow> string list \<Rightarrow> string" where
  "join_with sep [] = []"
| "join_with sep [p] = p"
| "join_with sep (p # q # ps) = p @ sep @ join_with sep (q # ps)"

text \<open>\<^verbatim>\<open>strings.HasPrefix\<close>, \<^verbatim>\<open>strings.HasSuffix\<close>, \<^verbatim>\<open>strings.TrimSuffix\<close>.\<close>

definition has_prefix :: "string \<Rightarrow> string \<Rightarrow> bool" where
  "has_prefix s p \<longleftrightarrow> take (length p) s = p"

definition has_suffix :: "string \<Rightarrow> string \<Rightarrow> bool" where
  "has_suffix s p \<longleftrightarrow> length p \<le> length s \<and> drop (length s - length p) s = p"

definition trim_suffix :: "string \<Rightarrow> string \<Rightarrow> string" where
  "trim_suffix s p = (if has_suffix s p then take (length s - length p) s else s)"

text \<open>\<^verbatim>\<open>strings.Index(s, sub)\<close>: the first position of \<open>sub\<close>, \<open>None\<close> for Go's \<open>-1\<close>.\<close>

fun index_of :: "string \<Rightarrow> string \<Rightarrow> nat option" where
  "index_of [] sub = (if sub = [] then Some 0 else None)"
| "index_of (x # xs) sub =
     (if has_prefix (x # xs) sub then Some 0
      else map_option Suc (index_of xs sub))"

definition contains_str :: "string \<Rightarrow> string \<Rightarrow> bool" where
  "contains_str s sub \<longleftrightarrow> index_of s sub \<noteq> None"

lemma split_on_not_Nil [simp]: "split_on c s \<noteq> []"
  by (cases s) (auto split: list.splits)

lemma split_on_no_sep: "c \<notin> set s \<Longrightarrow> split_on c s = [s]"
  by (induction s) auto

lemma split_on_append_sep: "c \<notin> set p \<Longrightarrow> split_on c (p @ c # s) = p # split_on c s"
  by (induction p) auto

lemma split_on_join_with [go_string_simps]:
  "ps \<noteq> [] \<Longrightarrow> (\<And>p. p \<in> set ps \<Longrightarrow> c \<notin> set p) \<Longrightarrow> split_on c (join_with [c] ps) = ps"
proof (induction "[c]" ps rule: join_with.induct)
  case (3 p q ps)
  then show ?case by (simp add: split_on_append_sep)
qed (auto simp: split_on_no_sep)

lemma join_with_Cons_not_Nil: "ps \<noteq> [] \<Longrightarrow> join_with sep (p # ps) = p @ sep @ join_with sep ps"
  by (cases ps) auto

lemma join_with_Cons_char: "ps \<noteq> [] \<Longrightarrow> join_with sep ((x # p) # ps) = x # join_with sep (p # ps)"
  by (cases ps) auto

lemma join_with_split_on [go_string_simps]: "join_with [c] (split_on c s) = s"
proof (induction s)
  case (Cons x s)
  obtain p ps where ps: "split_on c s = p # ps"
    by (cases "split_on c s") auto
  show ?case
    using Cons ps by (cases ps) (auto simp: join_with_Cons_not_Nil)
qed simp

lemma split_on_no_sep_parts: "p \<in> set (split_on c s) \<Longrightarrow> c \<notin> set p"
proof (induction s arbitrary: p)
  case (Cons x s)
  then show ?case by (auto split: list.splits if_splits)
qed simp

lemma has_prefix_append [simp, go_string_simps]: "has_prefix (p @ s) p"
  by (simp add: has_prefix_def)

lemma has_prefix_iff: "has_prefix s p \<longleftrightarrow> (\<exists>r. s = p @ r)"
  by (metis append_eq_conv_conj append_take_drop_id has_prefix_def)

lemma has_suffix_iff: "has_suffix s p \<longleftrightarrow> (\<exists>r. s = r @ p)"
proof
  assume "has_suffix s p"
  then show "\<exists>r. s = r @ p"
    by (metis append_take_drop_id has_suffix_def)
qed (auto simp: has_suffix_def)

lemma has_suffix_append [simp, go_string_simps]: "has_suffix (s @ p) p"
  by (auto simp: has_suffix_iff)

lemma trim_suffix_append [simp, go_string_simps]: "trim_suffix (s @ p) p = s"
  by (simp add: trim_suffix_def)

subsection \<open>Floating point values with the specials\<close>

text \<open>
  \<^verbatim>\<open>float64\<close> with exact finite arithmetic. \<open>NaN\<close> propagates through every operation and
  every comparison with it is false, as IEEE 754 has it; a finite value divided by zero
  is an infinity, and zero by zero is \<open>NaN\<close>.
\<close>

datatype f64 = Fin real | PInf | NInf | NaN

fun is_fin :: "f64 \<Rightarrow> bool" where
  "is_fin (Fin _) = True"
| "is_fin _ = False"

fun fin_val :: "f64 \<Rightarrow> real" where
  "fin_val (Fin x) = x"
| "fin_val _ = 0"

definition f64_signed_inf :: "real \<Rightarrow> f64" where
  "f64_signed_inf s = (if s > 0 then PInf else if s < 0 then NInf else NaN)"

fun f64_sgn :: "f64 \<Rightarrow> real" where
  "f64_sgn (Fin x) = sgn x"
| "f64_sgn PInf = 1"
| "f64_sgn NInf = -1"
| "f64_sgn NaN = 0"

instantiation f64 :: "{plus, minus, times, inverse, uminus, ord}"
begin

fun plus_f64 :: "f64 \<Rightarrow> f64 \<Rightarrow> f64" where
  "plus_f64 (Fin x) (Fin y) = Fin (x + y)"
| "plus_f64 NaN _ = NaN"
| "plus_f64 _ NaN = NaN"
| "plus_f64 PInf NInf = NaN"
| "plus_f64 NInf PInf = NaN"
| "plus_f64 PInf _ = PInf"
| "plus_f64 NInf _ = NInf"
| "plus_f64 (Fin _) PInf = PInf"
| "plus_f64 (Fin _) NInf = NInf"

fun uminus_f64 :: "f64 \<Rightarrow> f64" where
  "uminus_f64 (Fin x) = Fin (- x)"
| "uminus_f64 PInf = NInf"
| "uminus_f64 NInf = PInf"
| "uminus_f64 NaN = NaN"

definition minus_f64 :: "f64 \<Rightarrow> f64 \<Rightarrow> f64" where
  "minus_f64 a b = a + (- b)"

fun times_f64 :: "f64 \<Rightarrow> f64 \<Rightarrow> f64" where
  "times_f64 (Fin x) (Fin y) = Fin (x * y)"
| "times_f64 NaN _ = NaN"
| "times_f64 _ NaN = NaN"
| "times_f64 a b = f64_signed_inf (f64_sgn a * f64_sgn b)"

fun divide_f64 :: "f64 \<Rightarrow> f64 \<Rightarrow> f64" where
  "divide_f64 NaN _ = NaN"
| "divide_f64 _ NaN = NaN"
| "divide_f64 (Fin x) (Fin y) = (if y = 0 then f64_signed_inf x else Fin (x / y))"
| "divide_f64 (Fin x) _ = Fin 0"
| "divide_f64 a (Fin y) = f64_signed_inf (f64_sgn a * (if y < 0 then -1 else 1))"
| "divide_f64 _ _ = NaN"

definition inverse_f64 :: "f64 \<Rightarrow> f64" where
  "inverse_f64 a = Fin 1 div a"

fun less_f64 :: "f64 \<Rightarrow> f64 \<Rightarrow> bool" where
  "less_f64 (Fin x) (Fin y) \<longleftrightarrow> x < y"
| "less_f64 NaN _ \<longleftrightarrow> False"
| "less_f64 _ NaN \<longleftrightarrow> False"
| "less_f64 PInf _ \<longleftrightarrow> False"
| "less_f64 NInf b \<longleftrightarrow> b \<noteq> NInf"
| "less_f64 (Fin _) b \<longleftrightarrow> b = PInf"

definition less_eq_f64 :: "f64 \<Rightarrow> f64 \<Rightarrow> bool" where
  "less_eq_f64 a b \<longleftrightarrow> a < b \<or> (a = b \<and> a \<noteq> NaN)"

instance ..

end

text \<open>Go's \<open>==\<close> on \<^verbatim>\<open>float64\<close>: \<open>NaN\<close> is not equal to itself.\<close>

definition f64_eq :: "f64 \<Rightarrow> f64 \<Rightarrow> bool" where
  "f64_eq a b \<longleftrightarrow> a = b \<and> a \<noteq> NaN"

lemma f64_fin_arith [simp, f64_simps]:
  "Fin x + Fin y = Fin (x + y)" "Fin x - Fin y = Fin (x - y)"
  "Fin x * Fin y = Fin (x * y)" "y \<noteq> 0 \<Longrightarrow> Fin x / Fin y = Fin (x / y)"
  by (auto simp: minus_f64_def)

lemma f64_fin_order [simp, f64_simps]:
  "(Fin x < Fin y) = (x < y)" "(Fin x \<le> Fin y) = (x \<le> y)" "f64_eq (Fin x) (Fin y) = (x = y)"
  by (auto simp: less_eq_f64_def f64_eq_def)

lemma f64_NaN_order [simp, f64_simps]:
  "\<not> NaN < b" "\<not> a < NaN" "\<not> NaN \<le> b" "\<not> a \<le> NaN" "\<not> f64_eq NaN b" "\<not> f64_eq a NaN"
  by (cases a; auto simp: less_eq_f64_def f64_eq_def)+

lemma is_fin_iff: "is_fin a \<longleftrightarrow> (\<exists>x. a = Fin x)"
  by (cases a) auto

text \<open>\<^verbatim>\<open>math.Round\<close>: to the nearest integer, halves away from zero.\<close>

definition go_round :: "real \<Rightarrow> real" where
  "go_round x = (if 0 \<le> x then of_int \<lfloor>x + 1 / 2\<rfloor> else - of_int \<lfloor>- x + 1 / 2\<rfloor>)"

fun f64_round :: "f64 \<Rightarrow> f64" where
  "f64_round (Fin x) = Fin (go_round x)"
| "f64_round a = a"

lemma go_round_abs_le: "\<bar>go_round x - x\<bar> \<le> 1 / 2"
proof (cases "0 \<le> x")
  case True
  then show ?thesis unfolding go_round_def abs_le_iff by simp linarith
next
  case False
  then show ?thesis unfolding go_round_def abs_le_iff by simp linarith
qed

lemma go_round_mono: "x \<le> y \<Longrightarrow> go_round x \<le> go_round y"
proof -
  assume le: "x \<le> y"
  consider "0 \<le> x" | "x < 0" "0 \<le> y" | "y < 0" using le by linarith
  then show ?thesis
  proof cases
    case 1
    with le show ?thesis by (simp add: go_round_def floor_mono)
  next
    case 2
    then have "(0::int) \<le> \<lfloor>- x + 1 / 2\<rfloor>" and "(0::int) \<le> \<lfloor>y + 1 / 2\<rfloor>" by simp_all
    then have "- real_of_int \<lfloor>- x + 1 / 2\<rfloor> \<le> 0" and "0 \<le> real_of_int \<lfloor>y + 1 / 2\<rfloor>"
      by linarith+
    moreover have "go_round x = - real_of_int \<lfloor>- x + 1 / 2\<rfloor>" and "go_round y = real_of_int \<lfloor>y + 1 / 2\<rfloor>"
      using 2 by (simp_all add: go_round_def)
    ultimately show ?thesis by linarith
  next
    case 3
    with le show ?thesis by (simp add: go_round_def floor_mono)
  qed
qed

lemma go_round_of_int [simp]: "go_round (of_int n) = of_int n"
proof -
  have "\<lfloor>of_int n + (1 / 2 :: real)\<rfloor> = n" and "\<lfloor>- of_int n + (1 / 2 :: real)\<rfloor> = - n" for n :: int
    by linarith+
  then show ?thesis by (simp add: go_round_def)
qed

lemma go_round_of_nat [simp]: "go_round (of_nat n) = of_nat n"
  using go_round_of_int [of "int n"] by simp

lemma go_round_nonneg: "0 \<le> x \<Longrightarrow> 0 \<le> go_round x"
  using go_round_mono [of 0 x] go_round_of_int [of 0] by simp

text \<open>\<^verbatim>\<open>math.Round(x*1000) / 1000\<close>\<close>

definition round3 :: "real \<Rightarrow> real" where
  "round3 x = go_round (x * 1000) / 1000"

lemma round3_mono: "x \<le> y \<Longrightarrow> round3 x \<le> round3 y"
  unfolding round3_def by (simp add: go_round_mono divide_right_mono)

lemma round3_of_nat [simp]: "round3 (of_nat n) = of_nat n"
  using go_round_of_nat [of "n * 1000"] by (simp add: round3_def)

lemma round3_0_1 [simp]: "round3 0 = 0" "round3 1 = 1"
  using round3_of_nat [of 0] round3_of_nat [of 1] by simp_all

lemma round3_unit: "0 \<le> x \<Longrightarrow> x \<le> 1 \<Longrightarrow> 0 \<le> round3 x \<and> round3 x \<le> 1"
  using round3_mono [of 0 x] round3_mono [of x 1] by simp

text \<open>Conversion to \<^verbatim>\<open>int\<close> drops the fraction. Go leaves it open for values that are not finite.\<close>

fun f64_to_int :: "f64 \<Rightarrow> int" where
  "f64_to_int (Fin x) = (if 0 \<le> x then \<lfloor>x\<rfloor> else \<lceil>x\<rceil>)"
| "f64_to_int _ = 0"

text \<open>Decimal printing, \<^verbatim>\<open>%d\<close>.\<close>

fun nat_digits :: "nat \<Rightarrow> string" where
  "nat_digits n = (if n < 10 then [char_of (48 + n)] else nat_digits (n div 10) @ [char_of (48 + n mod 10)])"

declare nat_digits.simps [simp del]

definition itoa :: "int \<Rightarrow> string" where
  "itoa i = (if i < 0 then CHR ''-'' # nat_digits (nat (- i)) else nat_digits (nat i))"

subsection \<open>Lists\<close>

lemma sum_list_mset_cong:
  fixes f :: "'a \<Rightarrow> 'b::comm_monoid_add"
  assumes "mset xs = mset ys"
  shows "sum_list (map f xs) = sum_list (map f ys)"
proof -
  have "sum_list (map f zs) = sum_mset (image_mset f (mset zs))" for zs
    by (simp flip: sum_mset_sum_list)
  with assms show ?thesis by simp
qed

lemma in_set_tlD: "x \<in> set (tl xs) \<Longrightarrow> x \<in> set xs"
  by (cases xs) auto

subsection \<open>Sorting\<close>

text \<open>
  \<^verbatim>\<open>sort.Strings\<close> on a slice is \<open>sort\<close>; \<^verbatim>\<open>sort.Slice\<close> with a less-function is insertion
  by that function, which orders elements the function does not separate as they came.
\<close>

fun insert_by :: "('a \<Rightarrow> 'a \<Rightarrow> bool) \<Rightarrow> 'a \<Rightarrow> 'a list \<Rightarrow> 'a list" where
  "insert_by lt x [] = [x]"
| "insert_by lt x (y # ys) = (if lt y x then y # insert_by lt x ys else x # y # ys)"

definition sort_by :: "('a \<Rightarrow> 'a \<Rightarrow> bool) \<Rightarrow> 'a list \<Rightarrow> 'a list" where
  "sort_by lt xs = foldr (insert_by lt) xs []"

lemma mset_insert_by [simp]: "mset (insert_by lt x ys) = add_mset x (mset ys)"
  by (induction ys) auto

lemma mset_sort_by [simp]: "mset (sort_by lt xs) = mset xs"
  by (induction xs) (auto simp: sort_by_def)

lemma set_sort_by [simp]: "set (sort_by lt xs) = set xs"
  by (metis mset_sort_by set_mset_mset)

lemma length_sort_by [simp]: "length (sort_by lt xs) = length xs"
  by (metis mset_sort_by size_mset)

lemma distinct_sort_by [simp]: "distinct (sort_by lt xs) = distinct xs"
  by (metis mset_sort_by mset_eq_imp_distinct_iff)

text \<open>
  A less-function usable by \<^verbatim>\<open>sort.Slice\<close> is a strict weak order; the laws sorting rests on.
\<close>

locale go_less =
  fixes lt :: "'a \<Rightarrow> 'a \<Rightarrow> bool"
  assumes lt_asym: "lt x y \<Longrightarrow> \<not> lt y x"
    and lt_not_trans: "\<not> lt x y \<Longrightarrow> \<not> lt y z \<Longrightarrow> \<not> lt x z"
begin

lemma insert_by_sorted:
  "sorted_wrt (\<lambda>a b. \<not> lt b a) ys \<Longrightarrow> sorted_wrt (\<lambda>a b. \<not> lt b a) (insert_by lt x ys)"
proof (induction ys)
  case (Cons y ys)
  have set: "set (insert_by lt x ys) = insert x (set ys)"
    by (metis mset_insert_by set_mset_add_mset_insert set_mset_mset)
  show ?case
  proof (cases "lt y x")
    case True
    with Cons set show ?thesis by (auto dest: lt_asym)
  next
    case False
    with Cons set show ?thesis by (auto dest: lt_not_trans)
  qed
qed simp

lemma sort_by_sorted: "sorted_wrt (\<lambda>a b. \<not> lt b a) (sort_by lt xs)"
  by (induction xs) (simp_all add: sort_by_def insert_by_sorted)

lemma take_sort_by_best:
  assumes "a \<in> set (take n (sort_by lt xs))" and "b \<in> set (drop n (sort_by lt xs))"
  shows "\<not> lt b a"
proof -
  have "sorted_wrt (\<lambda>a b. \<not> lt b a) (take n (sort_by lt xs) @ drop n (sort_by lt xs))"
    by (simp add: sort_by_sorted)
  with assms show ?thesis by (simp only: sorted_wrt_append) blast
qed

end

text \<open>A key compared by the order of a linear order is such a less-function.\<close>

interpretation string_less: go_less "(<) :: string \<Rightarrow> string \<Rightarrow> bool"
  by unfold_locales auto

end
