(* ===== verification/Subjects.thy ===== *)
theory Subjects
  imports Go_Prelude
begin

text \<open>
  Tenant identifiers (\<^verbatim>\<open>src/pkg/tenant/validate.go\<close>) and the message bus subjects built from
  them (\<^verbatim>\<open>src/pkg/natsbus/subjects.go\<close>, \<^verbatim>\<open>types.go\<close>).

  Go returns an error that wraps sentinels; here each error is a constructor with the data
  of its message. The UUID package is not part of the repository: its parser is the
  argument \<open>uuid_parse\<close>, which returns the canonical text of what it parsed.
\<close>

subsection \<open>Tenant identifiers\<close>

definition is_lower :: "char \<Rightarrow> bool" where
  "is_lower c \<longleftrightarrow> CHR ''a'' \<le> c \<and> c \<le> CHR ''z''"

definition is_digit :: "char \<Rightarrow> bool" where
  "is_digit c \<longleftrightarrow> CHR ''0'' \<le> c \<and> c \<le> CHR ''9''"

text \<open>The regular expression \<^verbatim>\<open>^[a-z][a-z0-9-]{1,50}[a-z0-9]$\<close>.\<close>

definition tenantIDPattern :: "string \<Rightarrow> bool" where
  "tenantIDPattern s \<longleftrightarrow>
     (case s of [] \<Rightarrow> False
      | c # rest \<Rightarrow> is_lower c \<and> 2 \<le> length rest \<and> length rest \<le> 51 \<and>
          list_all (\<lambda>x. is_lower x \<or> is_digit x \<or> x = CHR ''-'') (butlast rest) \<and>
          (is_lower (last rest) \<or> is_digit (last rest)))"

datatype tenant_error = TenantEmpty | InvalidTenantID string

definition ValidateTenantID :: "string \<Rightarrow> tenant_error option" where
  "ValidateTenantID tid =
     (if tid = [] then Some TenantEmpty
      else if \<not> tenantIDPattern tid then Some (InvalidTenantID tid)
      else None)"

subsection \<open>Subject tokens\<close>

type_synonym task_type = string

definition subjectPrefix :: string where
  "subjectPrefix = ''crosscodex''"

definition WorkerProgressSubject :: string where
  "WorkerProgressSubject = subjectPrefix @ ''.workers.progress''"

definition MaxJobIDLength :: nat where
  "MaxJobIDLength = 128"

text \<open>The task type constants, in declaration order.\<close>

definition taskTypes :: "task_type list" where
  "taskTypes = [''classify'', ''relate'', ''requires'', ''artifacts'', ''embed'']"

datatype token_error = TokenEmpty string | TokenDelimiter string string

datatype subject_error =
    SubjectTenant tenant_error
  | SubjectToken token_error
  | SubjectJobToken token_error
  | SubjectJobTooLong nat
  | SubjectTaskType string
  | SubjectCollectionUUID string
  | SubjectNotAbandon string
  | SubjectAbandon string subject_error

definition validateToken :: "string \<Rightarrow> string \<Rightarrow> token_error option" where
  "validateToken token label =
     (if token = [] then Some (TokenEmpty label)
      else if list_ex (\<lambda>c. c \<in> set ''.*>'') token then Some (TokenDelimiter label token)
      else None)"

definition validateTenant :: "string \<Rightarrow> subject_error option" where
  "validateTenant tenantID = map_option SubjectTenant (ValidateTenantID tenantID)"

definition validateJobID :: "string \<Rightarrow> subject_error option" where
  "validateJobID jobID =
     (case validateToken jobID ''job ID'' of
        Some e \<Rightarrow> Some (SubjectJobToken e)
      | None \<Rightarrow> if length jobID > MaxJobIDLength then Some (SubjectJobTooLong (length jobID)) else None)"

definition buildSubject ::
  "string \<Rightarrow> subject_error option \<Rightarrow> string list \<Rightarrow> subject_error + string" where
  "buildSubject tenantID tokenErr parts =
     (case validateTenant tenantID of
        Some e \<Rightarrow> Inl e
      | None \<Rightarrow>
         (case tokenErr of
            Some e \<Rightarrow> Inl e
          | None \<Rightarrow> Inr (subjectPrefix @ ''.'' @ join_with ''.'' parts)))"

subsection \<open>Subject builders\<close>

definition PipelineStageSubject :: "string \<Rightarrow> string \<Rightarrow> string \<Rightarrow> subject_error + string" where
  "PipelineStageSubject tenantID jobID stage =
     buildSubject tenantID (validateJobID jobID) [''pipeline'', tenantID, jobID, ''stage'', stage]"

definition PipelineStateSubject :: "string \<Rightarrow> string \<Rightarrow> subject_error + string" where
  "PipelineStateSubject tenantID jobID =
     buildSubject tenantID (validateJobID jobID) [''pipeline'', tenantID, jobID, ''state'']"

definition WorkSubject :: "string \<Rightarrow> task_type \<Rightarrow> string \<Rightarrow> subject_error + string" where
  "WorkSubject tenantID taskType jobID =
     buildSubject tenantID (validateJobID jobID) [''work'', tenantID, taskType, jobID]"

definition ResultSubject :: "string \<Rightarrow> task_type \<Rightarrow> string \<Rightarrow> subject_error + string" where
  "ResultSubject tenantID taskType jobID =
     buildSubject tenantID (validateJobID jobID) [''results'', tenantID, taskType, jobID]"

definition AuditSubject :: "string \<Rightarrow> string \<Rightarrow> string \<Rightarrow> subject_error + string" where
  "AuditSubject tenantID auditType jobID =
     buildSubject tenantID (validateJobID jobID) [''audit'', tenantID, auditType, jobID]"

definition FeedbackSubject :: "string \<Rightarrow> string \<Rightarrow> subject_error + string" where
  "FeedbackSubject tenantID edgeID =
     buildSubject tenantID (map_option SubjectToken (validateToken edgeID ''edge ID''))
       [''feedback'', tenantID, edgeID]"

definition CatalogParsedSubject :: "string \<Rightarrow> string \<Rightarrow> subject_error + string" where
  "CatalogParsedSubject tenantID catalogID =
     buildSubject tenantID (map_option SubjectToken (validateToken catalogID ''catalog ID''))
       [''catalog'', tenantID, catalogID, ''parsed'']"

record AbandonedCollection =
  TenantID :: string
  TaskType :: task_type
  JobID :: string
  CollectionID :: string

definition AbandonedSubject ::
  "(string \<Rightarrow> string option) \<Rightarrow> AbandonedCollection \<Rightarrow> subject_error + string" where
  "AbandonedSubject uuid_parse c =
     (case validateToken (TaskType c) ''task type'' of
        Some e \<Rightarrow> Inl (SubjectToken e)
      | None \<Rightarrow>
         if \<not> List.member taskTypes (TaskType c) then Inl (SubjectTaskType (TaskType c))
         else (case validateToken (CollectionID c) ''collection ID'' of
            Some e \<Rightarrow> Inl (SubjectToken e)
          | None \<Rightarrow>
             if uuid_parse (CollectionID c) \<noteq> Some (CollectionID c)
             then Inl (SubjectCollectionUUID (CollectionID c))
             else buildSubject (TenantID c) (validateJobID (JobID c))
               [''control'', TenantID c, TaskType c, JobID c, CollectionID c, ''abandoned'']))"

definition ParseAbandonedSubject ::
  "(string \<Rightarrow> string option) \<Rightarrow> string \<Rightarrow> subject_error + AbandonedCollection" where
  "ParseAbandonedSubject uuid_parse subject =
     (let parts = split_on CHR ''.'' subject in
      if length parts \<noteq> 7 \<or> parts ! 0 \<noteq> subjectPrefix \<or> parts ! 1 \<noteq> ''control'' \<or> parts ! 6 \<noteq> ''abandoned''
      then Inl (SubjectNotAbandon subject)
      else
        (let c = \<lparr>TenantID = parts ! 2, TaskType = parts ! 3, JobID = parts ! 4, CollectionID = parts ! 5\<rparr> in
         case AbandonedSubject uuid_parse c of
           Inl e \<Rightarrow> Inl (SubjectAbandon subject e)
         | Inr _ \<Rightarrow> Inr c))"

text \<open>Every builder as one request type, to state properties of all of them at once.\<close>

datatype subject_req =
    ReqStage string string string
  | ReqState string string
  | ReqWork string task_type string
  | ReqResult string task_type string
  | ReqAudit string string string
  | ReqFeedback string string
  | ReqCatalog string string
  | ReqAbandoned AbandonedCollection

fun build_req :: "(string \<Rightarrow> string option) \<Rightarrow> subject_req \<Rightarrow> subject_error + string" where
  "build_req up (ReqStage t j s) = PipelineStageSubject t j s"
| "build_req up (ReqState t j) = PipelineStateSubject t j"
| "build_req up (ReqWork t ty j) = WorkSubject t ty j"
| "build_req up (ReqResult t ty j) = ResultSubject t ty j"
| "build_req up (ReqAudit t a j) = AuditSubject t a j"
| "build_req up (ReqFeedback t e) = FeedbackSubject t e"
| "build_req up (ReqCatalog t c) = CatalogParsedSubject t c"
| "build_req up (ReqAbandoned c) = AbandonedSubject up c"

fun req_tenant :: "subject_req \<Rightarrow> string" where
  "req_tenant (ReqStage t j s) = t"
| "req_tenant (ReqState t j) = t"
| "req_tenant (ReqWork t ty j) = t"
| "req_tenant (ReqResult t ty j) = t"
| "req_tenant (ReqAudit t a j) = t"
| "req_tenant (ReqFeedback t e) = t"
| "req_tenant (ReqCatalog t c) = t"
| "req_tenant (ReqAbandoned c) = TenantID c"

fun req_category :: "subject_req \<Rightarrow> string" where
  "req_category (ReqStage t j s) = ''pipeline''"
| "req_category (ReqState t j) = ''pipeline''"
| "req_category (ReqWork t ty j) = ''work''"
| "req_category (ReqResult t ty j) = ''results''"
| "req_category (ReqAudit t a j) = ''audit''"
| "req_category (ReqFeedback t e) = ''feedback''"
| "req_category (ReqCatalog t c) = ''catalog''"
| "req_category (ReqAbandoned c) = ''control''"

lemmas subject_builder_defs =
  PipelineStageSubject_def PipelineStateSubject_def WorkSubject_def ResultSubject_def
  AuditSubject_def FeedbackSubject_def CatalogParsedSubject_def

subsection \<open>Lemmas on tokens and tenants\<close>

lemma validateToken_None_iff:
  "validateToken tok label = None \<longleftrightarrow> tok \<noteq> [] \<and> CHR ''.'' \<notin> set tok \<and> CHR ''*'' \<notin> set tok \<and> CHR ''>'' \<notin> set tok"
  by (auto simp: validateToken_def list_ex_iff)

lemma validateJobID_None_iff:
  "validateJobID j = None \<longleftrightarrow> validateToken j ''job ID'' = None \<and> length j \<le> MaxJobIDLength"
  by (auto simp: validateJobID_def split: option.splits)

lemma validateTenant_None_iff: "validateTenant t = None \<longleftrightarrow> tenantIDPattern t"
  by (auto simp: validateTenant_def ValidateTenantID_def tenantIDPattern_def)

lemma not_tenant_char:
  "\<not> is_lower CHR ''.''" "\<not> is_digit CHR ''.''" "\<not> is_lower CHR ''*''" "\<not> is_digit CHR ''*''"
  "\<not> is_lower CHR ''>''" "\<not> is_digit CHR ''>''"
  by (simp_all add: is_lower_def is_digit_def less_eq_char_def)

lemma tenantIDPattern_chars:
  assumes "tenantIDPattern t" and "x \<in> set t"
  shows "is_lower x \<or> is_digit x \<or> x = CHR ''-''"
proof -
  from assms obtain c rest where t: "t = c # rest" "is_lower c" "2 \<le> length rest"
      "list_all (\<lambda>x. is_lower x \<or> is_digit x \<or> x = CHR ''-'') (butlast rest)"
      "is_lower (last rest) \<or> is_digit (last rest)"
    by (auto simp: tenantIDPattern_def split: list.splits)
  from t(3) have "rest \<noteq> []" by auto
  then have "set rest = set (butlast rest @ [last rest])" by simp
  with t assms(2) show ?thesis by (auto simp: list_all_iff simp del: append_butlast_last_id)
qed

lemma tenantIDPattern_length: "tenantIDPattern t \<Longrightarrow> 3 \<le> length t \<and> length t \<le> 52"
  by (auto simp: tenantIDPattern_def split: list.splits)

lemma tenantIDPattern_no_dot: "tenantIDPattern t \<Longrightarrow> CHR ''.'' \<notin> set t"
  using tenantIDPattern_chars [of t "CHR ''.''"] not_tenant_char by auto

lemma buildSubject_Inr_iff:
  "buildSubject t e ps = Inr s \<longleftrightarrow>
     tenantIDPattern t \<and> e = None \<and> s = join_with ''.'' (subjectPrefix # ps)"
  if "ps \<noteq> []"
  using that
  by (auto simp: buildSubject_def validateTenant_None_iff [symmetric] join_with_Cons_not_Nil split: option.splits)

lemma taskTypes_no_dot: "List.member taskTypes ty \<Longrightarrow> CHR ''.'' \<notin> set ty"
  by (auto simp: taskTypes_def)

lemma taskTypes_length: "List.member taskTypes ty \<Longrightarrow> length ty \<le> 9"
  by (auto simp: taskTypes_def)

lemma taskTypes_token: "List.member taskTypes ty \<Longrightarrow> validateToken ty label = None"
  by (auto simp: taskTypes_def validateToken_None_iff)

lemma AbandonedSubject_Inr_iff:
  "AbandonedSubject up c = Inr s \<longleftrightarrow>
     List.member taskTypes (TaskType c) \<and>
     validateToken (CollectionID c) ''collection ID'' = None \<and>
     up (CollectionID c) = Some (CollectionID c) \<and>
     tenantIDPattern (TenantID c) \<and> validateJobID (JobID c) = None \<and>
     s = join_with ''.'' [subjectPrefix, ''control'', TenantID c, TaskType c, JobID c, CollectionID c, ''abandoned'']"
  (is "?L \<longleftrightarrow> ?R")
proof (cases "List.member taskTypes (TaskType c)")
  case True
  then have "validateToken (TaskType c) ''task type'' = None" by (rule taskTypes_token)
  with True show ?thesis
    by (auto simp: AbandonedSubject_def buildSubject_Inr_iff split: option.splits)
next
  case False
  then show ?thesis by (auto simp: AbandonedSubject_def split: option.splits)
qed

lemma prefix_no_dot: "CHR ''.'' \<notin> set subjectPrefix"
  by (simp add: subjectPrefix_def)

lemma AbandonedSubject_split:
  assumes "AbandonedSubject up c = Inr s"
  shows "split_on CHR ''.'' s =
    [subjectPrefix, ''control'', TenantID c, TaskType c, JobID c, CollectionID c, ''abandoned'']"
proof -
  from assms have c: "List.member taskTypes (TaskType c)" "tenantIDPattern (TenantID c)"
      "validateToken (CollectionID c) ''collection ID'' = None" "validateToken (JobID c) ''job ID'' = None"
      and s: "s = join_with [CHR ''.''] [subjectPrefix, ''control'', TenantID c, TaskType c, JobID c, CollectionID c, ''abandoned'']"
    unfolding AbandonedSubject_Inr_iff validateJobID_None_iff by blast+
  show ?thesis
    unfolding s using c prefix_no_dot taskTypes_no_dot tenantIDPattern_no_dot
    by (intro split_on_join_with) (auto simp: validateToken_None_iff)
qed

lemma ParseAbandonedSubject_Inr_iff:
  "ParseAbandonedSubject up s = Inr c \<longleftrightarrow> AbandonedSubject up c = Inr s"
proof
  assume L: "AbandonedSubject up c = Inr s"
  show "ParseAbandonedSubject up s = Inr c"
    using L by (cases c) (simp add: ParseAbandonedSubject_def AbandonedSubject_split [OF L] Let_def)
next
  assume R: "ParseAbandonedSubject up s = Inr c"
  let ?ps = "split_on CHR ''.'' s"
  from R have len: "length ?ps = 7" and lits: "?ps ! 0 = subjectPrefix" "?ps ! 1 = ''control''" "?ps ! 6 = ''abandoned''"
      and c: "c = \<lparr>TenantID = ?ps ! 2, TaskType = ?ps ! 3, JobID = ?ps ! 4, CollectionID = ?ps ! 5\<rparr>"
    by (auto simp: ParseAbandonedSubject_def Let_def split: if_splits sum.splits)
  from R obtain s' where s': "AbandonedSubject up c = Inr s'"
    by (auto simp: ParseAbandonedSubject_def Let_def split: if_splits sum.splits)
  have "?ps = map (nth ?ps) [0..<7]"
    using len by (metis map_nth)
  then have "?ps = [?ps ! 0, ?ps ! 1, ?ps ! 2, ?ps ! 3, ?ps ! 4, ?ps ! 5, ?ps ! 6]"
    by (simp add: upt_rec numeral_eq_Suc)
  then have ps: "?ps = [subjectPrefix, ''control'', TenantID c, TaskType c, JobID c, CollectionID c, ''abandoned'']"
    using lits c by simp
  have "s = join_with [CHR ''.''] ?ps"
    by (simp add: join_with_split_on)
  with s' ps show "AbandonedSubject up c = Inr s"
    by (simp add: AbandonedSubject_Inr_iff)
qed

text \<open>
  An encoder to subjects and a decoder of untrusted subjects that agree. What a client of
  such a codec may use: each value has one subject, and decoding accepts nothing else.
\<close>

locale subject_codec =
  fixes enc :: "'c \<Rightarrow> 'e + string"
    and dec :: "string \<Rightarrow> 'e + 'c"
  assumes dec_iff: "dec s = Inr c \<longleftrightarrow> enc c = Inr s"
begin

lemma enc_inj: "enc c = Inr s \<Longrightarrow> enc c' = Inr s \<Longrightarrow> c = c'"
  by (metis dec_iff sum.inject(2))

lemma dec_inj: "dec s = Inr c \<Longrightarrow> dec s' = Inr c \<Longrightarrow> s = s'"
  by (metis dec_iff sum.inject(2))

lemma rejected: "(\<nexists>c. enc c = Inr s) \<Longrightarrow> \<exists>e. dec s = Inl e"
  by (metis dec_iff sum.exhaust)

end

interpretation abandoned_codec: subject_codec "AbandonedSubject up" "ParseAbandonedSubject up" for up
  by unfold_locales (rule ParseAbandonedSubject_Inr_iff)

subsection \<open>Tenant scoping of every subject\<close>

lemma build_req_shape:
  assumes "build_req up r = Inr s"
  shows "\<exists>rest. s = join_with ''.'' (subjectPrefix # req_category r # req_tenant r # rest) \<and> tenantIDPattern (req_tenant r)"
  using assms
  by (cases r; simp add: subject_builder_defs buildSubject_Inr_iff AbandonedSubject_Inr_iff del: join_with.simps; blast)

lemma category_no_dot: "CHR ''.'' \<notin> set (req_category r)"
  by (cases r) auto

lemma split_three:
  assumes "CHR ''.'' \<notin> set a" "CHR ''.'' \<notin> set b" "CHR ''.'' \<notin> set c"
  shows "\<exists>rest'. split_on CHR ''.'' (join_with ''.'' (a # b # c # rest)) = a # b # c # rest'"
  using assms by (cases rest) (auto simp: split_on_append_sep split_on_no_sep)

lemma build_req_tokens:
  assumes "build_req up r = Inr s"
  shows "\<exists>rest. split_on CHR ''.'' s = subjectPrefix # req_category r # req_tenant r # rest"
proof -
  from build_req_shape [OF assms] obtain rest where
    s: "s = join_with ''.'' (subjectPrefix # req_category r # req_tenant r # rest)" and
    t: "tenantIDPattern (req_tenant r)" by blast
  show ?thesis
    unfolding s using t by (intro split_three prefix_no_dot category_no_dot tenantIDPattern_no_dot)
qed

text \<open>
  C1. Tenant isolation on the bus: whatever builders and arguments are used, two requests
  that produce the same subject are of the same category and of the same tenant, and no
  request produces the tenant-free worker progress subject.
\<close>

theorem subject_tenant_isolation:
  assumes "build_req up r = Inr s" and "build_req up r' = Inr s"
  shows "req_tenant r = req_tenant r' \<and> req_category r = req_category r' \<and> s \<noteq> WorkerProgressSubject"
proof -
  have "req_category r \<noteq> ''workers''" by (cases r) auto
  moreover have "split_on CHR ''.'' WorkerProgressSubject = [subjectPrefix, ''workers'', ''progress'']"
    by (simp add: WorkerProgressSubject_def subjectPrefix_def)
  ultimately show ?thesis
    using build_req_tokens [OF assms(1)] build_req_tokens [OF assms(2)] by auto
qed

theorem subject_tenant_isolation_witness:
  "build_req (\<lambda>s. Some s) (ReqWork ''acme'' ''relate'' ''j1'') = Inr ''crosscodex.work.acme.relate.j1'' \<and>
   req_tenant (ReqWork ''acme'' ''relate'' ''j1'') = ''acme'' \<and>
   ''crosscodex.work.acme.relate.j1'' \<noteq> WorkerProgressSubject"
proof -
  have b: "build_req (\<lambda>s. Some s) (ReqWork ''acme'' ''relate'' ''j1'') = Inr ''crosscodex.work.acme.relate.j1''"
    by code_simp
  show ?thesis using b subject_tenant_isolation [OF b b] by simp
qed

text \<open>
  C2. \<^verbatim>\<open>ParseAbandonedSubject\<close> is the inverse of \<^verbatim>\<open>AbandonedSubject\<close>: it accepts exactly the
  subjects the builder can produce, returns the collection the subject was built from, and
  every other string is an error. No assumption on the UUID parser is needed.
\<close>

theorem abandoned_subject_roundtrip:
  "(ParseAbandonedSubject up s = Inr c) = (AbandonedSubject up c = Inr s)"
  by (rule abandoned_codec.dec_iff)

text \<open>
  A collection accepted from the bus has a bounded size (the bound the worker's memory
  estimate uses): tenant at most 52 bytes, task type at most 9, job ID at most 128, and
  collection ID 36, given that a canonical UUID text has 36 characters.
\<close>

lemma parsed_collection_bounded:
  assumes "ParseAbandonedSubject up s = Inr c" and "\<And>u. up u = Some u \<Longrightarrow> length u = 36"
  shows "length (TenantID c) \<le> 52 \<and> length (TaskType c) \<le> 9 \<and> length (JobID c) \<le> 128 \<and> length (CollectionID c) = 36"
  using assms tenantIDPattern_length [of "TenantID c"] taskTypes_length [of "TaskType c"]
  by (auto simp: ParseAbandonedSubject_Inr_iff AbandonedSubject_Inr_iff validateJobID_None_iff MaxJobIDLength_def)

definition uuid_len36 :: "string \<Rightarrow> string option" where
  "uuid_len36 s = (if length s = 36 then Some s else None)"

end
