(* ===== verification/Abandoned_Set.thy ===== *)
theory Abandoned_Set
  imports Subjects
begin

text \<open>
  The worker's memory of abandoned collections (\<^verbatim>\<open>src/internal/worker/abandoned.go\<close>):
  a FIFO queue that is also the expiry order, bounded by \<open>limit\<close>, and the two message
  handlers that use it.

  An instant is an \<open>int\<close> of nanoseconds with Go's zero time at 0. A slice read that would
  panic is \<open>None\<close>. The resize callback is the last component of a result: \<open>Some n\<close> when it
  is called with \<open>n\<close>. Every method body runs under the set's mutex, so an execution is a
  sequence of whole method calls.
\<close>

subsection \<open>The set\<close>

record abandonedSet =
  ttl :: int
  limit :: int
  onResize :: bool
  expires :: "AbandonedCollection \<Rightarrow> int option"
  order :: "AbandonedCollection list"

definition newAbandonedSet :: "int \<Rightarrow> int \<Rightarrow> bool \<Rightarrow> abandonedSet" where
  "newAbandonedSet d n cb = \<lparr>ttl = d, limit = n, onResize = cb, expires = (\<lambda>_. None), order = []\<rparr>"

text \<open>Reading a missing key of the Go map gives the zero time.\<close>

definition expiry_of :: "abandonedSet \<Rightarrow> AbandonedCollection \<Rightarrow> int" where
  "expiry_of s c = (case expires s c of None \<Rightarrow> 0 | Some e \<Rightarrow> e)"

definition popOldest :: "abandonedSet \<Rightarrow> abandonedSet option" where
  "popOldest s =
     (case order s of [] \<Rightarrow> None
      | c # cs \<Rightarrow> Some (s\<lparr>expires := (expires s)(c := None), order := cs\<rparr>))"

text \<open>The loop of \<^verbatim>\<open>pruneExpired\<close>: each turn shortens the queue.\<close>

function pruneExpired :: "int \<Rightarrow> abandonedSet \<Rightarrow> abandonedSet" where
  "pruneExpired now s =
     (case order s of [] \<Rightarrow> s
      | c # cs \<Rightarrow>
         if \<not> now < expiry_of s c
         then pruneExpired now (s\<lparr>expires := (expires s)(c := None), order := cs\<rparr>)
         else s)"
  by pat_completeness auto
termination
  by (relation "measure (\<lambda>(now, s). length (order s))") auto

declare pruneExpired.simps [simp del]

definition reportResize :: "nat \<Rightarrow> abandonedSet \<Rightarrow> nat option" where
  "reportResize before s =
     (if onResize s \<and> length (order s) \<noteq> before then Some (length (order s)) else None)"

definition add :: "int \<Rightarrow> AbandonedCollection \<Rightarrow> abandonedSet \<Rightarrow> (abandonedSet \<times> nat \<times> nat option) option" where
  "add now c s =
     (let before = length (order s);
          s1 = pruneExpired now s
      in if expires s1 c \<noteq> None then Some (s1, length (order s1), reportResize before s1)
         else
           (case (if int (length (order s1)) \<ge> limit s1 then popOldest s1 else Some s1) of
              None \<Rightarrow> None
            | Some s2 \<Rightarrow>
                (let s3 = s2\<lparr>expires := (expires s2)(c \<mapsto> now + ttl s2), order := order s2 @ [c]\<rparr>
                 in Some (s3, length (order s3), reportResize before s3))))"

definition contains :: "int \<Rightarrow> AbandonedCollection \<Rightarrow> abandonedSet \<Rightarrow> abandonedSet \<times> bool \<times> nat option" where
  "contains now c s =
     (let s1 = pruneExpired now s
      in (s1, expires s1 c \<noteq> None, reportResize (length (order s)) s1))"

definition len_set :: "abandonedSet \<Rightarrow> nat" where
  "len_set s = length (order s)"

subsection \<open>The worker's handlers\<close>

record bus_message =
  Subject :: string
  msg_Data :: string
  provenance_TenantID :: string

text \<open>The part of the worker that the handlers touch: the set and its counters.\<close>

record worker =
  abandoned :: abandonedSet
  dropped :: nat
  rejected :: nat

definition rejectControl :: "worker \<Rightarrow> worker" where
  "rejectControl w = w\<lparr>rejected := Suc (rejected w)\<rparr>"

definition dropAbandoned ::
  "int \<Rightarrow> string \<Rightarrow> string \<Rightarrow> string \<Rightarrow> string \<Rightarrow> worker \<Rightarrow> worker \<times> bool" where
  "dropAbandoned now tenantID taskType jobID collectionID w =
     (if collectionID = [] then (w, False)
      else
        (let c = \<lparr>TenantID = tenantID, TaskType = taskType, JobID = jobID, CollectionID = collectionID\<rparr>;
             (s, held, _) = contains now c (abandoned w);
             w1 = w\<lparr>abandoned := s\<rparr>
         in if \<not> held then (w1, False) else (w1\<lparr>dropped := Suc (dropped w1)\<rparr>, True)))"

definition handleAbandoned ::
  "(string \<Rightarrow> string option) \<Rightarrow> int \<Rightarrow> bus_message \<Rightarrow> worker \<Rightarrow> worker option" where
  "handleAbandoned uuid_parse now msg w =
     (case ParseAbandonedSubject uuid_parse (Subject msg) of
        Inl e \<Rightarrow> Some (rejectControl w)
      | Inr c \<Rightarrow>
          if provenance_TenantID msg \<noteq> TenantID c then Some (rejectControl w)
          else if length (msg_Data msg) \<noteq> 0 then Some (rejectControl w)
          else map_option (\<lambda>(s, _, _). w\<lparr>abandoned := s\<rparr>) (add now c (abandoned w)))"

subsection \<open>Invariant\<close>

text \<open>
  \<open>set_inv t0 s\<close>: the queue holds each key of the map once, in expiry order, within the
  limit, and no entry expires later than one TTL after the last clock reading.
\<close>

definition set_inv :: "int \<Rightarrow> abandonedSet \<Rightarrow> bool" where
  "set_inv t0 s \<longleftrightarrow>
     distinct (order s) \<and> dom (expires s) = set (order s) \<and>
     sorted (map (expiry_of s) (order s)) \<and>
     1 \<le> limit s \<and> int (length (order s)) \<le> limit s \<and>
     (\<forall>c \<in> set (order s). expiry_of s c \<le> t0 + ttl s)"

lemma set_inv_new: "1 \<le> n \<Longrightarrow> set_inv t (newAbandonedSet d n cb)"
  by (simp add: set_inv_def newAbandonedSet_def)

lemma set_inv_expires: "set_inv t0 s \<Longrightarrow> c \<in> set (order s) \<Longrightarrow> expires s c = Some (expiry_of s c)"
  unfolding set_inv_def expiry_of_def by (auto split: option.splits)

lemma set_inv_none: "set_inv t0 s \<Longrightarrow> c \<notin> set (order s) \<Longrightarrow> expires s c = None"
  unfolding set_inv_def by blast

lemma set_inv_tl:
  assumes "set_inv t0 s" and "order s = c # cs"
  shows "set_inv t0 (s\<lparr>expires := (expires s)(c := None), order := cs\<rparr>)" (is "set_inv t0 ?s")
proof -
  have e: "expiry_of ?s x = expiry_of s x" if "x \<in> set cs" for x
    using that assms by (auto simp: expiry_of_def set_inv_def)
  then have m: "map (expiry_of ?s) cs = map (expiry_of s) cs" by simp
  have "sorted (map (expiry_of ?s) cs)"
    unfolding m using assms by (simp add: set_inv_def)
  with assms e show ?thesis unfolding set_inv_def by auto
qed

lemma pruneExpired_fields [simp]:
  "ttl (pruneExpired now s) = ttl s" "limit (pruneExpired now s) = limit s"
  "onResize (pruneExpired now s) = onResize s"
  by (induction now s rule: pruneExpired.induct; subst pruneExpired.simps; auto split: list.splits)+

lemma pruneExpired_order:
  "set_inv t0 s \<Longrightarrow> order (pruneExpired now s) = filter (\<lambda>c. now < expiry_of s c) (order s)"
proof (induction now s rule: pruneExpired.induct)
  case (1 now s)
  show ?case
  proof (cases "order s")
    case Nil
    then show ?thesis by (simp add: pruneExpired.simps [of now s])
  next
    case (Cons c cs)
    let ?s = "s\<lparr>expires := (expires s)(c := None), order := cs\<rparr>"
    have inv: "set_inv t0 ?s" using 1 Cons by (auto intro: set_inv_tl)
    have e: "expiry_of ?s x = expiry_of s x" if "x \<in> set cs" for x
      using that "1.prems" Cons by (auto simp: expiry_of_def set_inv_def)
    show ?thesis
    proof (cases "now < expiry_of s c")
      case True
      with "1.prems" Cons have "\<forall>x \<in> set cs. now < expiry_of s x"
        by (auto simp: set_inv_def)
      with True Cons show ?thesis by (simp add: pruneExpired.simps [of now s])
    next
      case False
      with "1.IH" [OF Cons _ inv] Cons e show ?thesis
        by (simp add: pruneExpired.simps [of now s] cong: filter_cong)
    qed
  qed
qed

lemma pruneExpired_expires:
  "set_inv t0 s \<Longrightarrow> expires (pruneExpired now s) c =
     (if c \<in> set (order s) \<and> now < expiry_of s c then expires s c else None)"
proof (induction now s rule: pruneExpired.induct)
  case (1 now s)
  show ?case
  proof (cases "order s")
    case Nil
    with "1.prems" show ?thesis
      by (simp add: pruneExpired.simps [of now s] set_inv_none [of t0])
  next
    case (Cons d cs)
    let ?s = "s\<lparr>expires := (expires s)(d := None), order := cs\<rparr>"
    have inv: "set_inv t0 ?s" using 1 Cons by (auto intro: set_inv_tl)
    have e: "expiry_of ?s x = expiry_of s x" "expires ?s x = expires s x" if "x \<in> set cs" for x
      using that "1.prems" Cons by (auto simp: expiry_of_def set_inv_def)
    show ?thesis
    proof (cases "now < expiry_of s d")
      case True
      with "1.prems" Cons have "\<forall>x \<in> set (order s). now < expiry_of s x"
        by (auto simp: set_inv_def)
      moreover have "c \<notin> set (order s) \<Longrightarrow> expires s c = None"
        using "1.prems" by (rule set_inv_none)
      ultimately show ?thesis
        using True Cons by (auto simp: pruneExpired.simps [of now s])
    next
      case False
      then have "expires (pruneExpired now s) c = expires (pruneExpired now ?s) c"
        using Cons by (simp add: pruneExpired.simps [of now s])
      also have "\<dots> = (if c \<in> set cs \<and> now < expiry_of ?s c then expires ?s c else None)"
        using "1.IH" [OF Cons False inv] by simp
      finally show ?thesis using False Cons e by auto
    qed
  qed
qed

lemma pruneExpired_expiry_of:
  "set_inv t0 s \<Longrightarrow> c \<in> set (order (pruneExpired now s)) \<Longrightarrow> expiry_of (pruneExpired now s) c = expiry_of s c"
  by (auto simp: pruneExpired_order pruneExpired_expires expiry_of_def)

lemma pruneExpired_expires_iff:
  assumes "set_inv t0 s"
  shows "expires (pruneExpired now s) c = Some e \<longleftrightarrow> expires s c = Some e \<and> now < e"
proof (cases "c \<in> set (order s)")
  case True
  with assms have "expires s c = Some (expiry_of s c)" by (rule set_inv_expires)
  with True assms show ?thesis by (auto simp: pruneExpired_expires)
next
  case False
  with assms show ?thesis by (auto simp: pruneExpired_expires set_inv_none [of t0])
qed

lemma set_inv_prune:
  assumes "set_inv t0 s" and "t0 \<le> now"
  shows "set_inv now (pruneExpired now s)"
proof -
  let ?p = "pruneExpired now s"
  have o: "order ?p = filter (\<lambda>c. now < expiry_of s c) (order s)"
    using assms(1) by (rule pruneExpired_order)
  have e: "\<And>c. c \<in> set (order ?p) \<Longrightarrow> expiry_of ?p c = expiry_of s c"
    using assms(1) by (rule pruneExpired_expiry_of)
  have "dom (expires ?p) = set (order ?p)"
    using assms(1) unfolding o
    by (auto simp: pruneExpired_expires set_inv_expires split: if_splits)
  moreover have "sorted (map (expiry_of ?p) (order ?p))"
  proof -
    have "map (expiry_of ?p) (order ?p) = map (expiry_of s) (filter (\<lambda>c. now < expiry_of s c) (order s))"
      using e o by simp
    then show ?thesis using assms(1) by (simp add: set_inv_def sorted_filter)
  qed
  moreover have "int (length (order ?p)) \<le> limit ?p"
    using assms(1) length_filter_le [of "\<lambda>c. now < expiry_of s c" "order s"]
    unfolding o set_inv_def pruneExpired_fields by linarith
  moreover have "\<forall>c \<in> set (order ?p). expiry_of ?p c \<le> now + ttl ?p"
    using assms e by (fastforce simp: o set_inv_def)
  ultimately show ?thesis using assms(1) by (simp add: set_inv_def o)
qed

subsection \<open>Refinement: one bounded list of pairs\<close>

text \<open>
  The specification is a list of (collection, expiry) pairs, oldest first: adding drops
  the expired pairs, ignores a collection that is still held, and otherwise appends it,
  dropping the oldest pair when the list is full.
\<close>

type_synonym fifo = "(AbandonedCollection \<times> int) list"

definition fifo_live :: "int \<Rightarrow> fifo \<Rightarrow> fifo" where
  "fifo_live now q = filter (\<lambda>(c, e). now < e) q"

definition fifo_add :: "int \<Rightarrow> int \<Rightarrow> int \<Rightarrow> AbandonedCollection \<Rightarrow> fifo \<Rightarrow> fifo" where
  "fifo_add d n now c q =
     (let q1 = fifo_live now q in
      if c \<in> set (map fst q1) then q1
      else (if int (length q1) \<ge> n then tl q1 else q1) @ [(c, now + d)])"

definition abs_fifo :: "abandonedSet \<Rightarrow> fifo" where
  "abs_fifo s = map (\<lambda>c. (c, expiry_of s c)) (order s)"

lemma abs_fifo_prune:
  assumes "set_inv t0 s"
  shows "abs_fifo (pruneExpired now s) = fifo_live now (abs_fifo s)"
  using pruneExpired_expiry_of [OF assms] pruneExpired_order [OF assms]
  by (auto simp: abs_fifo_def fifo_live_def filter_map o_def)

lemma held_iff_order: "set_inv t0 s \<Longrightarrow> expires s c \<noteq> None \<longleftrightarrow> c \<in> set (order s)"
  unfolding set_inv_def by blast

lemma popOldest_inv:
  assumes "set_inv t0 s" and "order s \<noteq> []"
  shows "\<exists>s'. popOldest s = Some s' \<and> set_inv t0 s' \<and> order s' = tl (order s) \<and>
           ttl s' = ttl s \<and> limit s' = limit s \<and> onResize s' = onResize s \<and>
           (\<forall>c \<in> set (order s'). expiry_of s' c = expiry_of s c)"
proof -
  obtain c cs where o: "order s = c # cs" using assms(2) by (cases "order s") auto
  have "\<forall>x \<in> set cs. expiry_of (s\<lparr>expires := (expires s)(c := None), order := cs\<rparr>) x = expiry_of s x"
    using assms(1) o by (auto simp: expiry_of_def set_inv_def)
  with o set_inv_tl [OF assms(1) o] show ?thesis by (simp add: popOldest_def)
qed

lemma set_inv_append:
  assumes "set_inv now s" and "c \<notin> set (order s)" and "int (length (order s)) < limit s"
  defines "s' \<equiv> s\<lparr>expires := (expires s)(c \<mapsto> now + ttl s), order := order s @ [c]\<rparr>"
  shows "set_inv now s'" and "abs_fifo s' = abs_fifo s @ [(c, now + ttl s)]"
proof -
  have c: "expiry_of s' c = now + ttl s" by (simp add: s'_def expiry_of_def)
  have e: "expiry_of s' x = expiry_of s x" if "x \<in> set (order s)" for x
    using that assms(2) by (auto simp: s'_def expiry_of_def)
  then have m: "map (expiry_of s') (order s) = map (expiry_of s) (order s)" by simp
  show "abs_fifo s' = abs_fifo s @ [(c, now + ttl s)]"
    using c e by (simp add: abs_fifo_def s'_def)
  have o: "order s' = order s @ [c]" and t: "ttl s' = ttl s" by (simp_all add: s'_def)
  have "map (expiry_of s') (order s') = map (expiry_of s) (order s) @ [now + ttl s]"
    using m c by (simp add: o)
  then have "sorted (map (expiry_of s') (order s'))"
    using assms(1) by (auto simp: sorted_append set_inv_def)
  moreover have "\<forall>x \<in> set (order s'). expiry_of s' x \<le> now + ttl s'"
    using assms(1) c e by (auto simp: o t set_inv_def)
  ultimately show "set_inv now s'"
    using assms by (auto simp: set_inv_def)
qed

lemma add_refines_fifo:
  assumes inv: "set_inv t0 s" and le: "t0 \<le> now"
  shows "\<exists>s' r. add now c s = Some (s', length (order s'), r) \<and> set_inv now s' \<and>
           abs_fifo s' = fifo_add (ttl s) (limit s) now c (abs_fifo s) \<and>
           ttl s' = ttl s \<and> limit s' = limit s \<and> onResize s' = onResize s"
proof -
  let ?p = "pruneExpired now s"
  have p: "set_inv now ?p" using inv le by (rule set_inv_prune)
  have ap: "abs_fifo ?p = fifo_live now (abs_fifo s)" using inv by (rule abs_fifo_prune)
  have fst: "fst ` set (abs_fifo t) = set (order t)" for t by (force simp: abs_fifo_def)
  have len: "length (abs_fifo t) = length (order t)" for t by (simp add: abs_fifo_def)
  show ?thesis
  proof (cases "c \<in> set (order ?p)")
    case True
    then have "expires ?p c \<noteq> None" using held_iff_order [OF p] by blast
    moreover have "fifo_add (ttl s) (limit s) now c (abs_fifo s) = abs_fifo ?p"
      using True fst [of ?p] by (simp add: fifo_add_def Let_def flip: ap)
    ultimately show ?thesis using p by (simp add: add_def Let_def)
  next
    case False
    then have none: "expires ?p c = None" using held_iff_order [OF p] by blast
    have pos: "1 \<le> limit ?p" using p by (simp add: set_inv_def)
    obtain s2 where s2: "(if int (length (order ?p)) \<ge> limit ?p then popOldest ?p else Some ?p) = Some s2"
      and i2: "set_inv now s2" and o2: "order s2 = (if int (length (order ?p)) \<ge> limit ?p then tl (order ?p) else order ?p)"
      and f2: "ttl s2 = ttl s" "limit s2 = limit s" "onResize s2 = onResize s"
      and e2: "\<forall>x \<in> set (order s2). expiry_of s2 x = expiry_of ?p x"
    proof (cases "int (length (order ?p)) \<ge> limit ?p")
      case True
      then have "order ?p \<noteq> []" using pos by (intro notI) simp
      from popOldest_inv [OF p this] that True show ?thesis by auto
    next
      case False
      then show ?thesis using that [of ?p] p by simp
    qed
    have a2: "abs_fifo s2 = (if int (length (abs_fifo ?p)) \<ge> limit s then tl (abs_fifo ?p) else abs_fifo ?p)"
      unfolding len using e2 o2 by (auto simp: abs_fifo_def simp flip: map_tl)
    have c2: "c \<notin> set (order s2)"
      using False o2 by (auto dest!: in_set_tlD split: if_splits)
    have l2: "int (length (order s2)) < limit s2"
      using p pos f2 o2 by (auto simp: set_inv_def)
    note app = set_inv_append [OF i2 c2 l2]
    have "fifo_add (ttl s) (limit s) now c (abs_fifo s) = abs_fifo s2 @ [(c, now + ttl s2)]"
      using False fst [of ?p] f2 a2 by (simp add: fifo_add_def Let_def flip: ap)
    with app s2 none f2 show ?thesis
      by (simp add: add_def Let_def)
  qed
qed

lemma contains_refines_fifo:
  assumes "set_inv t0 s" and "t0 \<le> now" and "contains now c s = (s', held, r)"
  shows "set_inv now s'" "abs_fifo s' = fifo_live now (abs_fifo s)"
    "held \<longleftrightarrow> c \<in> set (map fst (fifo_live now (abs_fifo s)))"
    "ttl s' = ttl s" "limit s' = limit s" "onResize s' = onResize s"
proof -
  have s': "s' = pruneExpired now s" and h: "held \<longleftrightarrow> expires (pruneExpired now s) c \<noteq> None"
    using assms(3) by (auto simp: contains_def Let_def)
  show inv: "set_inv now s'" using assms s' by (auto intro: set_inv_prune)
  show abs: "abs_fifo s' = fifo_live now (abs_fifo s)" using assms(1) s' by (auto intro: abs_fifo_prune)
  have "map fst (abs_fifo s') = order s'" by (simp add: abs_fifo_def comp_def)
  with h inv s' abs show "held \<longleftrightarrow> c \<in> set (map fst (fifo_live now (abs_fifo s)))"
    using held_iff_order [OF inv] by metis
qed (use assms in \<open>auto simp: contains_def Let_def\<close>)

subsection \<open>The interface the worker relies on\<close>

text \<open>
  A memory with a lifetime: \<open>put\<close> at a clock reading, \<open>has\<close> at a clock reading, and
  \<open>window\<close>, the expiry of each remembered key. A run is a sequence of calls with their
  clock readings.
\<close>

datatype 'c mem_op = Put 'c | Has 'c

fun run_mem ::
  "(int \<Rightarrow> 'c \<Rightarrow> 's \<Rightarrow> 's option) \<Rightarrow> (int \<Rightarrow> 'c \<Rightarrow> 's \<Rightarrow> 's \<times> bool) \<Rightarrow> (int \<times> 'c mem_op) list \<Rightarrow> 's \<Rightarrow> 's option" where
  "run_mem put has [] s = Some s"
| "run_mem put has ((t, Put c) # ops) s = (case put t c s of None \<Rightarrow> None | Some s' \<Rightarrow> run_mem put has ops s')"
| "run_mem put has ((t, Has c) # ops) s = run_mem put has ops (fst (has t c s))"

locale expiring_memory =
  fixes inv :: "int \<Rightarrow> 's \<Rightarrow> bool"
    and window :: "'s \<Rightarrow> 'c \<Rightarrow> int option"
    and life :: "'s \<Rightarrow> int"
    and put :: "int \<Rightarrow> 'c \<Rightarrow> 's \<Rightarrow> 's option"
    and has :: "int \<Rightarrow> 'c \<Rightarrow> 's \<Rightarrow> 's \<times> bool"
  assumes put_ok: "inv t0 s \<Longrightarrow> t0 \<le> t \<Longrightarrow> \<exists>s'. put t c s = Some s' \<and> inv t s' \<and> life s' = life s"
    and put_window: "inv t0 s \<Longrightarrow> t0 \<le> t \<Longrightarrow> put t c s = Some s' \<Longrightarrow> window s' c' = Some e \<Longrightarrow>
          window s c' = Some e \<or> (c' = c \<and> e = t + life s)"
    and has_ok: "inv t0 s \<Longrightarrow> t0 \<le> t \<Longrightarrow> inv t (fst (has t c s)) \<and> life (fst (has t c s)) = life s"
    and has_window: "inv t0 s \<Longrightarrow> t0 \<le> t \<Longrightarrow> window (fst (has t c s)) c' = Some e \<Longrightarrow> window s c' = Some e"
    and has_iff: "inv t0 s \<Longrightarrow> t0 \<le> t \<Longrightarrow> snd (has t c s) \<longleftrightarrow> (\<exists>e. window s c = Some e \<and> t < e)"
begin

lemma step_total:
  assumes "inv t0 s" and "t0 \<le> t"
  shows "\<exists>s'. run_mem put has [(t, op)] s = Some s' \<and> inv t s' \<and> life s' = life s \<and>
    (\<forall>ops. run_mem put has ((t, op) # ops) s = run_mem put has ops s')"
proof (cases op)
  case (Put c)
  with put_ok [OF assms, of c] show ?thesis by auto
next
  case (Has c)
  with has_ok [OF assms, of c] show ?thesis by auto
qed

lemma step_window:
  assumes "inv t0 s" and "t0 \<le> t" and "run_mem put has [(t, op)] s = Some s'" and "window s' c = Some e"
  shows "window s c = Some e \<or> (op = Put c \<and> e = t + life s)"
proof (cases op)
  case (Put d)
  with put_window [OF assms(1,2), of d s' c e] assms(3,4) show ?thesis
    by (auto split: option.splits)
next
  case (Has d)
  with has_window [OF assms(1,2), of d c e] assms(3,4) show ?thesis by simp
qed

lemma run_total:
  "inv t0 s \<Longrightarrow> sorted (t0 # map fst ops) \<Longrightarrow>
     \<exists>s'. run_mem put has ops s = Some s' \<and> inv (last (t0 # map fst ops)) s' \<and> life s' = life s"
proof (induction ops arbitrary: s t0)
  case (Cons x ops)
  obtain t op where x: "x = (t, op)" by fastforce
  with Cons.prems obtain s' where s': "inv t s'" "life s' = life s"
    "run_mem put has (x # ops) s = run_mem put has ops s'"
    using step_total [of t0 s t op] by auto
  have "sorted (t # map fst ops)" using Cons.prems(2) x by simp
  from Cons.IH [OF s'(1) this] s' x show ?case by (auto split: if_splits)
qed simp

lemma run_window:
  "inv t0 s \<Longrightarrow> sorted (t0 # map fst ops) \<Longrightarrow> run_mem put has ops s = Some s' \<Longrightarrow>
     window s' c = Some e \<Longrightarrow> window s c = Some e \<or> (\<exists>t. (t, Put c) \<in> set ops \<and> e = t + life s)"
proof (induction ops arbitrary: s t0)
  case (Cons x ops)
  obtain t op where x: "x = (t, op)" by fastforce
  with Cons.prems obtain s1 where s1: "run_mem put has [(t, op)] s = Some s1" "inv t s1" "life s1 = life s"
    "run_mem put has (x # ops) s = run_mem put has ops s1"
    using step_total [of t0 s t op] by auto
  have "window s1 c = Some e \<or> (\<exists>t. (t, Put c) \<in> set ops \<and> e = t + life s)"
    using Cons.IH [OF s1(2)] Cons.prems x s1 by auto
  then show ?case
    using step_window [OF Cons.prems(1) _ s1(1)] Cons.prems(2) x by auto
qed simp

lemma run_has:
  assumes "inv t0 s" and "sorted (t0 # map fst ops)" and "run_mem put has ops s = Some s'"
    and "last (t0 # map fst ops) \<le> now" and "snd (has now c s')"
  shows "(\<exists>e. window s c = Some e \<and> now < e) \<or> (\<exists>t. (t, Put c) \<in> set ops \<and> now < t + life s)"
proof -
  from run_total [OF assms(1,2)] assms(3) have "inv (last (t0 # map fst ops)) s'" by auto
  from has_iff [OF this assms(4)] assms(5) obtain e where "window s' c = Some e" "now < e" by blast
  with run_window [OF assms(1,2,3)] show ?thesis by blast
qed

end

definition put_abandoned :: "int \<Rightarrow> AbandonedCollection \<Rightarrow> abandonedSet \<Rightarrow> abandonedSet option" where
  "put_abandoned t c s = map_option fst (add t c s)"

definition has_abandoned :: "int \<Rightarrow> AbandonedCollection \<Rightarrow> abandonedSet \<Rightarrow> abandonedSet \<times> bool" where
  "has_abandoned t c s = (fst (contains t c s), fst (snd (contains t c s)))"

lemma expires_abs_fifo: "set_inv t0 s \<Longrightarrow> expires s c = Some e \<longleftrightarrow> (c, e) \<in> set (abs_fifo s)"
  using set_inv_expires [of t0 s c] set_inv_none [of t0 s c]
  by (cases "c \<in> set (order s)") (auto simp: abs_fifo_def)

lemma add_expires:
  assumes "set_inv t0 s" "t0 \<le> t" "add t c s = Some (s', n, r)" "expires s' c' = Some e"
  shows "expires s c' = Some e \<or> (c' = c \<and> e = t + ttl s)"
proof -
  from add_refines_fifo [OF assms(1,2), of c] assms(3)
  have i: "set_inv t s'" and a: "abs_fifo s' = fifo_add (ttl s) (limit s) t c (abs_fifo s)" by auto
  have "(c', e) \<in> set (fifo_add (ttl s) (limit s) t c (abs_fifo s))"
    using assms(4) by (simp add: expires_abs_fifo [OF i] a)
  then have "(c', e) \<in> set (abs_fifo s) \<or> (c' = c \<and> e = t + ttl s)"
    by (auto simp: fifo_add_def fifo_live_def Let_def split: if_splits dest!: in_set_tlD)
  then show ?thesis by (simp add: expires_abs_fifo [OF assms(1)])
qed

interpretation abandoned_memory: expiring_memory set_inv expires ttl put_abandoned has_abandoned
proof unfold_locales
  fix t0 t :: int and s s' c c' e
  assume inv: "set_inv t0 s" and le: "t0 \<le> t"
  show "\<exists>s'. put_abandoned t c s = Some s' \<and> set_inv t s' \<and> ttl s' = ttl s"
    using add_refines_fifo [OF inv le, of c] by (auto simp: put_abandoned_def)
  show "expires s c' = Some e \<or> (c' = c \<and> e = t + ttl s)"
    if "put_abandoned t c s = Some s'" and "expires s' c' = Some e"
    using that add_expires [OF inv le, of c s' _ _ c' e] by (auto simp: put_abandoned_def)
  show "set_inv t (fst (has_abandoned t c s)) \<and> ttl (fst (has_abandoned t c s)) = ttl s"
    using set_inv_prune [OF inv le] by (simp add: has_abandoned_def contains_def Let_def)
  show "expires s c' = Some e" if "expires (fst (has_abandoned t c s)) c' = Some e"
    using that pruneExpired_expires_iff [OF inv] by (simp add: has_abandoned_def contains_def Let_def)
  show "snd (has_abandoned t c s) \<longleftrightarrow> (\<exists>e. expires s c = Some e \<and> t < e)"
    using pruneExpired_expires_iff [OF inv, of t c]
    by (auto simp: has_abandoned_def contains_def Let_def)
qed

subsection \<open>How long an entry is remembered\<close>

fun is_put :: "int \<times> 'c mem_op \<Rightarrow> bool" where
  "is_put (t, Put c) = True"
| "is_put (t, Has c) = False"

lemma fifo_live_keeps:
  assumes "now < e"
  shows "\<exists>xs' ys'. fifo_live now (xs @ (c, e) # ys) = xs' @ (c, e) # ys' \<and> length ys' \<le> length ys"
proof -
  have "fifo_live now (xs @ (c, e) # ys) = fifo_live now xs @ (c, e) # fifo_live now ys"
    using assms by (simp add: fifo_live_def)
  then show ?thesis by (metis fifo_live_def length_filter_le)
qed

lemma fifo_add_keeps:
  assumes "now < e" and "int (length ys) + 1 < n"
  shows "\<exists>xs' ys'. fifo_add d n now c' (xs @ (c, e) # ys) = xs' @ (c, e) # ys' \<and> length ys' \<le> length ys + 1"
proof -
  let ?q = "fifo_live now (xs @ (c, e) # ys)"
  from fifo_live_keeps [OF assms(1)] obtain xs1 ys1 where
    q: "?q = xs1 @ (c, e) # ys1" and l: "length ys1 \<le> length ys" by metis
  consider "c' \<in> set (map fst ?q)" | "c' \<notin> set (map fst ?q)" "int (length ?q) \<ge> n"
    | "c' \<notin> set (map fst ?q)" "\<not> int (length ?q) \<ge> n" by blast
  then show ?thesis
  proof cases
    case 1
    then have "fifo_add d n now c' (xs @ (c, e) # ys) = xs1 @ (c, e) # ys1"
      unfolding q [symmetric] by (simp only: fifo_add_def Let_def if_True)
    with l show ?thesis by (metis le_add1 le_trans)
  next
    case 2
    then have "xs1 \<noteq> []" using q l assms(2) by (intro notI) simp
    then have "fifo_add d n now c' (xs @ (c, e) # ys) = tl xs1 @ (c, e) # (ys1 @ [(c', now + d)])"
      using 2 q by (simp add: fifo_add_def Let_def image_Un)
    with l show ?thesis by (metis add_le_cancel_right length_append_singleton Suc_eq_plus1)
  next
    case 3
    then have "fifo_add d n now c' (xs @ (c, e) # ys) = xs1 @ (c, e) # (ys1 @ [(c', now + d)])"
      using q by (simp add: fifo_add_def Let_def image_Un)
    with l show ?thesis by (metis add_le_cancel_right length_append_singleton Suc_eq_plus1)
  qed
qed

lemma step_keeps:
  assumes inv: "set_inv t0 s" and le: "t0 \<le> t" and "t < e" and q: "abs_fifo s = xs @ (c, e) # ys"
    and n: "int (length ys) + (if is_put (t, op) then 1 else 0) < limit s"
  shows "\<exists>s' xs' ys'. run_mem put_abandoned has_abandoned [(t, op)] s = Some s' \<and> set_inv t s' \<and>
    limit s' = limit s \<and> abs_fifo s' = xs' @ (c, e) # ys' \<and> length ys' \<le> length ys + (if is_put (t, op) then 1 else 0)"
proof (cases op)
  case (Put d)
  with add_refines_fifo [OF inv le, of d] obtain s' r where
    "add t d s = Some (s', length (order s'), r)" "set_inv t s'" "limit s' = limit s"
    "abs_fifo s' = fifo_add (ttl s) (limit s) t d (xs @ (c, e) # ys)" by (auto simp: q)
  moreover have "\<exists>xs' ys'. fifo_add (ttl s) (limit s) t d (xs @ (c, e) # ys) = xs' @ (c, e) # ys' \<and> length ys' \<le> length ys + 1"
    using Put n by (intro fifo_add_keeps assms(3)) simp
  ultimately show ?thesis using Put by (auto simp: put_abandoned_def)
next
  case (Has d)
  have "set_inv t (pruneExpired t s)" by (rule set_inv_prune [OF inv le])
  moreover have "\<exists>xs' ys'. abs_fifo (pruneExpired t s) = xs' @ (c, e) # ys' \<and> length ys' \<le> length ys"
    unfolding abs_fifo_prune [OF inv] q by (rule fifo_live_keeps [OF assms(3)])
  ultimately show ?thesis using Has by (auto simp: has_abandoned_def contains_def Let_def)
qed

lemma run_keeps:
  "set_inv t0 s \<Longrightarrow> sorted (t0 # map fst ops) \<Longrightarrow> \<forall>t \<in> set (map fst ops). t < e \<Longrightarrow>
     abs_fifo s = xs @ (c, e) # ys \<Longrightarrow> int (length ys + length (filter is_put ops)) < limit s \<Longrightarrow>
     \<exists>s'. run_mem put_abandoned has_abandoned ops s = Some s' \<and> set_inv (last (t0 # map fst ops)) s' \<and>
       (c, e) \<in> set (abs_fifo s')"
proof (induction ops arbitrary: t0 s xs ys)
  case (Cons x ops)
  obtain t op where x: "x = (t, op)" by fastforce
  have "t0 \<le> t" "t < e" "sorted (t # map fst ops)" "\<forall>t \<in> set (map fst ops). t < e"
    using Cons.prems x by auto
  note facts = this
  have "int (length ys) + (if is_put (t, op) then 1 else 0) < limit s"
    using Cons.prems(5) x by auto
  from step_keeps [OF Cons.prems(1) facts(1,2) Cons.prems(4) this] obtain s1 xs1 ys1 where
    s1: "run_mem put_abandoned has_abandoned [(t, op)] s = Some s1" "set_inv t s1" "limit s1 = limit s"
      "abs_fifo s1 = xs1 @ (c, e) # ys1" "length ys1 \<le> length ys + (if is_put (t, op) then 1 else 0)"
    by blast
  have "int (length ys1 + length (filter is_put ops)) < limit s1"
    using Cons.prems(5) s1 x by (auto split: if_splits)
  from Cons.IH [OF s1(2) facts(3,4) s1(4) this] obtain s2 where
    s2: "run_mem put_abandoned has_abandoned ops s1 = Some s2" "set_inv (last (t # map fst ops)) s2" "(c, e) \<in> set (abs_fifo s2)"
    by blast
  moreover have "run_mem put_abandoned has_abandoned (x # ops) s = run_mem put_abandoned has_abandoned ops s1"
    using s1(1) x by (cases op) (auto split: option.splits)
  ultimately show ?case using x by auto
qed auto

subsection \<open>The worker as a transition system\<close>

definition announces :: "(string \<Rightarrow> string option) \<Rightarrow> bus_message \<Rightarrow> AbandonedCollection \<Rightarrow> bool" where
  "announces up msg c \<longleftrightarrow>
     AbandonedSubject up c = Inr (Subject msg) \<and> provenance_TenantID msg = TenantID c \<and> msg_Data msg = []"

text \<open>
  \<open>worker_reach up d t h w\<close>: after handling the control messages \<open>h\<close>, interleaved with any
  task deliveries, the worker is in state \<open>w\<close> and its clock was last read at \<open>t\<close>.
\<close>

inductive worker_reach ::
  "(string \<Rightarrow> string option) \<Rightarrow> int \<Rightarrow> int \<Rightarrow> (int \<times> bus_message) list \<Rightarrow> worker \<Rightarrow> bool"
  for up :: "string \<Rightarrow> string option" and d :: int where
  reach_start: "1 \<le> n \<Longrightarrow> worker_reach up d t [] \<lparr>abandoned = newAbandonedSet d n cb, dropped = 0, rejected = 0\<rparr>"
| reach_control: "worker_reach up d t h w \<Longrightarrow> t \<le> now \<Longrightarrow> handleAbandoned up now msg w = Some w' \<Longrightarrow>
    worker_reach up d now ((now, msg) # h) w'"
| reach_task: "worker_reach up d t h w \<Longrightarrow> t \<le> now \<Longrightarrow> dropAbandoned now tn ty j cid w = (w', b) \<Longrightarrow>
    worker_reach up d now h w'"

lemma handleAbandoned_cases:
  assumes "handleAbandoned up now msg w = Some w'"
  obtains (rejected) "abandoned w' = abandoned w"
  | (added) c n r where "announces up msg c" "add now c (abandoned w) = Some (abandoned w', n, r)"
  using assms
  by (auto simp: handleAbandoned_def rejectControl_def announces_def ParseAbandonedSubject_Inr_iff
      split: sum.splits if_splits)

lemma dropAbandoned_set:
  "dropAbandoned now tn ty j cid w = (w', b) \<Longrightarrow>
     abandoned w' = abandoned w \<or> abandoned w' = pruneExpired now (abandoned w)"
  by (auto simp: dropAbandoned_def contains_def Let_def split: if_splits)

lemma set_inv_later: "set_inv t s \<Longrightarrow> t \<le> now \<Longrightarrow> set_inv now s"
  unfolding set_inv_def by fastforce

lemma worker_reach_inv:
  "worker_reach up d t h w \<Longrightarrow>
     set_inv t (abandoned w) \<and> ttl (abandoned w) = d \<and>
     (\<forall>c e. expires (abandoned w) c = Some e \<longrightarrow> (\<exists>t0 msg. (t0, msg) \<in> set h \<and> announces up msg c \<and> e = t0 + d))"
proof (induction rule: worker_reach.induct)
  case (reach_start n t cb)
  then show ?case by (simp add: set_inv_new) (simp add: newAbandonedSet_def)
next
  case (reach_control t h w now msg w')
  from reach_control.hyps(3) show ?case
  proof (cases rule: handleAbandoned_cases)
    case rejected
    with reach_control show ?thesis by (fastforce intro: set_inv_later)
  next
    case (added c n r)
    with add_refines_fifo [of t "abandoned w" now c] reach_control
    have "set_inv now (abandoned w')" "ttl (abandoned w') = d" by auto
    moreover have "expires (abandoned w) c' = Some e \<or> (c' = c \<and> e = now + d)"
      if "expires (abandoned w') c' = Some e" for c' e
      using add_expires [OF _ _ added(2) that] reach_control by auto
    ultimately show ?thesis using reach_control added(1) by fastforce
  qed
next
  case (reach_task t h w now tn ty j cid w' b)
  from dropAbandoned_set [OF reach_task.hyps(3)] show ?case
    using reach_task pruneExpired_expires_iff [of t "abandoned w" now]
    by (auto intro: set_inv_prune set_inv_later)
qed

lemma run_limit:
  "set_inv t0 s \<Longrightarrow> sorted (t0 # map fst ops) \<Longrightarrow> run_mem put_abandoned has_abandoned ops s = Some s' \<Longrightarrow>
     limit s' = limit s"
proof (induction ops arbitrary: s t0)
  case (Cons x ops)
  obtain t op where x: "x = (t, op)" by fastforce
  have le: "t0 \<le> t" using Cons.prems(2) x by simp
  from abandoned_memory.step_total [OF Cons.prems(1) le, of op] obtain s1 where
    s1: "run_mem put_abandoned has_abandoned [(t, op)] s = Some s1" "set_inv t s1"
      "run_mem put_abandoned has_abandoned ((t, op) # ops) s = run_mem put_abandoned has_abandoned ops s1"
    by blast
  have "limit s1 = limit s"
  proof (cases op)
    case (Put c)
    with s1(1) add_refines_fifo [OF Cons.prems(1) le, of c] show ?thesis
      by (auto simp: put_abandoned_def)
  next
    case (Has c)
    with s1(1) show ?thesis by (auto simp: has_abandoned_def contains_def Let_def)
  qed
  moreover have "limit s' = limit s1"
    using Cons.IH [OF s1(2)] Cons.prems x s1(3) by simp
  ultimately show ?case by simp
qed simp

subsection \<open>Properties\<close>

text \<open>
  C3. Refinement: on a set that satisfies its invariant, \<^verbatim>\<open>add\<close> returns without panicking,
  keeps the invariant, returns the new size, and does to the pair of map and queue exactly
  what the specification \<open>fifo_add\<close> does to one bounded list of pairs.
\<close>

theorem abandoned_add_refines:
  assumes "set_inv t0 s" and "t0 \<le> now"
  shows "\<exists>s' r. add now c s = Some (s', length (order s'), r) \<and> set_inv now s' \<and>
           abs_fifo s' = fifo_add (ttl s) (limit s) now c (abs_fifo s)"
  using add_refines_fifo [OF assms] by blast

definition example_collection :: AbandonedCollection where
  "example_collection = \<lparr>TenantID = ''acme'', TaskType = ''embed'', JobID = ''j1'', CollectionID = ''k''\<rparr>"

theorem abandoned_add_refines_witness:
  "set_inv 0 (newAbandonedSet 10 1 False) \<and>
   (\<exists>s' r. add 5 example_collection (newAbandonedSet 10 1 False) = Some (s', length (order s'), r) \<and> set_inv 5 s' \<and>
      abs_fifo s' = fifo_add 10 1 5 example_collection [])"
proof -
  have i: "set_inv 0 (newAbandonedSet 10 1 False)" by (simp add: set_inv_new)
  show ?thesis
    using i abandoned_add_refines [OF i, of 5 example_collection]
    by (simp add: newAbandonedSet_def abs_fifo_def)
qed

text \<open>
  C4. A new set with a positive limit survives any sequence of \<^verbatim>\<open>add\<close> and \<^verbatim>\<open>contains\<close> calls
  whose clock readings never go back: no call panics, the queue stays duplicate-free, in
  expiry order and never longer than the limit.
\<close>

theorem abandoned_run_safe:
  assumes "1 \<le> n" and "sorted (t0 # map fst ops)"
  shows "\<exists>s. run_mem put_abandoned has_abandoned ops (newAbandonedSet d n cb) = Some s \<and>
           distinct (order s) \<and> sorted (map (expiry_of s) (order s)) \<and> int (len_set s) \<le> n"
proof -
  have i: "set_inv t0 (newAbandonedSet d n cb)" using assms(1) by (rule set_inv_new)
  from abandoned_memory.run_total [OF i assms(2)] obtain s where
    s: "run_mem put_abandoned has_abandoned ops (newAbandonedSet d n cb) = Some s" "set_inv (last (t0 # map fst ops)) s"
    by blast
  have "limit s = n" using run_limit [OF i assms(2) s(1)] by (simp add: newAbandonedSet_def)
  with s show ?thesis by (auto simp: set_inv_def len_set_def)
qed

theorem abandoned_run_safe_witness:
  "\<exists>s. run_mem put_abandoned has_abandoned [(1, Put example_collection), (2, Has example_collection)]
         (newAbandonedSet 10 1 True) = Some s \<and>
       distinct (order s) \<and> sorted (map (expiry_of s) (order s)) \<and> int (len_set s) \<le> 1"
  using abandoned_run_safe [of 1 0 "[(1, Put example_collection), (2, Has example_collection)]" 10 True] by simp

text \<open>
  C5. A worker never drops a task that nobody abandoned: if a reachable worker drops a task,
  then a control message for exactly that tenant, task type, job and collection was handled
  less than one TTL ago, its provenance tenant matched and it had no payload.
\<close>

theorem drop_only_announced:
  assumes "worker_reach up d t h w" and "t \<le> now" and "dropAbandoned now tn ty j cid w = (w', True)"
  shows "\<exists>t0 msg. (t0, msg) \<in> set h \<and> now < t0 + d \<and>
           announces up msg \<lparr>TenantID = tn, TaskType = ty, JobID = j, CollectionID = cid\<rparr>"
proof -
  let ?c = "\<lparr>TenantID = tn, TaskType = ty, JobID = j, CollectionID = cid\<rparr>"
  from worker_reach_inv [OF assms(1)] have i: "set_inv t (abandoned w)" by blast
  from assms(3) have "snd (has_abandoned now ?c (abandoned w))"
    by (auto simp: dropAbandoned_def has_abandoned_def Let_def split: if_splits prod.splits)
  with abandoned_memory.has_iff [OF i assms(2)] obtain e where "expires (abandoned w) ?c = Some e" "now < e" by blast
  with worker_reach_inv [OF assms(1)] show ?thesis by blast
qed

definition example_msg :: bus_message where
  "example_msg = \<lparr>Subject = ''crosscodex.control.acme.embed.j1.k.abandoned'', msg_Data = [], provenance_TenantID = ''acme''\<rparr>"

definition example_worker :: worker where
  "example_worker = \<lparr>abandoned = newAbandonedSet 10 1 False, dropped = 0, rejected = 0\<rparr>"

theorem drop_only_announced_witness:
  "\<exists>w w'. worker_reach Some 10 5 [(5, example_msg)] w \<and> dropAbandoned 6 ''acme'' ''embed'' ''j1'' ''k'' w = (w', True) \<and>
     (\<exists>t0 msg. (t0, msg) \<in> set [(5::int, example_msg)] \<and> 6 < t0 + 10 \<and> announces Some msg example_collection)"
proof -
  have r0: "worker_reach Some 10 0 [] example_worker"
    unfolding example_worker_def by (rule reach_start) simp
  have p: "ParseAbandonedSubject Some (Subject example_msg) = Inr example_collection"
    by code_simp
  define w where "w = example_worker\<lparr>abandoned := (newAbandonedSet 10 1 False)
    \<lparr>expires := [example_collection \<mapsto> 15], order := [example_collection]\<rparr>\<rparr>"
  have "handleAbandoned Some 5 example_msg example_worker = Some w"
    by (simp add: handleAbandoned_def p w_def) (simp add: example_msg_def example_collection_def example_worker_def
      add_def newAbandonedSet_def pruneExpired.simps Let_def)
  then have r: "worker_reach Some 10 5 [(5, example_msg)] w"
    using reach_control [OF r0, of 5 example_msg w] by simp
  have "snd (dropAbandoned 6 ''acme'' ''embed'' ''j1'' ''k'' w)"
    by (simp add: dropAbandoned_def w_def example_worker_def contains_def newAbandonedSet_def
      pruneExpired.simps expiry_of_def example_collection_def Let_def)
  then obtain w' where d: "dropAbandoned 6 ''acme'' ''embed'' ''j1'' ''k'' w = (w', True)"
    by (metis prod.collapse)
  show ?thesis
    using r d drop_only_announced [OF r _ d] by (auto simp: example_collection_def)
qed

text \<open>
  C6. An abandon takes effect until it expires: after a fresh \<^verbatim>\<open>add\<close> of a collection at time
  \<open>t\<close>, however many \<^verbatim>\<open>contains\<close> calls and fewer than \<open>limit\<close> further \<^verbatim>\<open>add\<close> calls follow, the
  set still answers that it holds the collection at every instant before \<open>t + ttl\<close>.
\<close>

theorem remembered_until_expiry:
  assumes "set_inv t0 s" and "t0 \<le> t" and "expires (pruneExpired t s) c = None"
    and "put_abandoned t c s = Some s1" and "sorted (t # map fst ops @ [now])"
    and "now < t + ttl s" and "int (length (filter is_put ops)) < limit s"
  shows "\<exists>s2. run_mem put_abandoned has_abandoned ops s1 = Some s2 \<and> snd (has_abandoned now c s2)"
proof -
  from add_refines_fifo [OF assms(1,2), of c] assms(4) have
    i1: "set_inv t s1" and l1: "limit s1 = limit s" and a1: "abs_fifo s1 = fifo_add (ttl s) (limit s) t c (abs_fifo s)"
    by (auto simp: put_abandoned_def)
  have "c \<notin> set (order (pruneExpired t s))"
    using assms(3) held_iff_order [OF set_inv_prune [OF assms(1,2)]] by blast
  then have "c \<notin> fst ` set (fifo_live t (abs_fifo s))"
    unfolding abs_fifo_prune [OF assms(1), symmetric] by (auto simp: abs_fifo_def)
  then obtain xs where q: "abs_fifo s1 = xs @ (c, t + ttl s) # []"
    by (simp add: a1 fifo_add_def Let_def)
  have srt: "sorted (t # map fst ops)" and bd: "\<forall>u \<in> set (t # map fst ops). u \<le> now"
    using assms(5) by (auto simp: sorted_append)
  then have le: "last (t # map fst ops) \<le> now" and all: "\<forall>u \<in> set (map fst ops). u < t + ttl s"
    using assms(6) last_in_set [of "t # map fst ops"] by auto
  from run_keeps [OF i1 srt all q] assms(7) l1 obtain s2 where
    s2: "run_mem put_abandoned has_abandoned ops s1 = Some s2" "set_inv (last (t # map fst ops)) s2"
      "(c, t + ttl s) \<in> set (abs_fifo s2)" by auto
  from s2(3) have "expires s2 c = Some (t + ttl s)" by (simp only: expires_abs_fifo [OF s2(2)])
  then have "snd (has_abandoned now c s2)"
    using abandoned_memory.has_iff [OF s2(2) le] assms(6) by blast
  with s2(1) show ?thesis by blast
qed

theorem remembered_until_expiry_witness:
  "\<exists>s1 s2. put_abandoned 5 example_collection (newAbandonedSet 10 2 False) = Some s1 \<and>
     run_mem put_abandoned has_abandoned [(6, Put (example_collection\<lparr>CollectionID := ''m''\<rparr>))] s1 = Some s2 \<and>
     snd (has_abandoned 14 example_collection s2)"
proof -
  have i: "set_inv 0 (newAbandonedSet 10 2 False)" by (simp add: set_inv_new)
  from abandoned_memory.put_ok [OF i, of 5 example_collection] obtain s1 where
    s1: "put_abandoned 5 example_collection (newAbandonedSet 10 2 False) = Some s1" by auto
  have "expires (pruneExpired 5 (newAbandonedSet 10 2 False)) example_collection = None"
    by (simp add: newAbandonedSet_def pruneExpired.simps)
  from remembered_until_expiry [OF i _ this s1, of "[(6, Put (example_collection\<lparr>CollectionID := ''m''\<rparr>))]" 14] s1
  show ?thesis by (simp add: newAbandonedSet_def)
qed

end
