(* ===== verification/Fuzzy_Match.thy ===== *)
theory Fuzzy_Match
  imports Go_Prelude
begin

text \<open>
  Fuzzy matching of artifact names (\<^verbatim>\<open>src/internal/analyzer/fuzzy.go\<close>), for ASCII names: on
  other text Go's \<^verbatim>\<open>ToLower\<close> and \<^verbatim>\<open>TrimSpace\<close> also act on Unicode letters and spaces, which is
  not modelled. The overlap ratio is exact.
\<close>

subsection \<open>String helpers of the standard library\<close>

text \<open>The white space of \<^verbatim>\<open>strings.TrimSpace\<close> and \<^verbatim>\<open>strings.Fields\<close>: tab to carriage return, and blank.\<close>

definition is_space :: "char \<Rightarrow> bool" where
  "is_space c \<longleftrightarrow> (let n = of_char c :: nat in 9 \<le> n \<and> n \<le> 13 \<or> n = 32)"

text \<open>The class \<^verbatim>\<open>\s\<close> of Go's regular expressions has no vertical tab.\<close>

definition re_space :: "char \<Rightarrow> bool" where
  "re_space c \<longleftrightarrow> is_space c \<and> (of_char c :: nat) \<noteq> 11"

definition to_lower :: "char \<Rightarrow> char" where
  "to_lower c = (let n = of_char c :: nat in if 65 \<le> n \<and> n \<le> 90 then char_of (n + 32) else c)"

definition ToLower :: "string \<Rightarrow> string" where
  "ToLower s = map to_lower s"

definition trim_right :: "(char \<Rightarrow> bool) \<Rightarrow> string \<Rightarrow> string" where
  "trim_right P s = rev (dropWhile P (rev s))"

definition TrimSpace :: "string \<Rightarrow> string" where
  "TrimSpace s = trim_right is_space (dropWhile is_space s)"

function Fields :: "string \<Rightarrow> string list" where
  "Fields s =
     (case dropWhile is_space s of [] \<Rightarrow> []
      | c # cs \<Rightarrow> takeWhile (\<lambda>x. \<not> is_space x) (c # cs) # Fields (dropWhile (\<lambda>x. \<not> is_space x) (c # cs)))"
  by pat_completeness auto
termination
proof (relation "measure length", simp_all only: in_measure wf_measure)
  fix s c cs assume d: "dropWhile is_space s = c # cs"
  then have "\<not> is_space c" by (metis hd_dropWhile list.distinct(1) list.sel(1))
  then have "dropWhile (\<lambda>x. \<not> is_space x) (c # cs) = dropWhile (\<lambda>x. \<not> is_space x) cs" by simp
  moreover have "length (dropWhile (\<lambda>x. \<not> is_space x) cs) \<le> length cs" by (rule length_dropWhile_le)
  moreover have "length (c # cs) \<le> length s" unfolding d [symmetric] by (rule length_dropWhile_le)
  ultimately show "length (dropWhile (\<lambda>x. \<not> is_space x) (c # cs)) < length s" by simp
qed

declare Fields.simps [simp del]

subsection \<open>Normalisation\<close>

text \<open>\<^verbatim>\<open>^(?i)(the|a|an)\s+\<close> matches only at the start, on a name that is already in lower case.\<close>

definition strip_word :: "string \<Rightarrow> string \<Rightarrow> string option" where
  "strip_word w s =
     (if has_prefix s w then
        (case drop (length w) s of
           c # cs \<Rightarrow> if re_space c then Some (dropWhile re_space cs) else None
         | [] \<Rightarrow> None)
      else None)"

definition strip_article :: "string \<Rightarrow> string" where
  "strip_article s =
     (case strip_word ''the'' s of Some r \<Rightarrow> r
      | None \<Rightarrow> (case strip_word ''a'' s of Some r \<Rightarrow> r
         | None \<Rightarrow> (case strip_word ''an'' s of Some r \<Rightarrow> r | None \<Rightarrow> s)))"

text \<open>Each maximal run of \<^verbatim>\<open>\s\<close> becomes one blank; \<open>inrun\<close> tells that the last character was in a run.\<close>

fun collapse_space :: "bool \<Rightarrow> string \<Rightarrow> string" where
  "collapse_space inrun [] = []"
| "collapse_space inrun (c # cs) =
     (if re_space c then (if inrun then collapse_space True cs else CHR '' '' # collapse_space True cs)
      else c # collapse_space False cs)"

definition NormalizeArtifactName :: "string \<Rightarrow> string" where
  "NormalizeArtifactName name =
     (let n1 = ToLower (TrimSpace name);
          n2 = trim_right (\<lambda>c. c = CHR ''.'') n1;
          n3 = strip_article n2;
          n4 = collapse_space False n3;
          n5 = TrimSpace n4
      in if n5 = ''the'' \<or> n5 = ''a'' \<or> n5 = ''an'' then [] else n5)"

subsection \<open>Overlap of token sets\<close>

text \<open>The keys of the token map, each once.\<close>

definition tokenSet :: "string \<Rightarrow> string list" where
  "tokenSet s = remdups (Fields s)"

definition TokenOverlap :: "string \<Rightarrow> string \<Rightarrow> real" where
  "TokenOverlap a b =
     (let tokensA = tokenSet a; tokensB = tokenSet b
      in if tokensA = [] \<or> tokensB = [] then 0
         else real (length (filter (\<lambda>t. t \<in> set tokensB) tokensA)) / real (min (length tokensA) (length tokensB)))"

definition ArtifactNamesMatch :: "string \<Rightarrow> string \<Rightarrow> real \<Rightarrow> bool" where
  "ArtifactNamesMatch a b threshold =
     (if TrimSpace a = [] \<or> TrimSpace b = [] then False else threshold \<le> TokenOverlap a b)"

subsection \<open>Properties\<close>

definition tokens :: "string \<Rightarrow> string set" where
  "tokens s = set (Fields s)"

lemma tokenSet_facts [simp]: "distinct (tokenSet s)" "set (tokenSet s) = tokens s" "length (tokenSet s) = card (tokens s)"
  by (auto simp: tokenSet_def tokens_def length_remdups_card_conv)

lemma finite_tokens [simp]: "finite (tokens s)"
  by (simp add: tokens_def)

lemma tokenSet_empty [simp]: "tokenSet s = [] \<longleftrightarrow> tokens s = {}"
  by (simp add: tokenSet_def tokens_def)

lemma TokenOverlap_card:
  "TokenOverlap a b = (if tokens a = {} \<or> tokens b = {} then 0
     else real (card (tokens a \<inter> tokens b)) / real (min (card (tokens a)) (card (tokens b))))"
proof -
  have "length (filter (\<lambda>t. t \<in> tokens b) (tokenSet a)) = card (set (filter (\<lambda>t. t \<in> tokens b) (tokenSet a)))"
    by (subst distinct_card) simp_all
  also have "set (filter (\<lambda>t. t \<in> tokens b) (tokenSet a)) = tokens a \<inter> tokens b" by auto
  finally show ?thesis by (simp add: TokenOverlap_def)
qed

text \<open>
  The overlap ratio is a symmetric measure of the two token sets between zero and one,
  and it is one exactly when neither set is empty and one contains the other.
\<close>

lemma token_overlap_measure:
  "TokenOverlap a b = TokenOverlap b a \<and> 0 \<le> TokenOverlap a b \<and> TokenOverlap a b \<le> 1 \<and>
   (TokenOverlap a b = 1 \<longleftrightarrow>
      tokens a \<noteq> {} \<and> tokens b \<noteq> {} \<and> (tokens a \<subseteq> tokens b \<or> tokens b \<subseteq> tokens a))"
proof (cases "tokens a = {} \<or> tokens b = {}")
  case False
  let ?A = "tokens a" and ?B = "tokens b"
  let ?m = "min (card ?A) (card ?B)"
  have pos: "0 < ?m" using False by (simp add: card_gt_0_iff)
  have le: "card (?A \<inter> ?B) \<le> ?m" by (simp add: card_mono)
  have eq: "card (?A \<inter> ?B) = ?m \<longleftrightarrow> ?A \<subseteq> ?B \<or> ?B \<subseteq> ?A"
  proof
    assume e: "card (?A \<inter> ?B) = ?m"
    show "?A \<subseteq> ?B \<or> ?B \<subseteq> ?A"
    proof (cases "card ?A \<le> card ?B")
      case True
      with e have "?A \<inter> ?B = ?A" by (intro card_subset_eq) simp_all
      then show ?thesis by blast
    next
      case False
      with e have "?A \<inter> ?B = ?B" by (intro card_subset_eq) simp_all
      then show ?thesis by blast
    qed
  next
    assume "?A \<subseteq> ?B \<or> ?B \<subseteq> ?A"
    then show "card (?A \<inter> ?B) = ?m"
      using card_mono [of ?B ?A] card_mono [of ?A ?B] by (auto simp: Int_absorb1 Int_absorb2)
  qed
  have "real (card (?A \<inter> ?B)) / real ?m = 1 \<longleftrightarrow> card (?A \<inter> ?B) = ?m" using pos by (auto simp: field_simps)
  moreover have "real (card (?A \<inter> ?B)) / real ?m \<le> 1" using le pos by (simp add: field_simps)
  ultimately show ?thesis using False eq
    by (simp add: TokenOverlap_card Int_commute min.commute)
qed (auto simp: TokenOverlap_card)

end
