(* ===== verification/Task_Collector.thy ===== *)
theory Task_Collector
  imports Abandoned_Set Fuzzy_Match
begin

text \<open>
  One collection of task results: the dispatcher
  (\<^verbatim>\<open>src/internal/analysis/dispatcher.go\<close>), the two-phase collector
  (\<^verbatim>\<open>src/internal/analysis/collector.go\<close>), the release and abandon of its handle
  (\<^verbatim>\<open>src/internal/analysis/types.go\<close>) and the part of the engine that calls them in order
  (\<^verbatim>\<open>src/internal/analysis/engine.go\<close>).

  The goroutines of a collection are the result handler, one goroutine per scheduled retry,
  the monitor that closes \<^verbatim>\<open>doneChan\<close>, and the engine itself. An execution is a list of
  events, each one a step of one goroutine up to the next point where another can run: a
  lock, an unlock or a channel operation. An event that is not possible in a state, such as
  taking a held lock or sending on a full channel, is \<open>None\<close>. When a timer fires is up to
  the execution, so no theorem depends on a duration.

  The bus and the protobuf encoding are outside the source: whether a publish succeeds is
  part of the event, and the two conversions of payloads are parameters.
\<close>

subsection \<open>Tasks, results and messages\<close>

record 'p Task =
  tk_JobID :: string
  tk_TaskID :: string
  tk_TaskType :: string
  tk_Payload :: 'p
  tk_PreBuiltResult :: bool

datatype task_error = TaskOutputTruncated | TaskTimedOut | TaskInvalid | TaskFailed

datatype dispatch_error =
    DispatchNoTenant string
  | DispatchSubject string subject_error
  | DispatchMarshal string
  | DispatchPublish string string

datatype result_error =
    RetryExhausted task_error
  | RetryMissingTask
  | RedispatchFailed dispatch_error
  | NotRetried task_error

record 'p TaskResult =
  tr_TaskID :: string
  tr_TaskType :: string
  tr_Result :: "'p option"
  tr_Error :: "result_error option"

type_synonym headers = "(string \<times> string list) list"

record result_message =
  rm_Headers :: headers
  rm_Data :: string

definition headerTaskID :: string where "headerTaskID = ''X-Task-Id''"

definition headerTaskType :: string where "headerTaskType = ''X-Task-Type''"

definition headerJobID :: string where "headerJobID = ''X-Job-Id''"

definition headerRetryCount :: string where "headerRetryCount = ''X-Retry-Count''"

definition headerCollectionID :: string where "headerCollectionID = ''X-Collection-Id''"

definition ResultErrorOutputTruncated :: string where "ResultErrorOutputTruncated = ''output_truncated''"

definition getHeader :: "headers \<Rightarrow> string \<Rightarrow> string" where
  "getHeader hs key = (case map_of hs key of Some (v # _) \<Rightarrow> v | _ \<Rightarrow> [])"

definition sanitizeError :: "string \<Rightarrow> task_error" where
  "sanitizeError errorMsg =
     (if errorMsg = ResultErrorOutputTruncated then TaskOutputTruncated
      else let lower = ToLower errorMsg in
        if contains_str lower ''timeout'' \<or> contains_str lower ''deadline'' then TaskTimedOut
        else if contains_str lower ''invalid'' \<or> contains_str lower ''malformed'' then TaskInvalid
        else TaskFailed)"

subsection \<open>The dispatcher\<close>

text \<open>What the collection publishes: tasks, and the control message that abandons it.\<close>

datatype published =
    PubTask string string headers
  | PubAbandon string

text \<open>
  \<^verbatim>\<open>publishTask\<close> up to the publish, and what it makes of the outcome of the publish. The
  tenant is the one in the context, empty when there is none.
\<close>

definition task_message ::
    "('p \<Rightarrow> string option) \<Rightarrow> string \<Rightarrow> 'p Task \<Rightarrow> task_type \<Rightarrow> string \<Rightarrow> string \<Rightarrow> int \<Rightarrow> dispatch_error + published" where
  "task_message marshal tenantID task taskType jobID collectionID retryCount =
     (if tenantID = [] then Inl (DispatchNoTenant (tk_TaskID task))
      else case WorkSubject tenantID taskType jobID of
        Inl err \<Rightarrow> Inl (DispatchSubject (tk_TaskID task) err)
      | Inr subject \<Rightarrow>
          (case marshal (tk_Payload task) of
             None \<Rightarrow> Inl (DispatchMarshal (tk_TaskID task))
           | Some data \<Rightarrow>
               Inr (PubTask subject data
                 [(headerTaskID, [tk_TaskID task]), (headerTaskType, [taskType]), (headerJobID, [jobID]),
                  (headerRetryCount, [itoa retryCount]), (headerCollectionID, [collectionID])])))"

definition publishTask ::
    "('p \<Rightarrow> string option) \<Rightarrow> string \<Rightarrow> 'p Task \<Rightarrow> task_type \<Rightarrow> string \<Rightarrow> string \<Rightarrow> int \<Rightarrow> bool \<Rightarrow> dispatch_error + published" where
  "publishTask marshal tenantID task taskType jobID collectionID retryCount ok =
     (case task_message marshal tenantID task taskType jobID collectionID retryCount of
        Inl err \<Rightarrow> Inl err
      | Inr (PubTask subject data hs) \<Rightarrow>
          if ok then Inr (PubTask subject data hs) else Inl (DispatchPublish (tk_TaskID task) subject)
      | Inr (PubAbandon subject) \<Rightarrow> Inr (PubAbandon subject))"

subsection \<open>The state of a collection\<close>

record 'p CollectRequest =
  cr_TaskType :: task_type
  cr_JobID :: string
  cr_ExpectedIDs :: "string list"
  cr_Tasks :: "'p Task list"
  cr_StageTimeout :: int
  cr_MaxRetries :: int

text \<open>The fields of the handle that never change.\<close>

record 'p CollectionHandle =
  hd_Req :: "'p CollectRequest"
  hd_tenantID :: string
  hd_subject :: string
  hd_abandonSubject :: string
  hd_CollectionID :: string

text \<open>Who holds \<^verbatim>\<open>redispatchMu\<close>: nobody, or a retry whose publish failed, before and after it deletes its task.\<close>

datatype 'p holder = Unlocked | Failing "'p Task" dispatch_error | Reporting "'p TaskResult"

datatype await_error = DispatchFailed dispatch_error | ContextCancelled | ErrTaskTimeout | ErrStageTimeout

datatype 'p phase =
    is_Dispatching: Dispatching "'p Task list"
  | Collecting
  | Draining
  | Leaving "await_error option"
  | Closing await_error
  | Returned "await_error option"

text \<open>
  The shared state. \<open>c_sending\<close> is the result the handler is about to send while it holds
  \<^verbatim>\<open>mu\<close>, \<open>c_waiting\<close> the retries that wait for their backoff, \<open>c_log\<close> what was published.
\<close>

record 'p collection =
  c_pending :: "string set"
  c_retryCounts :: "string \<Rightarrow> int"
  c_sending :: "'p TaskResult option"
  c_resultChan :: "'p TaskResult list"
  c_waiting :: "('p Task \<times> int) list"
  c_redispatchMu :: "'p holder"
  c_released :: bool
  c_ctxDone :: bool
  c_doneChan :: bool
  c_phase :: "'p phase"
  c_results :: "'p TaskResult list"
  c_log :: "published list"

datatype prepare_error =
    PrepareNoTenant
  | ErrNoStageTimeout string int
  | PrepareSubject subject_error
  | PrepareAbandonSubject subject_error
  | PrepareSubscribe string
  | PrepareProgress

definition taskMap :: "'p CollectRequest \<Rightarrow> string \<Rightarrow> 'p Task option" where
  "taskMap req = fold (\<lambda>t m. m(tk_TaskID t \<mapsto> t)) (cr_Tasks req) Map.empty"

definition new_collection :: "'p CollectRequest \<Rightarrow> 'p collection" where
  "new_collection req =
     \<lparr>c_pending = set (cr_ExpectedIDs req), c_retryCounts = (\<lambda>_. 0), c_sending = None, c_resultChan = [], c_waiting = [],
      c_redispatchMu = Unlocked, c_released = False, c_ctxDone = False, c_doneChan = False,
      c_phase = Dispatching (cr_Tasks req), c_results = [], c_log = []\<rparr>"

text \<open>
  \<^verbatim>\<open>PrepareCollect\<close>: \<open>uuid_parse\<close> is the UUID library, \<open>uuid\<close> the fresh identifier it
  gave, the two booleans the outcomes of the subscriptions.
\<close>

definition PrepareCollect ::
    "(string \<Rightarrow> string option) \<Rightarrow> string \<Rightarrow> string \<Rightarrow> bool \<Rightarrow> bool \<Rightarrow> 'p CollectRequest
     \<Rightarrow> prepare_error + 'p CollectionHandle \<times> 'p collection" where
  "PrepareCollect uuid_parse uuid tenantID subscribed progress req =
     (if tenantID = [] then Inl PrepareNoTenant
      else if cr_StageTimeout req \<le> 0 then Inl (ErrNoStageTimeout (cr_JobID req) (cr_StageTimeout req))
      else case ResultSubject tenantID (cr_TaskType req) (cr_JobID req) of
        Inl err \<Rightarrow> Inl (PrepareSubject err)
      | Inr subject \<Rightarrow>
          (case AbandonedSubject uuid_parse
                  \<lparr>TenantID = tenantID, TaskType = cr_TaskType req, JobID = cr_JobID req, CollectionID = uuid\<rparr> of
             Inl err \<Rightarrow> Inl (PrepareAbandonSubject err)
           | Inr abandonSubject \<Rightarrow>
               if \<not> subscribed then Inl (PrepareSubscribe subject)
               else if \<not> progress then Inl PrepareProgress
               else Inr (\<lparr>hd_Req = req, hd_tenantID = tenantID, hd_subject = subject,
                          hd_abandonSubject = abandonSubject, hd_CollectionID = uuid\<rparr>, new_collection req)))"

subsection \<open>The result handler\<close>

text \<open>What a message says of its task: its error, or its payload.\<close>

definition read_result :: "(string \<Rightarrow> 'p option) \<Rightarrow> result_message \<Rightarrow> task_error option \<times> 'p option" where
  "read_result unmarshal msg =
     (let errorMsg = getHeader (rm_Headers msg) ''X-Error'' in
      if errorMsg \<noteq> [] then (Some (sanitizeError errorMsg), None)
      else if length (rm_Data msg) > 0 then
        (case unmarshal (rm_Data msg) of None \<Rightarrow> (Some TaskFailed, None) | Some p \<Rightarrow> (None, Some p))
      else (None, None))"

definition task_result :: "'p CollectRequest \<Rightarrow> string \<Rightarrow> 'p option \<Rightarrow> result_error option \<Rightarrow> 'p TaskResult" where
  "task_result req taskID res err =
     \<lparr>tr_TaskID = taskID, tr_TaskType = cr_TaskType req, tr_Result = res, tr_Error = err\<rparr>"

text \<open>The handler, from taking \<^verbatim>\<open>mu\<close> to its send or its return.\<close>

definition handler :: "(string \<Rightarrow> 'p option) \<Rightarrow> 'p CollectRequest \<Rightarrow> result_message \<Rightarrow> 'p collection \<Rightarrow> 'p collection" where
  "handler unmarshal req msg c =
     (let taskID = getHeader (rm_Headers msg) headerTaskID in
      if taskID = [] then c
      else if taskID \<notin> c_pending c then c
      else case read_result unmarshal msg of
        (Some taskErr, _) \<Rightarrow>
          (let retryCount = c_retryCounts c taskID in
           if retryCount < cr_MaxRetries req \<and> taskErr \<noteq> TaskOutputTruncated then
             (let c1 = c\<lparr>c_retryCounts := (c_retryCounts c)(taskID := retryCount + 1)\<rparr> in
              case taskMap req taskID of
                None \<Rightarrow> c1\<lparr>c_pending := c_pending c1 - {taskID},
                           c_sending := Some (task_result req taskID None (Some RetryMissingTask))\<rparr>
              | Some task \<Rightarrow> c1\<lparr>c_waiting := c_waiting c1 @ [(task, retryCount)]\<rparr>)
           else
             c\<lparr>c_pending := c_pending c - {taskID},
               c_sending := Some (task_result req taskID None
                 (Some (if taskErr = TaskOutputTruncated then NotRetried taskErr else RetryExhausted taskErr)))\<rparr>)
      | (None, payload) \<Rightarrow>
          c\<lparr>c_pending := c_pending c - {taskID}, c_sending := Some (task_result req taskID payload None)\<rparr>)"

subsection \<open>Steps\<close>

datatype give_up = CtxCancelled | IdleFired | StageCapFired

fun give_up_error :: "give_up \<Rightarrow> await_error" where
  "give_up_error CtxCancelled = ContextCancelled"
| "give_up_error IdleFired = ErrTaskTimeout"
| "give_up_error StageCapFired = ErrStageTimeout"

datatype event =
    DispatchNext bool
  | AwaitStarts
  | Deliver result_message
  | HandlerSends
  | RetryFires nat bool
  | RetryStops nat
  | RetryDeletes
  | RetrySends
  | CtxDone
  | MonitorCloses
  | Receives
  | GivesUp give_up
  | SeesDone
  | DrainEnds
  | Releases
  | Abandons bool

definition has_room :: "'p CollectRequest \<Rightarrow> 'p collection \<Rightarrow> bool" where
  "has_room req c \<longleftrightarrow> length (c_resultChan c) < length (cr_ExpectedIDs req)"

definition drop_nth :: "nat \<Rightarrow> 'a list \<Rightarrow> 'a list" where
  "drop_nth i xs = take i xs @ drop (Suc i) xs"

text \<open>A retry whose timer fired: it publishes under \<^verbatim>\<open>redispatchMu\<close> unless the collection was released.\<close>

definition retry_fires :: "('p \<Rightarrow> string option) \<Rightarrow> 'p CollectionHandle \<Rightarrow> nat \<Rightarrow> bool \<Rightarrow> 'p collection \<Rightarrow> 'p collection" where
  "retry_fires marshal h i ok c =
     (let (t, retry) = c_waiting c ! i; c1 = c\<lparr>c_waiting := drop_nth i (c_waiting c)\<rparr>; req = hd_Req h in
      if c_released c then c1
      else case publishTask marshal (hd_tenantID h) t (cr_TaskType req) (cr_JobID req) (hd_CollectionID h) (retry + 1) ok of
        Inl err \<Rightarrow> c1\<lparr>c_redispatchMu := Failing t err\<rparr>
      | Inr m \<Rightarrow> c1\<lparr>c_log := c_log c1 @ [m]\<rparr>)"

text \<open>The engine dispatches one task, and goes on to release and abandon when that fails.\<close>

definition dispatch_next :: "('p \<Rightarrow> string option) \<Rightarrow> 'p CollectionHandle \<Rightarrow> bool \<Rightarrow> 'p collection \<Rightarrow> 'p collection option" where
  "dispatch_next marshal h ok c =
     (case c_phase c of
        Dispatching (t # ts) \<Rightarrow>
          (case publishTask marshal (hd_tenantID h) t (cr_TaskType (hd_Req h)) (cr_JobID (hd_Req h)) (hd_CollectionID h) 0 ok of
             Inl err \<Rightarrow> Some (c\<lparr>c_phase := Leaving (Some (DispatchFailed err))\<rparr>)
           | Inr m \<Rightarrow> Some (c\<lparr>c_phase := Dispatching ts, c_log := c_log c @ [m]\<rparr>))
      | _ \<Rightarrow> None)"

text \<open>The monitor sees that nothing is pending.\<close>

definition monitor_closes :: "'p collection \<Rightarrow> 'p collection option" where
  "monitor_closes c =
     (if \<not> is_Dispatching (c_phase c) \<and> c_sending c = None \<and> c_pending c = {} \<and> \<not> c_doneChan c
      then Some (c\<lparr>c_doneChan := True\<rparr>) else None)"

text \<open>\<^verbatim>\<open>release\<close> and \<^verbatim>\<open>abandon\<close> of the handle, as the end of \<^verbatim>\<open>AwaitResults\<close> or of a failed dispatch.\<close>

definition release :: "'p collection \<Rightarrow> 'p collection option" where
  "release c =
     (case c_phase c of
        Leaving out \<Rightarrow>
          if c_redispatchMu c = Unlocked
          then Some (c\<lparr>c_released := True, c_phase := (case out of None \<Rightarrow> Returned None | Some err \<Rightarrow> Closing err)\<rparr>)
          else None
      | _ \<Rightarrow> None)"

definition abandon :: "'p CollectionHandle \<Rightarrow> bool \<Rightarrow> 'p collection \<Rightarrow> 'p collection option" where
  "abandon h ok c =
     (case c_phase c of
        Closing err \<Rightarrow>
          Some (c\<lparr>c_phase := Returned (Some err),
                  c_log := c_log c @ (if ok then [PubAbandon (hd_abandonSubject h)] else [])\<rparr>)
      | _ \<Rightarrow> None)"

declare dispatch_next_def [simp] monitor_closes_def [simp] release_def [simp] abandon_def [simp]

fun step :: "('p \<Rightarrow> string option) \<Rightarrow> (string \<Rightarrow> 'p option) \<Rightarrow> 'p CollectionHandle \<Rightarrow> event \<Rightarrow> 'p collection \<Rightarrow> 'p collection option" where
  "step marshal unmarshal h (DispatchNext ok) c = dispatch_next marshal h ok c"
| "step marshal unmarshal h AwaitStarts c =
     (if c_phase c = Dispatching [] then Some (c\<lparr>c_phase := Collecting\<rparr>) else None)"
| "step marshal unmarshal h (Deliver msg) c =
     (if c_sending c = None then Some (handler unmarshal (hd_Req h) msg c) else None)"
| "step marshal unmarshal h HandlerSends c =
     (case c_sending c of
        Some r \<Rightarrow> if has_room (hd_Req h) c then Some (c\<lparr>c_sending := None, c_resultChan := c_resultChan c @ [r]\<rparr>) else None
      | None \<Rightarrow> None)"
| "step marshal unmarshal h (RetryFires i ok) c =
     (if i < length (c_waiting c) \<and> c_redispatchMu c = Unlocked then Some (retry_fires marshal h i ok c) else None)"
| "step marshal unmarshal h (RetryStops i) c =
     (if i < length (c_waiting c) \<and> (c_ctxDone c \<or> c_released c)
      then Some (c\<lparr>c_waiting := drop_nth i (c_waiting c)\<rparr>) else None)"
| "step marshal unmarshal h RetryDeletes c =
     (case c_redispatchMu c of
        Failing t err \<Rightarrow>
          if c_sending c = None
          then Some (c\<lparr>c_pending := c_pending c - {tk_TaskID t},
                       c_redispatchMu := Reporting \<lparr>tr_TaskID = tk_TaskID t, tr_TaskType = tk_TaskType t, tr_Result = None,
                                                    tr_Error = Some (RedispatchFailed err)\<rparr>\<rparr>)
          else None
      | _ \<Rightarrow> None)"
| "step marshal unmarshal h RetrySends c =
     (case c_redispatchMu c of
        Reporting r \<Rightarrow>
          if has_room (hd_Req h) c then Some (c\<lparr>c_redispatchMu := Unlocked, c_resultChan := c_resultChan c @ [r]\<rparr>) else None
      | _ \<Rightarrow> None)"
| "step marshal unmarshal h CtxDone c = Some (c\<lparr>c_ctxDone := True\<rparr>)"
| "step marshal unmarshal h MonitorCloses c = monitor_closes c"
| "step marshal unmarshal h Receives c =
     (case c_resultChan c of
        r # rs \<Rightarrow> if c_phase c = Collecting \<or> c_phase c = Draining
                  then Some (c\<lparr>c_resultChan := rs, c_results := c_results c @ [r]\<rparr>) else None
      | [] \<Rightarrow> None)"
| "step marshal unmarshal h (GivesUp why) c =
     (if c_phase c = Collecting \<and> (why = CtxCancelled \<longrightarrow> c_ctxDone c)
      then Some (c\<lparr>c_phase := Leaving (Some (give_up_error why))\<rparr>) else None)"
| "step marshal unmarshal h SeesDone c =
     (if c_phase c = Collecting \<and> c_doneChan c then Some (c\<lparr>c_phase := Draining\<rparr>) else None)"
| "step marshal unmarshal h DrainEnds c =
     (if c_phase c = Draining \<and> c_resultChan c = [] then Some (c\<lparr>c_phase := Leaving None\<rparr>) else None)"
| "step marshal unmarshal h Releases c = release c"
| "step marshal unmarshal h (Abandons ok) c = abandon h ok c"

fun run :: "('p \<Rightarrow> string option) \<Rightarrow> (string \<Rightarrow> 'p option) \<Rightarrow> 'p CollectionHandle \<Rightarrow> event list \<Rightarrow> 'p collection \<Rightarrow> 'p collection option" where
  "run marshal unmarshal h [] c = Some c"
| "run marshal unmarshal h (e # es) c =
     (case step marshal unmarshal h e c of None \<Rightarrow> None | Some c' \<Rightarrow> run marshal unmarshal h es c')"

subsection \<open>Executions\<close>

lemma run_invariant:
  assumes "run marshal unmarshal h es c = Some c'" "P c"
    and "\<And>e c c'. e \<in> set es \<Longrightarrow> P c \<Longrightarrow> step marshal unmarshal h e c = Some c' \<Longrightarrow> P c'"
  shows "P c'"
  using assms
proof (induction es arbitrary: c)
  case (Cons e es)
  from Cons.prems(1) obtain d where d: "step marshal unmarshal h e c = Some d" "run marshal unmarshal h es d = Some c'"
    by (auto split: option.splits)
  have "P d" by (rule Cons.prems(3) [OF _ Cons.prems(2) d(1)]) simp
  then show ?case by (rule Cons.IH [OF d(2)]) (rule Cons.prems(3); simp)
qed simp

lemma PrepareCollect_Inr:
  assumes "PrepareCollect up uuid tenantID s p req = Inr (h, c)"
  shows "hd_Req h = req" "hd_tenantID h = tenantID" "hd_CollectionID h = uuid" "c = new_collection req" "tenantID \<noteq> []"
    and "\<exists>ws. WorkSubject tenantID (cr_TaskType req) (cr_JobID req) = Inr ws"
    and "ParseAbandonedSubject up (hd_abandonSubject h) =
      Inr \<lparr>TenantID = tenantID, TaskType = cr_TaskType req, JobID = cr_JobID req, CollectionID = uuid\<rparr>"
  using assms
  by (auto simp: PrepareCollect_def ResultSubject_def WorkSubject_def buildSubject_def abandoned_codec.dec_iff
      split: if_splits sum.splits option.splits)

lemma publishTask_Inr:
  assumes "publishTask marshal tenantID t ty job coll n ok = Inr m"
  shows "\<exists>ws data. WorkSubject tenantID ty job = Inr ws \<and> marshal (tk_Payload t) = Some data \<and>
    m = PubTask ws data [(headerTaskID, [tk_TaskID t]), (headerTaskType, [ty]), (headerJobID, [job]),
          (headerRetryCount, [itoa n]), (headerCollectionID, [coll])]"
  using assms by (auto simp: publishTask_def task_message_def split: if_splits sum.splits option.splits)

lemma publishTask_ok:
  assumes "tenantID \<noteq> []" "WorkSubject tenantID ty job = Inr ws" "marshal (tk_Payload t) \<noteq> None"
  shows "\<exists>m. publishTask marshal tenantID t ty job coll n True = Inr m"
  using assms by (auto simp: publishTask_def task_message_def)

lemmas header_defs = headerTaskID_def headerTaskType_def headerJobID_def headerRetryCount_def headerCollectionID_def

text \<open>The handler changes only what it tracks; it never publishes, receives or releases.\<close>

lemma handler_frame:
  "c_log (handler u req msg c) = c_log c" "c_phase (handler u req msg c) = c_phase c"
  "c_released (handler u req msg c) = c_released c" "c_redispatchMu (handler u req msg c) = c_redispatchMu c"
  "c_results (handler u req msg c) = c_results c" "c_resultChan (handler u req msg c) = c_resultChan c"
  "c_doneChan (handler u req msg c) = c_doneChan c"
  by (auto simp: handler_def Let_def split: prod.split option.split)

lemma taskMap_Some: "taskMap req i = Some t \<Longrightarrow> t \<in> set (cr_Tasks req) \<and> tk_TaskID t = i"
proof -
  have "fold (\<lambda>t m. m(tk_TaskID t \<mapsto> t)) ts m i = Some t \<Longrightarrow> m i = Some t \<or> (t \<in> set ts \<and> tk_TaskID t = i)" for ts m
    by (induction ts arbitrary: m) (fastforce split: if_splits)+
  then show "taskMap req i = Some t \<Longrightarrow> t \<in> set (cr_Tasks req) \<and> tk_TaskID t = i" by (fastforce simp: taskMap_def)
qed

subsection \<open>The abandon is the last message\<close>

definition own_task :: "string \<Rightarrow> string \<Rightarrow> published \<Rightarrow> bool" where
  "own_task ws coll m \<longleftrightarrow> (\<exists>data hs. m = PubTask ws data hs \<and> getHeader hs headerCollectionID = coll)"

definition log_inv :: "string \<Rightarrow> 'p CollectionHandle \<Rightarrow> 'p collection \<Rightarrow> bool" where
  "log_inv ws h c \<longleftrightarrow>
     (\<exists>ts tail. c_log c = ts @ tail \<and> (\<forall>m\<in>set ts. own_task ws (hd_CollectionID h) m)
        \<and> (tail = [] \<or> tail = [PubAbandon (hd_abandonSubject h)] \<and> (\<exists>err. c_phase c = Returned (Some err))))
     \<and> ((\<exists>out. c_phase c = Returned out) \<or> (\<exists>err. c_phase c = Closing err) \<longrightarrow> c_released c)"

lemma own_publishTask:
  assumes "publishTask marshal tenantID t ty job coll n ok = Inr m" "WorkSubject tenantID ty job = Inr ws"
  shows "own_task ws coll m"
  using publishTask_Inr [OF assms(1)] assms(2) by (auto simp: own_task_def getHeader_def header_defs)

lemma log_inv_same:
  "log_inv ws h c \<Longrightarrow> c_phase c' = c_phase c \<Longrightarrow> c_log c' = c_log c \<Longrightarrow> c_released c' = c_released c \<Longrightarrow> log_inv ws h c'"
  by (simp add: log_inv_def)

lemma log_inv_tasks:
  "log_inv ws h c \<Longrightarrow> (\<And>err. c_phase c \<noteq> Returned (Some err)) \<Longrightarrow> \<forall>m\<in>set (c_log c). own_task ws (hd_CollectionID h) m"
  unfolding log_inv_def by auto

lemma log_inv_open: "log_inv ws h c \<Longrightarrow> \<not> c_released c \<Longrightarrow>
    (\<forall>m\<in>set (c_log c). own_task ws (hd_CollectionID h) m) \<and> (\<forall>out. c_phase c \<noteq> Returned out) \<and> (\<forall>err. c_phase c \<noteq> Closing err)"
  using log_inv_tasks [of ws h c] unfolding log_inv_def by blast

lemma log_inv_openI:
  assumes "\<forall>m\<in>set (c_log c). own_task ws (hd_CollectionID h) m"
    "(\<exists>out. c_phase c = Returned out) \<or> (\<exists>err. c_phase c = Closing err) \<longrightarrow> c_released c"
  shows "log_inv ws h c"
  unfolding log_inv_def using assms by (intro conjI exI [of _ "c_log c"] exI [of _ "[]"]) simp_all

lemma log_inv_retry:
  assumes "log_inv ws h c"
    and ws: "WorkSubject (hd_tenantID h) (cr_TaskType (hd_Req h)) (cr_JobID (hd_Req h)) = Inr ws"
  shows "log_inv ws h (retry_fires marshal h i ok c)"
proof -
  obtain t n where tn: "c_waiting c ! i = (t, n)" by (cases "c_waiting c ! i")
  show ?thesis
  proof (cases "c_released c")
    case True
    then show ?thesis by (intro log_inv_same [OF assms(1)]) (simp_all add: retry_fires_def tn)
  next
    case False
    note o = log_inv_open [OF assms(1) False]
    show ?thesis
    proof (cases "publishTask marshal (hd_tenantID h) t (cr_TaskType (hd_Req h)) (cr_JobID (hd_Req h)) (hd_CollectionID h) (n + 1) ok")
      case (Inl err)
      then show ?thesis using False by (intro log_inv_same [OF assms(1)]) (simp_all add: retry_fires_def tn)
    next
      case (Inr m)
      then show ?thesis
        using False o own_publishTask [OF Inr ws] by (intro log_inv_openI) (simp_all add: retry_fires_def tn)
    qed
  qed
qed

lemma log_inv_step:
  assumes "step marshal unmarshal h e c = Some c'" "log_inv ws h c"
    and ws: "WorkSubject (hd_tenantID h) (cr_TaskType (hd_Req h)) (cr_JobID (hd_Req h)) = Inr ws"
  shows "log_inv ws h c'"
proof (cases e)
  case (RetryFires i ok)
  then show ?thesis using assms(1) log_inv_retry [OF assms(2) ws] by (auto split: if_splits)
next
  case (DispatchNext ok)
  then obtain t ts where ph: "c_phase c = Dispatching (t # ts)" using assms(1) by (auto split: phase.splits list.splits)
  with log_inv_tasks [OF assms(2)] show ?thesis
    using assms(1) DispatchNext own_publishTask [OF _ ws] by (auto intro!: log_inv_openI split: sum.splits)
next
  case (Abandons ok)
  then obtain err where ph: "c_phase c = Closing err" using assms(1) by (auto split: phase.splits)
  then have "c_released c" using assms(2) by (simp add: log_inv_def)
  with ph log_inv_tasks [OF assms(2)] show ?thesis
    using assms(1) Abandons unfolding log_inv_def
    by (intro conjI exI [of _ "c_log c"] exI [of _ "if ok then [PubAbandon (hd_abandonSubject h)] else []"]) auto
next
  case Releases
  then obtain out where ph: "c_phase c = Leaving out" using assms(1) by (auto split: phase.splits)
  with log_inv_tasks [OF assms(2)] show ?thesis
    using assms(1) Releases by (auto intro!: log_inv_openI split: if_splits)
next
  case (Deliver msg)
  then show ?thesis using assms(1) by (auto intro: log_inv_same [OF assms(2)] simp: handler_frame split: if_splits)
next
  case (GivesUp why)
  then show ?thesis using assms(1) log_inv_tasks [OF assms(2)] by (auto intro!: log_inv_openI split: if_splits)
next
  case SeesDone
  then show ?thesis using assms(1) log_inv_tasks [OF assms(2)] by (auto intro!: log_inv_openI split: if_splits)
next
  case DrainEnds
  then show ?thesis using assms(1) log_inv_tasks [OF assms(2)] by (auto intro!: log_inv_openI split: if_splits)
next
  case AwaitStarts
  then show ?thesis using assms(1) log_inv_tasks [OF assms(2)] by (auto intro!: log_inv_openI split: if_splits)
qed (use assms(1) in \<open>auto intro: log_inv_same [OF assms(2)] split: if_splits option.splits list.splits holder.splits\<close>)

subsection \<open>Every expected task has its result\<close>

text \<open>All results of a collection so far, in the order they were decided.\<close>

definition decided :: "'p collection \<Rightarrow> 'p TaskResult list" where
  "decided c = c_results c @ c_resultChan c @ (case c_sending c of Some r \<Rightarrow> [r] | None \<Rightarrow> [])"

definition collect_inv :: "'p CollectRequest \<Rightarrow> 'p collection \<Rightarrow> bool" where
  "collect_inv req c \<longleftrightarrow>
     distinct (map tr_TaskID (decided c)) \<and> set (map tr_TaskID (decided c)) \<inter> c_pending c = {}
     \<and> set (map tr_TaskID (decided c)) \<union> c_pending c = set (cr_ExpectedIDs req)
     \<and> (c_doneChan c \<longrightarrow> c_pending c = {} \<and> c_sending c = None)
     \<and> (c_phase c = Draining \<longrightarrow> c_doneChan c)
     \<and> (c_phase c = Leaving None \<or> c_phase c = Returned None \<longrightarrow> c_doneChan c \<and> c_resultChan c = [])
     \<and> c_redispatchMu c = Unlocked \<and> fst ` set (c_waiting c) \<subseteq> set (cr_Tasks req)"

lemma set_drop_nth: "set (drop_nth i xs) \<subseteq> set xs"
  unfolding drop_nth_def using set_take_subset set_drop_subset by fastforce

lemma collect_inv_handler:
  assumes "collect_inv req c" "c_sending c = None"
  shows "collect_inv req (handler unmarshal req msg c)"
proof -
  let ?i = "getHeader (rm_Headers msg) headerTaskID"
  show ?thesis
  proof (cases "?i = [] \<or> ?i \<notin> c_pending c")
    case True
    then show ?thesis using assms by (auto simp: handler_def Let_def)
  next
    case False
    then have pend: "?i \<in> c_pending c" "?i \<noteq> []" by auto
    have send: "collect_inv req (c\<lparr>c_pending := c_pending c - {?i}, c_sending := Some (task_result req ?i res err)\<rparr>)" for res err
      using assms pend by (auto simp: collect_inv_def decided_def task_result_def)
    have send': "collect_inv req (c\<lparr>c_retryCounts := f, c_pending := c_pending c - {?i}, c_sending := Some (task_result req ?i res err)\<rparr>)" for f res err
      using assms pend by (auto simp: collect_inv_def decided_def task_result_def)
    have wait: "collect_inv req (c\<lparr>c_retryCounts := f, c_waiting := c_waiting c @ [(t, n)]\<rparr>)" if "taskMap req ?i = Some t" for f t n
      using assms taskMap_Some [OF that] by (auto simp: collect_inv_def decided_def)
    show ?thesis
      using pend send send' wait
      by (cases "read_result unmarshal msg"; cases "fst (read_result unmarshal msg)"; cases "taskMap req ?i")
        (simp_all add: handler_def Let_def)
  qed
qed

lemma collect_inv_waiting:
  assumes "collect_inv req c"
  shows "collect_inv req (c\<lparr>c_waiting := drop_nth i (c_waiting c)\<rparr>)"
    and "collect_inv req (c\<lparr>c_waiting := drop_nth i (c_waiting c), c_log := l\<rparr>)"
proof -
  have "fst ` set (c_waiting c) \<subseteq> set (cr_Tasks req)" using assms by (simp add: collect_inv_def)
  then have "fst ` set (drop_nth i (c_waiting c)) \<subseteq> set (cr_Tasks req)"
    using image_mono [OF set_drop_nth [of i "c_waiting c"], of fst] by (rule subset_trans [rotated])
  with assms show "collect_inv req (c\<lparr>c_waiting := drop_nth i (c_waiting c)\<rparr>)"
    "collect_inv req (c\<lparr>c_waiting := drop_nth i (c_waiting c), c_log := l\<rparr>)"
    by (simp_all add: collect_inv_def decided_def)
qed

lemma collect_inv_retry:
  assumes "collect_inv (hd_Req h) c" "i < length (c_waiting c)" "hd_tenantID h \<noteq> []"
    and "WorkSubject (hd_tenantID h) (cr_TaskType (hd_Req h)) (cr_JobID (hd_Req h)) = Inr ws"
    and "\<forall>t\<in>set (cr_Tasks (hd_Req h)). marshal (tk_Payload t) \<noteq> None"
  shows "collect_inv (hd_Req h) (retry_fires marshal h i True c)"
proof -
  obtain t n where tn: "c_waiting c ! i = (t, n)" by (cases "c_waiting c ! i")
  have "(t, n) \<in> set (c_waiting c)" using nth_mem [OF assms(2)] tn by simp
  moreover have "fst ` set (c_waiting c) \<subseteq> set (cr_Tasks (hd_Req h))" using assms(1) by (simp add: collect_inv_def)
  ultimately have "t \<in> set (cr_Tasks (hd_Req h))" by (metis fst_conv image_subset_iff)
  then obtain m where m: "publishTask marshal (hd_tenantID h) t (cr_TaskType (hd_Req h)) (cr_JobID (hd_Req h)) (hd_CollectionID h) (n + 1) True = Inr m"
    using publishTask_ok [OF assms(3,4)] assms(5) by blast
  show ?thesis using collect_inv_waiting [OF assms(1)] by (simp add: retry_fires_def tn m Let_def)
qed

lemma collect_inv_phase:
  assumes "collect_inv req c" "ph = Draining \<longrightarrow> c_doneChan c"
    and "ph = Leaving None \<or> ph = Returned None \<longrightarrow> c_doneChan c \<and> c_resultChan c = []"
  shows "collect_inv req (c\<lparr>c_phase := ph\<rparr>)"
    and "collect_inv req (c\<lparr>c_phase := ph, c_log := l\<rparr>)" "collect_inv req (c\<lparr>c_released := True, c_phase := ph\<rparr>)"
  using assms by (simp_all add: collect_inv_def decided_def)

lemma decided_channel:
  "c_sending c = Some r \<Longrightarrow> decided (c\<lparr>c_sending := None, c_resultChan := c_resultChan c @ [r]\<rparr>) = decided c"
  "c_resultChan c = r # rs \<Longrightarrow> decided (c\<lparr>c_resultChan := rs, c_results := c_results c @ [r]\<rparr>) = decided c"
  "decided (c\<lparr>c_doneChan := True\<rparr>) = decided c" "decided (c\<lparr>c_ctxDone := True\<rparr>) = decided c"
  by (simp_all add: decided_def)

lemma collect_inv_channel:
  assumes "collect_inv req c"
  shows "c_sending c = Some r \<Longrightarrow> collect_inv req (c\<lparr>c_sending := None, c_resultChan := c_resultChan c @ [r]\<rparr>)"
    and "c_resultChan c = r # rs \<Longrightarrow> c_phase c = Collecting \<or> c_phase c = Draining \<Longrightarrow>
      collect_inv req (c\<lparr>c_resultChan := rs, c_results := c_results c @ [r]\<rparr>)"
    and "c_pending c = {} \<Longrightarrow> c_sending c = None \<Longrightarrow> collect_inv req (c\<lparr>c_doneChan := True\<rparr>)"
    and "collect_inv req (c\<lparr>c_ctxDone := True\<rparr>)"
  using assms unfolding collect_inv_def by (simp_all add: decided_channel del: set_map) auto

lemma collect_inv_phases:
  assumes "collect_inv req c"
  shows "c_phase c = Draining \<Longrightarrow> c_doneChan c" "c_phase c = Leaving None \<Longrightarrow> c_doneChan c \<and> c_resultChan c = []"
    and "c_redispatchMu c = Unlocked"
  using assms by (simp_all add: collect_inv_def)

lemma collect_inv_step:
  assumes "step marshal unmarshal h e c = Some c'" "collect_inv (hd_Req h) c" "\<forall>i. e \<noteq> RetryFires i False" "hd_tenantID h \<noteq> []"
    and "WorkSubject (hd_tenantID h) (cr_TaskType (hd_Req h)) (cr_JobID (hd_Req h)) = Inr ws"
    and "\<forall>t\<in>set (cr_Tasks (hd_Req h)). marshal (tk_Payload t) \<noteq> None"
  shows "collect_inv (hd_Req h) c'"
proof -
  note phase = collect_inv_phase [OF assms(2)] and chan = collect_inv_channel [OF assms(2)] and known = collect_inv_phases [OF assms(2)]
  show ?thesis
  proof (cases e)
    case (RetryFires i ok)
    then show ?thesis
      using assms(1,3) collect_inv_retry [OF assms(2) _ assms(4-6)] by (cases ok) (auto split: if_splits)
  next
    case (Deliver msg)
    then show ?thesis using assms(1) collect_inv_handler [OF assms(2)] by (auto split: if_splits)
  next
    case (RetryStops i)
    then show ?thesis using assms(1) collect_inv_waiting(1) [OF assms(2)] by (auto split: if_splits)
  next
    case Receives
    then show ?thesis using assms(1) chan(2) by (auto split: if_splits list.splits)
  next
    case HandlerSends
    then show ?thesis using assms(1) chan(1) by (auto split: if_splits option.splits)
  next
    case MonitorCloses
    then show ?thesis using assms(1) chan(3) by (auto split: if_splits)
  next
    case Releases
    then obtain out where "c_phase c = Leaving out" using assms(1) by (auto split: phase.splits)
    with Releases show ?thesis using assms(1) phase(3) known(2) by (cases out) (auto split: if_splits)
  next
    case (DispatchNext ok)
    then show ?thesis using assms(1) phase(1,2) by (auto split: phase.splits list.splits sum.splits)
  next
    case (Abandons ok)
    then show ?thesis using assms(1) phase(2) by (auto split: phase.splits)
  next
    case SeesDone
    then show ?thesis using assms(1) phase(1) by (auto split: if_splits)
  next
    case DrainEnds
    then show ?thesis using assms(1) phase(1) known(1) by (auto split: if_splits)
  qed (use assms(1) phase(1) chan(4) known(3) in \<open>auto split: if_splits\<close>)
qed

lemma collect_inv_final:
  assumes "collect_inv req c" "c_phase c = Returned None"
  shows "distinct (map tr_TaskID (c_results c)) \<and> set (map tr_TaskID (c_results c)) = set (cr_ExpectedIDs req)"
proof -
  have c: "c_resultChan c = []" "c_pending c = {}" "c_sending c = None" using assms by (simp_all add: collect_inv_def)
  then have "decided c = c_results c" by (simp add: decided_def)
  with assms(1) c(2) show ?thesis by (simp add: collect_inv_def)
qed

text \<open>A stage that got past its dispatch could encode every task.\<close>

definition encoded :: "('p \<Rightarrow> string option) \<Rightarrow> 'p CollectRequest \<Rightarrow> 'p collection \<Rightarrow> bool" where
  "encoded marshal req c \<longleftrightarrow>
     (\<exists>ts. c_phase c = Dispatching ts \<and> (\<forall>t\<in>set (cr_Tasks req). t \<in> set ts \<or> marshal (tk_Payload t) \<noteq> None))
     \<or> (\<exists>err. c_phase c = Leaving (Some err) \<or> c_phase c = Closing err \<or> c_phase c = Returned (Some err))
     \<or> (\<forall>t\<in>set (cr_Tasks req). marshal (tk_Payload t) \<noteq> None)"

lemma encoded_step:
  assumes "step marshal unmarshal h e c = Some c'" "encoded marshal (hd_Req h) c"
  shows "encoded marshal (hd_Req h) c'"
proof (cases "\<forall>t\<in>set (cr_Tasks (hd_Req h)). marshal (tk_Payload t) \<noteq> None")
  case False
  then have ph: "(\<exists>ts. c_phase c = Dispatching ts \<and> (\<forall>t\<in>set (cr_Tasks (hd_Req h)). t \<in> set ts \<or> marshal (tk_Payload t) \<noteq> None))
     \<or> (\<exists>err. c_phase c = Leaving (Some err) \<or> c_phase c = Closing err \<or> c_phase c = Returned (Some err))"
    using assms(2) by (auto simp: encoded_def)
  have same: ?thesis if "c_phase c' = c_phase c" using assms(2) that by (simp add: encoded_def)
  show ?thesis
  proof (cases e)
    case (DispatchNext ok)
    then show ?thesis
      using assms(1) ph publishTask_Inr by (auto simp: encoded_def split: phase.splits list.splits sum.splits) fastforce+
  next
    case (RetryFires i ok)
    then show ?thesis
      using assms(1) by (intro same) (auto simp: retry_fires_def Let_def split: if_splits prod.splits sum.splits)
  next
    case (Deliver msg)
    then show ?thesis using assms(1) by (intro same) (auto simp: handler_frame split: if_splits)
  next
    case Releases
    then show ?thesis using assms(1) ph by (auto simp: encoded_def split: phase.splits if_splits)
  next
    case (Abandons ok)
    then show ?thesis using assms(1) ph by (auto simp: encoded_def split: phase.splits)
  next
    case AwaitStarts
    then show ?thesis using assms(1) ph by (auto simp: encoded_def split: if_splits)
  qed (use assms(1) ph in \<open>auto intro: same simp: encoded_def split: if_splits option.splits list.splits holder.splits\<close>)
qed (simp add: encoded_def)

subsection \<open>Retries are bounded\<close>

definition is_retry :: "string \<Rightarrow> published \<Rightarrow> bool" where
  "is_retry i m \<longleftrightarrow> (case m of PubTask _ _ hs \<Rightarrow> getHeader hs headerTaskID = i \<and> getHeader hs headerRetryCount \<noteq> ''0'' | PubAbandon _ \<Rightarrow> False)"

definition retry_inv :: "'p CollectRequest \<Rightarrow> 'p collection \<Rightarrow> bool" where
  "retry_inv req c \<longleftrightarrow>
     (\<forall>i. int (length (filter (is_retry i) (c_log c)) + length (filter (\<lambda>w. tk_TaskID (fst w) = i) (c_waiting c))) \<le> c_retryCounts c i
        \<and> c_retryCounts c i \<le> max 0 (cr_MaxRetries req))"

lemma filter_drop_nth:
  "i < length xs \<Longrightarrow> length (filter P xs) = length (filter P (drop_nth i xs)) + (if P (xs ! i) then 1 else 0)"
  by (subst id_take_nth_drop [of i xs]) (simp_all add: drop_nth_def)

lemma retry_inv_same:
  "retry_inv req c \<Longrightarrow> c_log c' = c_log c \<Longrightarrow> c_waiting c' = c_waiting c \<Longrightarrow> c_retryCounts c' = c_retryCounts c \<Longrightarrow> retry_inv req c'"
  by (simp add: retry_inv_def)

lemma retry_inv_handler:
  assumes "retry_inv req c"
  shows "retry_inv req (handler unmarshal req msg c)"
proof -
  let ?i = "getHeader (rm_Headers msg) headerTaskID"
  have wait: "retry_inv req (c\<lparr>c_retryCounts := (c_retryCounts c)(?i := c_retryCounts c ?i + 1), c_waiting := c_waiting c @ [(t, n)]\<rparr>)"
    if "taskMap req ?i = Some t" "c_retryCounts c ?i < cr_MaxRetries req" for t n
    using assms taskMap_Some [OF that(1)] that(2) by (auto simp: retry_inv_def)
  have fail: "retry_inv req (c\<lparr>c_retryCounts := (c_retryCounts c)(?i := c_retryCounts c ?i + 1), c_pending := p, c_sending := s\<rparr>)"
    if "c_retryCounts c ?i < cr_MaxRetries req" for p s
    using assms that by (auto simp: retry_inv_def intro: order_trans)
  have send: "retry_inv req (c\<lparr>c_pending := p, c_sending := s\<rparr>)" for p s
    by (rule retry_inv_same [OF assms]) simp_all
  show ?thesis
    using assms wait fail send
    by (cases "read_result unmarshal msg"; cases "fst (read_result unmarshal msg)"; cases "taskMap req ?i")
      (simp_all add: handler_def Let_def)
qed

lemma retry_inv_retry:
  assumes "retry_inv req c" "i < length (c_waiting c)"
  shows "retry_inv req (retry_fires marshal h i ok c)" "retry_inv req (c\<lparr>c_waiting := drop_nth i (c_waiting c)\<rparr>)"
proof -
  obtain t n where tn: "c_waiting c ! i = (t, n)" by (cases "c_waiting c ! i")
  note drop = filter_drop_nth [OF assms(2)]
  show waits: "retry_inv req (c\<lparr>c_waiting := drop_nth i (c_waiting c)\<rparr>)"
    unfolding retry_inv_def
  proof
    fix k
    show "int (length (filter (is_retry k) (c_log (c\<lparr>c_waiting := drop_nth i (c_waiting c)\<rparr>)))
          + length (filter (\<lambda>w. tk_TaskID (fst w) = k) (c_waiting (c\<lparr>c_waiting := drop_nth i (c_waiting c)\<rparr>))))
        \<le> c_retryCounts (c\<lparr>c_waiting := drop_nth i (c_waiting c)\<rparr>) k
      \<and> c_retryCounts (c\<lparr>c_waiting := drop_nth i (c_waiting c)\<rparr>) k \<le> max 0 (cr_MaxRetries req)"
      using assms(1) [unfolded retry_inv_def, rule_format, of k] drop [of "\<lambda>w. tk_TaskID (fst w) = k"] by simp
  qed
  have logged: "retry_inv req (c\<lparr>c_waiting := drop_nth i (c_waiting c), c_log := c_log c @ [m]\<rparr>)"
    if "publishTask marshal a t b d e n' ok = Inr m" for a b d e n' m
    unfolding retry_inv_def
  proof
    fix k
    have "is_retry k m \<longrightarrow> tk_TaskID t = k"
      using publishTask_Inr [OF that] by (auto simp: is_retry_def getHeader_def header_defs)
    then show "int (length (filter (is_retry k) (c_log (c\<lparr>c_waiting := drop_nth i (c_waiting c), c_log := c_log c @ [m]\<rparr>)))
          + length (filter (\<lambda>w. tk_TaskID (fst w) = k) (c_waiting (c\<lparr>c_waiting := drop_nth i (c_waiting c), c_log := c_log c @ [m]\<rparr>))))
        \<le> c_retryCounts (c\<lparr>c_waiting := drop_nth i (c_waiting c), c_log := c_log c @ [m]\<rparr>) k
      \<and> c_retryCounts (c\<lparr>c_waiting := drop_nth i (c_waiting c), c_log := c_log c @ [m]\<rparr>) k \<le> max 0 (cr_MaxRetries req)"
      using assms(1) [unfolded retry_inv_def, rule_format, of k] drop [of "\<lambda>w. tk_TaskID (fst w) = k"] by (simp add: tn split: if_splits)
  qed
  show "retry_inv req (retry_fires marshal h i ok c)"
    using waits logged
    by (cases "publishTask marshal (hd_tenantID h) t (cr_TaskType (hd_Req h)) (cr_JobID (hd_Req h)) (hd_CollectionID h) (n + 1) ok")
      (auto simp: retry_fires_def tn Let_def retry_inv_def)
qed

lemma not_retry_first: "publishTask marshal a t b d e 0 ok = Inr m \<Longrightarrow> \<not> is_retry k m"
proof -
  have "itoa 0 = ''0''" by code_simp
  then show "publishTask marshal a t b d e 0 ok = Inr m \<Longrightarrow> \<not> is_retry k m"
    using publishTask_Inr [of marshal a t b d e 0 ok m] by (auto simp: is_retry_def getHeader_def header_defs)
qed

lemma retry_inv_step:
  assumes "step marshal unmarshal h e c = Some c'" "retry_inv (hd_Req h) c"
  shows "retry_inv (hd_Req h) c'"
proof (cases e)
  case (RetryFires i ok)
  then show ?thesis using assms(1) retry_inv_retry(1) [OF assms(2)] by (auto split: if_splits)
next
  case (RetryStops i)
  then show ?thesis using assms(1) retry_inv_retry(2) [OF assms(2)] by (auto split: if_splits)
next
  case (Deliver msg)
  then show ?thesis using assms(1) retry_inv_handler [OF assms(2)] by (auto split: if_splits)
next
  case (DispatchNext ok)
  then obtain t ts where "c_phase c = Dispatching (t # ts)" using assms(1) by (auto split: phase.splits list.splits)
  with DispatchNext assms(1) show ?thesis
  proof (cases "publishTask marshal (hd_tenantID h) t (cr_TaskType (hd_Req h)) (cr_JobID (hd_Req h)) (hd_CollectionID h) 0 ok")
    case (Inr m)
    then show ?thesis
      using DispatchNext assms \<open>c_phase c = Dispatching (t # ts)\<close> not_retry_first [OF Inr] by (auto simp: retry_inv_def)
  qed (auto intro: retry_inv_same [OF assms(2)])
next
  case (Abandons ok)
  then show ?thesis
    using assms by (auto simp: retry_inv_def is_retry_def split: phase.splits)
qed (use assms(1) in \<open>auto intro: retry_inv_same [OF assms(2)] split: if_splits option.splits list.splits holder.splits phase.splits\<close>)

lemma run_append:
  "run marshal unmarshal h (es @ fs) c = (case run marshal unmarshal h es c of None \<Rightarrow> None | Some d \<Rightarrow> run marshal unmarshal h fs d)"
  by (induction es arbitrary: c) (auto split: option.split)

text \<open>Concrete data for the witnesses: one task whose first answer is an error.\<close>

definition sample_uuid :: string where
  "sample_uuid = ''00000000-0000-4000-8000-000000000001''"

definition sample_task :: "string Task" where
  "sample_task = \<lparr>tk_JobID = ''job-1'', tk_TaskID = ''t1'', tk_TaskType = ''relationship'', tk_Payload = ''pair'', tk_PreBuiltResult = False\<rparr>"

definition sample_request :: "string CollectRequest" where
  "sample_request = \<lparr>cr_TaskType = ''relate'', cr_JobID = ''job-1'', cr_ExpectedIDs = [''t1''], cr_Tasks = [sample_task],
     cr_StageTimeout = 3600, cr_MaxRetries = 2\<rparr>"

definition sample_published :: "int \<Rightarrow> published" where
  "sample_published n = PubTask ''crosscodex.work.acme.relate.job-1'' ''pair''
     [(headerTaskID, [''t1'']), (headerTaskType, [''relate'']), (headerJobID, [''job-1'']),
      (headerRetryCount, [itoa n]), (headerCollectionID, [sample_uuid])]"

definition error_message :: "string \<Rightarrow> result_message" where
  "error_message i = \<lparr>rm_Headers = [(headerTaskID, [i]), (''X-Error'', [''timeout''])], rm_Data = []\<rparr>"

definition answer_message :: "string \<Rightarrow> result_message" where
  "answer_message i = \<lparr>rm_Headers = [(headerTaskID, [i])], rm_Data = ''answer''\<rparr>"

definition sample_retry :: "event list" where
  "sample_retry = [DispatchNext True, AwaitStarts, Deliver (error_message ''t1''), RetryFires 0 True]"

lemma sample_prepared: "\<exists>h c0. PrepareCollect uuid_len36 sample_uuid ''acme'' True True sample_request = Inr (h, c0)"
proof -
  have "ResultSubject ''acme'' ''relate'' ''job-1'' = Inr ''crosscodex.results.acme.relate.job-1''" by code_simp
  moreover have "\<exists>s. AbandonedSubject uuid_len36 \<lparr>TenantID = ''acme'', TaskType = ''relate'', JobID = ''job-1'', CollectionID = sample_uuid\<rparr> = Inr s"
    unfolding sample_uuid_def by (rule exI [of _ "''crosscodex.control.acme.relate.job-1.00000000-0000-4000-8000-000000000001.abandoned''"]) code_simp
  ultimately show ?thesis by (auto simp: PrepareCollect_def sample_request_def)
qed

lemma error_message_reads: "read_result unmarshal (error_message i) = (Some TaskTimedOut, None)" "getHeader (rm_Headers (error_message i)) headerTaskID = i"
proof -
  have "sanitizeError ''timeout'' = TaskTimedOut" by code_simp
  then show "read_result unmarshal (error_message i) = (Some TaskTimedOut, None)" "getHeader (rm_Headers (error_message i)) headerTaskID = i"
    by (simp_all add: read_result_def error_message_def getHeader_def header_defs)
qed

lemma sample_retry_run:
  assumes "PrepareCollect uuid_len36 sample_uuid ''acme'' True True sample_request = Inr (h, c0)"
  shows "run Some Some h sample_retry c0 = Some ((new_collection sample_request)\<lparr>c_phase := Collecting,
    c_retryCounts := (\<lambda>_. 0)(''t1'' := 1), c_log := [sample_published 0, sample_published 1]\<rparr>)"
proof -
  note p = PrepareCollect_Inr [OF assms]
  have ws: "WorkSubject ''acme'' ''relate'' ''job-1'' = Inr ''crosscodex.work.acme.relate.job-1''" by code_simp
  have "publishTask Some ''acme'' sample_task ''relate'' ''job-1'' sample_uuid n True = Inr (sample_published n)" for n
    by (simp add: publishTask_def task_message_def ws sample_task_def sample_published_def)
  moreover have "taskMap sample_request ''t1'' = Some sample_task" by (simp add: taskMap_def sample_request_def sample_task_def)
  ultimately show ?thesis
    by (simp add: sample_retry_def p new_collection_def sample_request_def handler_def error_message_reads retry_fires_def drop_nth_def Let_def)
qed

subsection \<open>What a collection guarantees\<close>

text \<open>
  C7. The abandon is the last word. Whatever the interleaving, everything a collection
  publishes before is a task on its tenant's own work subject that carries the collection
  identifier, and an abandon is published at most once, only when the stage ends with an
  error, and after every task: no retry follows it. The worker that receives it reads back
  exactly the collection whose identifier the tasks carry.
\<close>

theorem collector_abandon_last:
  assumes "PrepareCollect up uuid tenantID subscribed progress req = Inr (h, c0)"
    and "run marshal unmarshal h es c0 = Some c" "WorkSubject tenantID (cr_TaskType req) (cr_JobID req) = Inr ws"
  shows "\<exists>ts tail. c_log c = ts @ tail
    \<and> (\<forall>m\<in>set ts. \<exists>data hs. m = PubTask ws data hs \<and> getHeader hs headerCollectionID = uuid)
    \<and> (tail = [] \<or> (\<exists>s err. tail = [PubAbandon s] \<and> c_phase c = Returned (Some err) \<and>
        ParseAbandonedSubject up s =
          Inr \<lparr>TenantID = tenantID, TaskType = cr_TaskType req, JobID = cr_JobID req, CollectionID = uuid\<rparr>))"
proof -
  note p = PrepareCollect_Inr [OF assms(1)]
  have ws: "WorkSubject (hd_tenantID h) (cr_TaskType (hd_Req h)) (cr_JobID (hd_Req h)) = Inr ws" using p assms(3) by simp
  have start: "log_inv ws h c0" unfolding p(4) by (rule log_inv_openI) (simp_all add: new_collection_def)
  have "log_inv ws h c" by (rule run_invariant [where P = "log_inv ws h", OF assms(2) start]) (rule log_inv_step [OF _ _ ws])
  then show ?thesis using p(7) unfolding log_inv_def own_task_def p(3) by blast
qed

theorem collector_abandon_last_witness:
  "\<exists>h c0 c ts tail. PrepareCollect uuid_len36 sample_uuid ''acme'' True True sample_request = Inr (h, c0)
    \<and> run Some Some h (sample_retry @ [GivesUp IdleFired, Releases, Abandons True]) c0 = Some c
    \<and> c_log c = ts @ tail \<and> length ts = 2 \<and> length tail = 1"
proof -
  obtain h c0 where p: "PrepareCollect uuid_len36 sample_uuid ''acme'' True True sample_request = Inr (h, c0)"
    using sample_prepared by blast
  have ws: "WorkSubject ''acme'' (cr_TaskType sample_request) (cr_JobID sample_request) = Inr ''crosscodex.work.acme.relate.job-1''"
    by code_simp
  obtain c where c: "run Some Some h (sample_retry @ [GivesUp IdleFired, Releases, Abandons True]) c0 = Some c"
    and log: "c_log c = [sample_published 0, sample_published 1, PubAbandon (hd_abandonSubject h)]"
    using sample_retry_run [OF p] by (simp add: run_append new_collection_def)
  obtain ts tail where t: "c_log c = ts @ tail" "\<forall>m\<in>set ts. \<exists>data hs. m = PubTask ''crosscodex.work.acme.relate.job-1'' data hs \<and> getHeader hs headerCollectionID = sample_uuid"
    "tail = [] \<or> (\<exists>s. tail = [PubAbandon s])"
    using collector_abandon_last [OF p c ws] by blast
  have "tail \<noteq> []"
  proof
    assume "tail = []"
    then have "PubAbandon (hd_abandonSubject h) \<in> set ts" using t(1) log by (metis append_Nil2 list.set_intros)
    then show False using t(2) by blast
  qed
  then have "length tail = 1" "length ts = 2" using t(1,3) log by (auto dest: arg_cong [where f = length])
  with p c t(1) show ?thesis by blast
qed

text \<open>
  C8. A collection that completes is complete: as long as no publish of a retry fails, a
  stage that ends without an error has exactly one result for every expected task and none
  for any other, whatever errors, duplicates, unknown messages and retries arrived in
  between. And in every execution no task is retried more often than the configured limit.
\<close>

theorem collector_complete:
  assumes "PrepareCollect up uuid tenantID subscribed progress req = Inr (h, c0)" "run marshal unmarshal h es c0 = Some c"
  shows "(c_phase c = Returned None \<and> (\<forall>i. RetryFires i False \<notin> set es) \<longrightarrow>
      distinct (map tr_TaskID (c_results c)) \<and> set (map tr_TaskID (c_results c)) = set (cr_ExpectedIDs req))
    \<and> int (length (filter (is_retry i) (c_log c))) \<le> max 0 (cr_MaxRetries req)"
proof
  note p = PrepareCollect_Inr [OF assms(1)]
  have start: "retry_inv (hd_Req h) c0" unfolding p by (simp add: retry_inv_def new_collection_def)
  have "retry_inv (hd_Req h) c" by (rule run_invariant [where P = "retry_inv (hd_Req h)", OF assms(2) start]) (rule retry_inv_step)
  then have "int (length (filter (is_retry i) (c_log c)) + length (filter (\<lambda>w. tk_TaskID (fst w) = i) (c_waiting c))) \<le> c_retryCounts c i"
    "c_retryCounts c i \<le> max 0 (cr_MaxRetries req)" unfolding retry_inv_def p(1) by blast+
  then show "int (length (filter (is_retry i) (c_log c))) \<le> max 0 (cr_MaxRetries req)" by linarith
  show "c_phase c = Returned None \<and> (\<forall>i. RetryFires i False \<notin> set es) \<longrightarrow>
      distinct (map tr_TaskID (c_results c)) \<and> set (map tr_TaskID (c_results c)) = set (cr_ExpectedIDs req)"
  proof
    assume fin: "c_phase c = Returned None \<and> (\<forall>i. RetryFires i False \<notin> set es)"
    have start: "encoded marshal (hd_Req h) c0" unfolding p by (simp add: encoded_def new_collection_def)
    have "encoded marshal (hd_Req h) c"
      by (rule run_invariant [where P = "encoded marshal (hd_Req h)", OF assms(2) start]) (rule encoded_step)
    then have enc: "\<forall>t\<in>set (cr_Tasks (hd_Req h)). marshal (tk_Payload t) \<noteq> None" using fin p(1) by (auto simp: encoded_def)
    obtain ws where ws: "WorkSubject (hd_tenantID h) (cr_TaskType (hd_Req h)) (cr_JobID (hd_Req h)) = Inr ws" using p(6) by (auto simp: p(1,2))
    have start: "collect_inv (hd_Req h) c0" unfolding p by (simp add: collect_inv_def decided_def new_collection_def)
    have "collect_inv (hd_Req h) c"
    proof (rule run_invariant [where P = "collect_inv (hd_Req h)", OF assms(2) start])
      show "collect_inv (hd_Req h) d'" if "e \<in> set es" "collect_inv (hd_Req h) d" "step marshal unmarshal h e d = Some d'" for e d d'
        by (rule collect_inv_step [OF that(3,2) _ _ ws enc]) (use fin that(1) p(2,5) in auto)
    qed
    then show "distinct (map tr_TaskID (c_results c)) \<and> set (map tr_TaskID (c_results c)) = set (cr_ExpectedIDs req)"
      using fin collect_inv_final p(1) by blast
  qed
qed

theorem collector_complete_witness:
  "\<exists>h c0 c. PrepareCollect uuid_len36 sample_uuid ''acme'' True True sample_request = Inr (h, c0)
    \<and> run Some Some h (sample_retry @ [Deliver (answer_message ''t1''), HandlerSends, Receives, MonitorCloses, SeesDone, DrainEnds, Releases]) c0 = Some c
    \<and> distinct (map tr_TaskID (c_results c)) \<and> set (map tr_TaskID (c_results c)) = {''t1''}
    \<and> int (length (filter (is_retry ''t1'') (c_log c))) \<le> 2"
proof -
  let ?es = "sample_retry @ [Deliver (answer_message ''t1''), HandlerSends, Receives, MonitorCloses, SeesDone, DrainEnds, Releases]"
  obtain h c0 where p: "PrepareCollect uuid_len36 sample_uuid ''acme'' True True sample_request = Inr (h, c0)"
    using sample_prepared by blast
  have ans: "read_result Some (answer_message ''t1'') = (None, Some ''answer'')" "getHeader (rm_Headers (answer_message ''t1'')) headerTaskID = ''t1''"
    by (simp_all add: read_result_def answer_message_def getHeader_def header_defs)
  have ids: "cr_ExpectedIDs sample_request = [''t1'']" by (simp add: sample_request_def)
  obtain c where c: "run Some Some h ?es c0 = Some c" "c_phase c = Returned None"
    using sample_retry_run [OF p] PrepareCollect_Inr(1) [OF p] ids
    by (simp add: run_append new_collection_def handler_def ans has_room_def Let_def)
  have "\<forall>i. RetryFires i False \<notin> set ?es" by (simp add: sample_retry_def)
  then show ?thesis
    using collector_complete [OF p c(1), of "''t1''"] c p by (auto simp: sample_request_def)
qed

text \<open>The steps of a retry whose publish fails, for any state they are possible in.\<close>

lemma handler_error:
  assumes "i \<noteq> []" "i \<in> c_pending c" "c_retryCounts c i < cr_MaxRetries req" "taskMap req i = Some t"
  shows "handler unmarshal req (error_message i) c =
    c\<lparr>c_retryCounts := (c_retryCounts c)(i := c_retryCounts c i + 1), c_waiting := c_waiting c @ [(t, c_retryCounts c i)]\<rparr>"
  using assms by (simp add: handler_def error_message_reads Let_def)

lemma retry_fires_fails:
  assumes "c_waiting c = (t, n) # ws'" "\<not> c_released c" "hd_tenantID h \<noteq> []"
    and "WorkSubject (hd_tenantID h) (cr_TaskType (hd_Req h)) (cr_JobID (hd_Req h)) = Inr ws" "marshal (tk_Payload t) = Some data"
  shows "retry_fires marshal h 0 False c = c\<lparr>c_waiting := ws', c_redispatchMu := Failing t (DispatchPublish (tk_TaskID t) ws)\<rparr>"
  using assms by (simp add: retry_fires_def drop_nth_def publishTask_def task_message_def)

lemma dispatched_one:
  assumes "hd_tenantID h \<noteq> []" "WorkSubject (hd_tenantID h) (cr_TaskType (hd_Req h)) (cr_JobID (hd_Req h)) = Inr ws"
    and "marshal (tk_Payload t) = Some data" "c_phase c = Dispatching [t]"
  shows "\<exists>m. run marshal unmarshal h [DispatchNext True, AwaitStarts] c = Some (c\<lparr>c_phase := Collecting, c_log := c_log c @ [m]\<rparr>)"
proof -
  obtain m where "publishTask marshal (hd_tenantID h) t (cr_TaskType (hd_Req h)) (cr_JobID (hd_Req h)) (hd_CollectionID h) 0 True = Inr m"
    using publishTask_ok [OF assms(1,2), of marshal t "hd_CollectionID h" 0] assms(3) by auto
  then show ?thesis using assms(4) by (intro exI [of _ m]) simp
qed

text \<open>
  C9. A failed retry can vanish. The goroutine of a retry deletes its task and releases the
  lock before it sends the failure, so the monitor can close the collection in between: for
  any collection of one task with a retry left, there is an execution in which the publish
  of the retry fails and the stage still ends without an error, with no result for the task.
\<close>

theorem collector_can_lose_failure:
  assumes "PrepareCollect up uuid tenantID subscribed progress req = Inr (h, c0)"
    and "cr_ExpectedIDs req = [tk_TaskID task]" "cr_Tasks req = [task]" "tk_TaskID task \<noteq> []" "0 < cr_MaxRetries req"
    and "marshal (tk_Payload task) = Some data"
  shows "\<exists>es c. run marshal unmarshal h es c0 = Some c \<and> c_phase c = Returned None \<and> c_results c = []"
proof -
  note p = PrepareCollect_Inr [OF assms(1)]
  obtain ws where ws: "WorkSubject (hd_tenantID h) (cr_TaskType (hd_Req h)) (cr_JobID (hd_Req h)) = Inr ws" using p(6) by (auto simp: p(1,2))
  have tn: "hd_tenantID h \<noteq> []" using p(2,5) by simp
  have tm: "taskMap req (tk_TaskID task) = Some task" by (simp add: taskMap_def assms(3))
  have "c_phase c0 = Dispatching [task]" by (simp add: p(4) new_collection_def assms(3))
  from dispatched_one [of h ws marshal task data c0, OF tn ws assms(6) this] obtain m where
    m: "run marshal unmarshal h [DispatchNext True, AwaitStarts] c0 = Some (c0\<lparr>c_phase := Collecting, c_log := c_log c0 @ [m]\<rparr>)" by blast
  have "\<exists>c. run marshal unmarshal h ([DispatchNext True, AwaitStarts] @ [Deliver (error_message (tk_TaskID task)), RetryFires 0 False,
      RetryDeletes, MonitorCloses, SeesDone, DrainEnds, RetrySends, Releases]) c0 = Some c \<and> c_phase c = Returned None \<and> c_results c = []"
    unfolding run_append m
    by (simp add: p(1,4) new_collection_def handler_error assms(2,4,5) tm retry_fires_fails [where marshal = marshal and t = task, OF _ _ tn ws assms(6)] has_room_def)
  then show ?thesis by blast
qed

theorem collector_can_lose_failure_witness:
  "\<exists>h c0 es c. PrepareCollect uuid_len36 sample_uuid ''acme'' True True sample_request = Inr (h, c0)
    \<and> run Some Some h es c0 = Some c \<and> c_phase c = Returned None \<and> c_results c = []"
proof -
  obtain h c0 where p: "PrepareCollect uuid_len36 sample_uuid ''acme'' True True sample_request = Inr (h, c0)"
    using sample_prepared by blast
  have "cr_ExpectedIDs sample_request = [tk_TaskID sample_task]" "cr_Tasks sample_request = [sample_task]" "tk_TaskID sample_task \<noteq> []"
    "0 < cr_MaxRetries sample_request" "Some (tk_Payload sample_task) = Some ''pair''"
    by (simp_all add: sample_request_def sample_task_def)
  from collector_can_lose_failure [where marshal = Some and unmarshal = Some, OF p this] p show ?thesis by blast
qed

text \<open>A retry that reports on a full channel after the stage stopped reading keeps the lock that the stage waits for.\<close>

definition blocked :: "'p CollectRequest \<Rightarrow> 'p collection \<Rightarrow> bool" where
  "blocked req c \<longleftrightarrow> (\<exists>out. c_phase c = Leaving out) \<and> (\<exists>r. c_redispatchMu c = Reporting r) \<and> \<not> has_room req c"

lemma blocked_step: "step marshal unmarshal h e c = Some c' \<Longrightarrow> blocked (hd_Req h) c \<Longrightarrow> blocked (hd_Req h) c' \<and> c_phase c' = c_phase c"
  by (cases e) (auto simp: blocked_def has_room_def handler_frame split: if_splits option.splits list.splits)

lemma blocked_run: "run marshal unmarshal h es c = Some c' \<Longrightarrow> blocked (hd_Req h) c \<Longrightarrow> c_phase c' = c_phase c"
  using run_invariant [of marshal unmarshal h es c c' "\<lambda>d. blocked (hd_Req h) d \<and> c_phase d = c_phase c"] blocked_step by fastforce

text \<open>
  C10. The end of a stage can block for good. For any collection of one task with two
  retries left, there is an execution with two error messages for the task in which both
  retries fail to publish and the stage, having seen all tasks done, waits for ever for a
  lock: from then on no execution, however long, lets it return.
\<close>

theorem collector_can_block:
  assumes "PrepareCollect up uuid tenantID subscribed progress req = Inr (h, c0)"
    and "cr_ExpectedIDs req = [tk_TaskID task]" "cr_Tasks req = [task]" "tk_TaskID task \<noteq> []" "1 < cr_MaxRetries req"
    and "marshal (tk_Payload task) = Some data"
  shows "\<exists>es c. run marshal unmarshal h es c0 = Some c \<and>
    (\<forall>es' c'. run marshal unmarshal h es' c = Some c' \<longrightarrow> c_phase c' = Leaving None)"
proof -
  note p = PrepareCollect_Inr [OF assms(1)]
  obtain ws where ws: "WorkSubject (hd_tenantID h) (cr_TaskType (hd_Req h)) (cr_JobID (hd_Req h)) = Inr ws" using p(6) by (auto simp: p(1,2))
  have tn: "hd_tenantID h \<noteq> []" using p(2,5) by simp
  have tm: "taskMap req (tk_TaskID task) = Some task" by (simp add: taskMap_def assms(3))
  have "c_phase c0 = Dispatching [task]" by (simp add: p(4) new_collection_def assms(3))
  from dispatched_one [of h ws marshal task data c0, OF tn ws assms(6) this] obtain m where
    m: "run marshal unmarshal h [DispatchNext True, AwaitStarts] c0 = Some (c0\<lparr>c_phase := Collecting, c_log := c_log c0 @ [m]\<rparr>)" by blast
  have pos: "0 < cr_MaxRetries req" using assms(5) by simp
  let ?msg = "Deliver (error_message (tk_TaskID task))"
  have "\<exists>c. run marshal unmarshal h ([DispatchNext True, AwaitStarts] @ [?msg, ?msg, RetryFires 0 False, RetryDeletes,
      MonitorCloses, SeesDone, DrainEnds, RetrySends, RetryFires 0 False, RetryDeletes]) c0 = Some c \<and> blocked req c \<and> c_phase c = Leaving None"
    unfolding run_append m
    by (simp add: p(1,4) new_collection_def handler_error assms(2,4,5) pos tm retry_fires_fails [where marshal = marshal and t = task, OF _ _ tn ws assms(6)] has_room_def blocked_def)
  then show ?thesis using blocked_run p(1) by metis
qed

theorem collector_can_block_witness:
  "\<exists>h c0 es c. PrepareCollect uuid_len36 sample_uuid ''acme'' True True sample_request = Inr (h, c0)
    \<and> run Some Some h es c0 = Some c \<and> (\<forall>es' c'. run Some Some h es' c = Some c' \<longrightarrow> c_phase c' = Leaving None)"
proof -
  obtain h c0 where p: "PrepareCollect uuid_len36 sample_uuid ''acme'' True True sample_request = Inr (h, c0)"
    using sample_prepared by blast
  have "cr_ExpectedIDs sample_request = [tk_TaskID sample_task]" "cr_Tasks sample_request = [sample_task]" "tk_TaskID sample_task \<noteq> []"
    "1 < cr_MaxRetries sample_request" "Some (tk_Payload sample_task) = Some ''pair''"
    by (simp_all add: sample_request_def sample_task_def)
  from collector_can_block [where marshal = Some and unmarshal = Some, OF p this] p show ?thesis by blast
qed

end
