(* ===== verification/Task_Ids.thy ===== *)
theory Task_Ids
  imports Subjects
begin

text \<open>
  Task identifiers (\<^verbatim>\<open>src/internal/analyzer/taskid.go\<close>): the analyzers print the control
  identifiers, the model and the sample number of a task into its identifier, joined by
  hyphens, and parse them back from a result. The theory shows exactly which identifiers
  parse to what, and so when parsing inverts printing.
\<close>

text \<open>The identifiers that \<^verbatim>\<open>GenerateWork\<close> prints for pairs and for single controls.\<close>

definition pair_task_id :: "string \<Rightarrow> string \<Rightarrow> string \<Rightarrow> string \<Rightarrow> int \<Rightarrow> string" where
  "pair_task_id analyzerName source target model s =
     analyzerName @ ''-'' @ source @ ''--'' @ target @ ''-'' @ model @ ''-s'' @ itoa s"

definition control_task_id :: "string \<Rightarrow> string \<Rightarrow> string \<Rightarrow> int \<Rightarrow> string" where
  "control_task_id analyzerName controlID model s = analyzerName @ ''-'' @ controlID @ ''-'' @ model @ ''-s'' @ itoa s"

definition skip_task_id :: "string \<Rightarrow> string \<Rightarrow> string" where
  "skip_task_id analyzerName controlID = analyzerName @ ''-'' @ controlID @ ''-skip''"

text \<open>
  \<^verbatim>\<open>FindStringSubmatch\<close> for \<open>-s(\d+)$\<close>: the digits run up to the end of the text, so the
  match is the longest run of digits at the end with \<open>-s\<close> before it.
\<close>

definition reSampleSuffix :: "string \<Rightarrow> (string \<times> string) option" where
  "reSampleSuffix s =
     (let digits = rev (takeWhile is_digit (rev s)); rest = take (length s - length digits) s in
      if digits \<noteq> [] \<and> has_suffix rest ''-s'' then Some (''-s'' @ digits, digits) else None)"

definition digits_value :: "string \<Rightarrow> nat" where
  "digits_value ds = foldl (\<lambda>n c. n * 10 + (of_char c - 48)) 0 ds"

text \<open>\<^verbatim>\<open>strconv.Atoi\<close> on a text of digits: an error when the value does not fit an \<^verbatim>\<open>int\<close>.\<close>

definition Atoi_digits :: "string \<Rightarrow> int option" where
  "Atoi_digits ds = (let n = int (digits_value ds) in if n < 2 ^ 63 then Some n else None)"

definition StripTaskIDPrefix :: "string \<Rightarrow> string \<Rightarrow> string option" where
  "StripTaskIDPrefix taskID analyzerName =
     (let prefix = analyzerName @ ''-'' in
      if \<not> has_prefix taskID prefix then None else Some (drop (length prefix) taskID))"

text \<open>The loop over the configured models: the first one that is a suffix wins.\<close>

fun find_model :: "string list \<Rightarrow> string \<Rightarrow> (string \<times> string) option" where
  "find_model [] s = None"
| "find_model (m # ms) s = (if has_suffix s (''-'' @ m) then Some (trim_suffix s (''-'' @ m), m) else find_model ms s)"

definition ParsePairTaskID :: "string \<Rightarrow> string \<Rightarrow> string list \<Rightarrow> (string \<times> string \<times> string \<times> int) option" where
  "ParsePairTaskID taskID analyzerName models =
     (case StripTaskIDPrefix taskID analyzerName of None \<Rightarrow> None | Some rest \<Rightarrow>
      case index_of rest ''--'' of None \<Rightarrow> None | Some idx \<Rightarrow>
        let source = take idx rest; tail = drop (idx + 2) rest in
        (case reSampleSuffix tail of None \<Rightarrow> None | Some (sm0, sm1) \<Rightarrow>
         case Atoi_digits sm1 of None \<Rightarrow> None | Some sampleN \<Rightarrow>
         case find_model models (trim_suffix tail sm0) of None \<Rightarrow> None | Some (target, m) \<Rightarrow>
           Some (source, target, m, sampleN)))"

text \<open>The results are the control, the model, the sample and whether the section was skipped.\<close>

definition ParseControlTaskID :: "string \<Rightarrow> string \<Rightarrow> string list \<Rightarrow> (string \<times> string \<times> int \<times> bool) option" where
  "ParseControlTaskID taskID analyzerName models =
     (case StripTaskIDPrefix taskID analyzerName of None \<Rightarrow> None | Some rest \<Rightarrow>
        if has_suffix rest ''-skip'' then Some (trim_suffix rest ''-skip'', [], 0, True)
        else case reSampleSuffix rest of None \<Rightarrow> None | Some (sm0, sm1) \<Rightarrow>
          (case Atoi_digits sm1 of None \<Rightarrow> None | Some sampleN \<Rightarrow>
           case find_model models (trim_suffix rest sm0) of None \<Rightarrow> None | Some (controlID, m) \<Rightarrow>
             Some (controlID, m, sampleN, False)))"

subsection \<open>The pieces\<close>

lemma StripTaskIDPrefix_Some: "StripTaskIDPrefix s name = Some r \<longleftrightarrow> s = name @ ''-'' @ r"
  by (auto simp: StripTaskIDPrefix_def has_prefix_iff Let_def)

lemma trailing_digits: "s = rev (dropWhile P (rev s)) @ rev (takeWhile P (rev s))"
  by (metis rev_append rev_rev_ident takeWhile_dropWhile_id)

lemma reSampleSuffix_Some:
  "reSampleSuffix s = Some (a, ds) \<longleftrightarrow> (\<exists>r. s = r @ ''-s'' @ ds) \<and> ds \<noteq> [] \<and> list_all is_digit ds \<and> a = ''-s'' @ ds"
proof -
  define pre ds' where "pre = rev (dropWhile is_digit (rev s))" and "ds' = rev (takeWhile is_digit (rev s))"
  have s: "s = pre @ ds'" unfolding pre_def ds'_def by (rule trailing_digits)
  have dig: "list_all is_digit ds'" unfolding ds'_def by (auto simp: list_all_iff dest: set_takeWhileD)
  have "take (length s - length ds') s = pre" by (simp add: s)
  then have eq: "reSampleSuffix s = (if ds' \<noteq> [] \<and> has_suffix pre ''-s'' then Some (''-s'' @ ds', ds') else None)"
    unfolding reSampleSuffix_def Let_def ds'_def [symmetric] by simp
  have tail: "ds' = ds \<and> pre = r @ ''-s''" if "s = r @ ''-s'' @ ds" "list_all is_digit ds" for r
  proof -
    have "\<not> is_digit CHR ''s''" by code_simp
    then have "takeWhile is_digit (rev ds @ CHR ''s'' # CHR ''-'' # rev r) = rev ds"
      using that(2) by (subst takeWhile_append2) (simp_all add: list_all_iff)
    then have "ds' = ds" using that(1) by (simp add: ds'_def)
    with s that(1) show ?thesis by simp
  qed
  show ?thesis
  proof
    assume "reSampleSuffix s = Some (a, ds)"
    then have "ds' = ds" "ds \<noteq> []" "has_suffix pre ''-s''" "a = ''-s'' @ ds" unfolding eq by (auto split: if_splits)
    then show "(\<exists>r. s = r @ ''-s'' @ ds) \<and> ds \<noteq> [] \<and> list_all is_digit ds \<and> a = ''-s'' @ ds"
      using s dig unfolding has_suffix_iff by auto
  next
    assume r: "(\<exists>r. s = r @ ''-s'' @ ds) \<and> ds \<noteq> [] \<and> list_all is_digit ds \<and> a = ''-s'' @ ds"
    then obtain r where "s = r @ ''-s'' @ ds" by blast
    with r tail show "reSampleSuffix s = Some (a, ds)" unfolding eq by (simp add: has_suffix_iff)
  qed
qed

lemma find_model_Some:
  "find_model models s = Some (t, m) \<longleftrightarrow>
     s = t @ ''-'' @ m \<and> (\<exists>ms ms'. models = ms @ m # ms' \<and> (\<forall>x\<in>set ms. \<not> has_suffix s (''-'' @ x)))"
proof (induction models)
  case (Cons x models)
  show ?case
  proof (cases "has_suffix s (''-'' @ x)")
    case True
    then obtain r where r: "s = r @ ''-'' @ x" by (auto simp: has_suffix_iff)
    have first: "ms = []" if "x # models = ms @ m # ms'" "\<forall>y\<in>set ms. \<not> has_suffix s (''-'' @ y)" for ms ms'
      using that True by (cases ms) auto
    have "find_model (x # models) s = Some (r, x)" using True r by (metis find_model.simps(2) trim_suffix_append append.assoc)
    then have "find_model (x # models) s = Some (t, m) \<longleftrightarrow> x = m \<and> r = t" by auto
    also have "\<dots> \<longleftrightarrow> s = t @ ''-'' @ m \<and> (\<exists>ms ms'. x # models = ms @ m # ms' \<and> (\<forall>y\<in>set ms. \<not> has_suffix s (''-'' @ y)))"
    proof
      assume "x = m \<and> r = t"
      then show "s = t @ ''-'' @ m \<and> (\<exists>ms ms'. x # models = ms @ m # ms' \<and> (\<forall>y\<in>set ms. \<not> has_suffix s (''-'' @ y)))"
        using r by (intro conjI exI [of _ "[]"] exI [of _ models]) simp_all
    next
      assume a: "s = t @ ''-'' @ m \<and> (\<exists>ms ms'. x # models = ms @ m # ms' \<and> (\<forall>y\<in>set ms. \<not> has_suffix s (''-'' @ y)))"
      then have "x = m" using first by (metis append_Nil list.inject)
      with a r show "x = m \<and> r = t" by simp
    qed
    finally show ?thesis .
  next
    case False
    have "(\<exists>ms ms'. x # models = ms @ m # ms' \<and> (\<forall>y\<in>set ms. \<not> has_suffix s (''-'' @ y))) \<longleftrightarrow>
        (\<exists>ms ms'. models = ms @ m # ms' \<and> (\<forall>y\<in>set ms. \<not> has_suffix s (''-'' @ y)))" if "s = t @ ''-'' @ m"
    proof -
      have "x \<noteq> m" using False that by (auto simp: has_suffix_iff)
      show ?thesis
      proof
        assume "\<exists>ms ms'. x # models = ms @ m # ms' \<and> (\<forall>y\<in>set ms. \<not> has_suffix s (''-'' @ y))"
        then show "\<exists>ms ms'. models = ms @ m # ms' \<and> (\<forall>y\<in>set ms. \<not> has_suffix s (''-'' @ y))"
          using \<open>x \<noteq> m\<close> by (auto simp: Cons_eq_append_conv)
      next
        assume "\<exists>ms ms'. models = ms @ m # ms' \<and> (\<forall>y\<in>set ms. \<not> has_suffix s (''-'' @ y))"
        then obtain ms ms' where "models = ms @ m # ms'" "\<forall>y\<in>set ms. \<not> has_suffix s (''-'' @ y)" by blast
        with False show "\<exists>ms ms'. x # models = ms @ m # ms' \<and> (\<forall>y\<in>set ms. \<not> has_suffix s (''-'' @ y))"
          by (intro exI [of _ "x # ms"] exI [of _ ms']) simp
      qed
    qed
    then show ?thesis using Cons False by auto
  qed
qed simp

lemma index_of_sep: "index_of s ''--'' = Some i \<longleftrightarrow> (\<exists>a b. s = a @ ''--'' @ b \<and> length a = i \<and> index_of (a @ ''-'') ''--'' = None)"
proof (induction s arbitrary: i)
  case Nil
  then show ?case by simp
next
  case (Cons x s)
  show ?case
  proof (cases "has_prefix (x # s) ''--''")
    case True
    then obtain b where b: "x # s = ''--'' @ b" by (auto simp: has_prefix_iff)
    have "a = []" if "x # s = a @ ''--'' @ b'" "index_of (a @ ''-'') ''--'' = None" for a b'
      using that b by (cases a; cases "tl a") (auto simp: has_prefix_def)
    moreover have "index_of (x # s) ''--'' = Some 0" using True by simp
    moreover have "index_of ''-'' ''--'' = None" by (simp add: has_prefix_def)
    ultimately show ?thesis using b by (metis append_Nil list.size(3) option.inject)
  next
    case False
    have "index_of (x # s) ''--'' = Some i \<longleftrightarrow> (\<exists>j. i = Suc j \<and> index_of s ''--'' = Some j)" using False by auto
    moreover have "(\<exists>a b. x # s = a @ ''--'' @ b \<and> length a = i \<and> index_of (a @ ''-'') ''--'' = None) \<longleftrightarrow>
        (\<exists>j. i = Suc j \<and> (\<exists>a b. s = a @ ''--'' @ b \<and> length a = j \<and> index_of (a @ ''-'') ''--'' = None))"
    proof
      assume "\<exists>a b. x # s = a @ ''--'' @ b \<and> length a = i \<and> index_of (a @ ''-'') ''--'' = None"
      then obtain a b where ab: "x # s = a @ ''--'' @ b" "length a = i" "index_of (a @ ''-'') ''--'' = None" by blast
      then obtain a' where a': "a = x # a'" "s = a' @ ''--'' @ b" using False by (cases a) (auto simp: has_prefix_def)
      with ab show "\<exists>j. i = Suc j \<and> (\<exists>a b. s = a @ ''--'' @ b \<and> length a = j \<and> index_of (a @ ''-'') ''--'' = None)"
        by (auto split: if_splits)
    next
      assume "\<exists>j. i = Suc j \<and> (\<exists>a b. s = a @ ''--'' @ b \<and> length a = j \<and> index_of (a @ ''-'') ''--'' = None)"
      then obtain a b where ab: "s = a @ ''--'' @ b" "i = Suc (length a)" "index_of (a @ ''-'') ''--'' = None" by blast
      have "\<not> has_prefix (x # a @ ''-'') ''--''" using False ab(1) by (cases a) (auto simp: has_prefix_def)
      then show "\<exists>a b. x # s = a @ ''--'' @ b \<and> length a = i \<and> index_of (a @ ''-'') ''--'' = None"
        using ab by (intro exI [of _ "x # a"] exI [of _ b]) simp
    qed
    ultimately show ?thesis using Cons.IH by simp
  qed
qed

lemma digit_char: "d < 10 \<Longrightarrow> is_digit (char_of (48 + d)) \<and> of_char (char_of (48 + d :: nat) :: char) - 48 = d"
  by (auto simp: is_digit_def less_eq_char_def)

lemma nat_digits_value: "nat_digits n \<noteq> [] \<and> list_all is_digit (nat_digits n) \<and> digits_value (nat_digits n) = n"
proof (induction n rule: nat_digits.induct)
  case (1 n)
  show ?case
  proof (cases "n < 10")
    case True
    then show ?thesis using digit_char [OF True] by (simp add: nat_digits.simps [of n] digits_value_def)
  next
    case False
    have "n mod 10 < 10" by simp
    from digit_char [OF this] 1 [OF False] show ?thesis
      using False unfolding nat_digits.simps [of n] by (simp add: digits_value_def)
  qed
qed

lemma itoa_digits:
  assumes "0 \<le> s" "s < 2 ^ 63"
  shows "itoa s \<noteq> []" "list_all is_digit (itoa s)" "Atoi_digits (itoa s) = Some s"
  using assms nat_digits_value [of "nat s"] by (auto simp: itoa_def Atoi_digits_def Let_def)

subsection \<open>Parsing\<close>

text \<open>A parsed pair identifier, taken apart.\<close>

lemma ParsePairTaskID_Some:
  "ParsePairTaskID taskID name models = Some (src, tgt, m, n) \<longleftrightarrow>
     (\<exists>ds ms ms'. taskID = name @ ''-'' @ src @ ''--'' @ tgt @ ''-'' @ m @ ''-s'' @ ds \<and> ds \<noteq> [] \<and> list_all is_digit ds
        \<and> Atoi_digits ds = Some n \<and> index_of (src @ ''-'') ''--'' = None
        \<and> models = ms @ m # ms' \<and> (\<forall>x\<in>set ms. \<not> has_suffix (tgt @ ''-'' @ m) (''-'' @ x)))"
  (is "?L \<longleftrightarrow> ?R")
proof
  assume ?L
  then obtain rest i a ds where r: "StripTaskIDPrefix taskID name = Some rest" "index_of rest ''--'' = Some i"
    "reSampleSuffix (drop (i + 2) rest) = Some (a, ds)" "Atoi_digits ds = Some n"
    "find_model models (trim_suffix (drop (i + 2) rest) a) = Some (tgt, m)" "src = take i rest"
    by (auto simp: ParsePairTaskID_def Let_def split: option.splits)
  from r(2) obtain x y where xy: "rest = x @ ''--'' @ y" "length x = i" "index_of (x @ ''-'') ''--'' = None"
    by (auto simp: index_of_sep)
  then have "src = x" "drop (i + 2) rest = y" using r(6) by auto
  with r(3) obtain z where z: "y = z @ ''-s'' @ ds" "ds \<noteq> []" "list_all is_digit ds" "a = ''-s'' @ ds"
    by (auto simp: reSampleSuffix_Some)
  then have "trim_suffix (drop (i + 2) rest) a = z" using \<open>drop (i + 2) rest = y\<close> trim_suffix_append by metis
  then have "find_model models z = Some (tgt, m)" using r(5) by metis
  then have fm: "z = tgt @ ''-'' @ m" "\<exists>ms ms'. models = ms @ m # ms' \<and> (\<forall>x\<in>set ms. \<not> has_suffix z (''-'' @ x))"
    unfolding find_model_Some by blast+
  have "taskID = name @ ''-'' @ src @ ''--'' @ tgt @ ''-'' @ m @ ''-s'' @ ds"
    using r(1) xy(1) \<open>src = x\<close> z(1) fm(1) by (simp add: StripTaskIDPrefix_Some)
  with z(2,3) r(4) xy(3) \<open>src = x\<close> fm(2) [unfolded fm(1)] show ?R by blast
next
  assume ?R
  then obtain ds ms ms' where r: "taskID = name @ ''-'' @ src @ ''--'' @ tgt @ ''-'' @ m @ ''-s'' @ ds" "ds \<noteq> []" "list_all is_digit ds"
    "Atoi_digits ds = Some n" "index_of (src @ ''-'') ''--'' = None" "models = ms @ m # ms'"
    "\<forall>x\<in>set ms. \<not> has_suffix (tgt @ ''-'' @ m) (''-'' @ x)" by blast
  let ?tail = "(tgt @ ''-'' @ m) @ ''-s'' @ ds"
  have "StripTaskIDPrefix taskID name = Some (src @ ''--'' @ ?tail)" by (simp add: StripTaskIDPrefix_Some r(1))
  moreover have "index_of (src @ ''--'' @ ?tail) ''--'' = Some (length src)" using r(5) unfolding index_of_sep by blast
  moreover have "reSampleSuffix ?tail = Some (''-s'' @ ds, ds)" using r(2,3) unfolding reSampleSuffix_Some by blast
  moreover have "trim_suffix ?tail (''-s'' @ ds) = tgt @ ''-'' @ m" by (rule trim_suffix_append)
  moreover have "find_model models (tgt @ ''-'' @ m) = Some (tgt, m)" using r(6,7) unfolding find_model_Some by blast
  ultimately show ?L using r(4) by (simp add: ParsePairTaskID_def Let_def)
qed

text \<open>
  C27. Parsing the identifier of a pair task gives back what was printed into it, for any
  control identifiers and models with hyphens, provided that the source with a hyphen after
  it contains no double hyphen and no model configured earlier also fits the end of the
  identifier. And only identifiers of that form parse to these parts, so a result is never
  counted for a pair that its identifier does not spell out.
\<close>

theorem pair_task_id_roundtrip:
  assumes "\<not> contains_str (source @ ''-'') ''--''" "models = ms @ model # ms'"
    and "\<forall>x\<in>set ms. \<not> has_suffix (target @ ''-'' @ model) (''-'' @ x)" "0 \<le> s" "s < 2 ^ 63"
  shows "ParsePairTaskID (pair_task_id name source target model s) name models = Some (source, target, model, s)
    \<and> (\<forall>taskID. ParsePairTaskID taskID name models = Some (source, target, model, s) \<longrightarrow>
        (\<exists>ds. taskID = name @ ''-'' @ source @ ''--'' @ target @ ''-'' @ model @ ''-s'' @ ds \<and> list_all is_digit ds
           \<and> int (digits_value ds) = s))"
proof
  have "index_of (source @ ''-'') ''--'' = None" using assms(1) by (simp add: contains_str_def)
  then show "ParsePairTaskID (pair_task_id name source target model s) name models = Some (source, target, model, s)"
    unfolding ParsePairTaskID_Some pair_task_id_def using assms(2,3) itoa_digits [OF assms(4,5)] by blast
  show "\<forall>taskID. ParsePairTaskID taskID name models = Some (source, target, model, s) \<longrightarrow>
        (\<exists>ds. taskID = name @ ''-'' @ source @ ''--'' @ target @ ''-'' @ model @ ''-s'' @ ds \<and> list_all is_digit ds
           \<and> int (digits_value ds) = s)"
    unfolding ParsePairTaskID_Some by (auto simp: Atoi_digits_def Let_def split: if_splits)
qed

theorem pair_task_id_roundtrip_witness:
  "ParsePairTaskID (pair_task_id ''relationship'' ''AC-2'' ''A.5-1'' ''gpt-4o'' 12) ''relationship'' [''llama-3'', ''gpt-4o'']
    = Some (''AC-2'', ''A.5-1'', ''gpt-4o'', 12)"
proof -
  have "\<not> contains_str (''AC-2'' @ ''-'') ''--''" "[''llama-3'', ''gpt-4o''] = [''llama-3''] @ ''gpt-4o'' # []"
    "\<forall>x\<in>set [''llama-3'']. \<not> has_suffix (''A.5-1'' @ ''-'' @ ''gpt-4o'') (''-'' @ x)" by code_simp+
  from pair_task_id_roundtrip [OF this, of 12 "''relationship''"] show ?thesis by simp
qed

text \<open>
  The two provisos are needed: a source that ends in a hyphen moves the split, and of two
  models that both fit the end of an identifier the first in the configuration is taken.
\<close>

lemma pair_task_id_ambiguous:
  "ParsePairTaskID (pair_task_id ''requires'' ''A-'' ''B'' ''m'' 0) ''requires'' [''m''] = Some (''A'', ''-B'', ''m'', 0)"
  "ParsePairTaskID (pair_task_id ''requires'' ''A'' ''B'' ''x-m'' 0) ''requires'' [''m'', ''x-m''] = Some (''A'', ''B-x'', ''m'', 0)"
  by code_simp+

text \<open>The identifiers of single controls: a skipped section, and a task of a model.\<close>

lemma control_task_id_roundtrip:
  assumes "models = ms @ model # ms'" "\<forall>x\<in>set ms. \<not> has_suffix (controlID @ ''-'' @ model) (''-'' @ x)" "0 \<le> s" "s < 2 ^ 63"
  shows "ParseControlTaskID (control_task_id name controlID model s) name models = Some (controlID, model, s, False)"
    and "ParseControlTaskID (skip_task_id name controlID) name models = Some (controlID, [], 0, True)"
proof -
  let ?rest = "(controlID @ ''-'' @ model) @ ''-s'' @ itoa s"
  note d = itoa_digits [OF assms(3,4)]
  have "StripTaskIDPrefix (control_task_id name controlID model s) name = Some ?rest"
    by (simp add: StripTaskIDPrefix_Some control_task_id_def)
  moreover have "\<not> has_suffix ?rest ''-skip''"
  proof
    assume "has_suffix ?rest ''-skip''"
    then obtain r where "?rest = r @ ''-skip''" unfolding has_suffix_iff by blast
    then have "last ?rest = last (r @ ''-skip'')" by (rule arg_cong)
    then have "last ?rest = CHR ''p''" by simp
    then have "last (itoa s) = CHR ''p''" using d(1) by simp
    moreover have "is_digit (last (itoa s))" using d(1,2) by (simp add: list_all_iff)
    moreover have "\<not> is_digit CHR ''p''" by code_simp
    ultimately show False by simp
  qed
  moreover have "reSampleSuffix ?rest = Some (''-s'' @ itoa s, itoa s)" using d unfolding reSampleSuffix_Some by blast
  moreover have "trim_suffix ?rest (''-s'' @ itoa s) = controlID @ ''-'' @ model" by (rule trim_suffix_append)
  moreover have "find_model models (controlID @ ''-'' @ model) = Some (controlID, model)" using assms(1,2) unfolding find_model_Some by blast
  ultimately show "ParseControlTaskID (control_task_id name controlID model s) name models = Some (controlID, model, s, False)"
    using d(3) by (simp add: ParseControlTaskID_def)
  have "StripTaskIDPrefix (skip_task_id name controlID) name = Some (controlID @ ''-skip'')"
    by (simp add: StripTaskIDPrefix_Some skip_task_id_def)
  then show "ParseControlTaskID (skip_task_id name controlID) name models = Some (controlID, [], 0, True)"
    using has_suffix_append [of controlID "''-skip''"] trim_suffix_append [of controlID "''-skip''"]
    by (simp add: ParseControlTaskID_def del: has_suffix_append trim_suffix_append)
qed

end
