(* ===== verification/Analyzer_DAG.thy ===== *)
theory Analyzer_DAG
  imports Go_Prelude "HOL-Library.AList"
begin

text \<open>
  The analyzer registry and its execution plan (\<^verbatim>\<open>src/pkg/analyzer/registry.go\<close> and
  \<^verbatim>\<open>dag.go\<close>): registration, Kahn's algorithm by levels, the search for a cycle to report,
  \<^verbatim>\<open>BuildDAG\<close> and \<^verbatim>\<open>Subset\<close>.

  A Go map is an association list in the order of one iteration over it; the results below
  do not depend on that order. The telemetry of the registry is not part of the model.
\<close>

subsection \<open>The registry\<close>

definition name_char :: "char \<Rightarrow> bool" where
  "name_char c \<longleftrightarrow> CHR ''a'' \<le> c \<and> c \<le> CHR ''z'' \<or> CHR ''0'' \<le> c \<and> c \<le> CHR ''9'' \<or> c = CHR ''_'' \<or> c = CHR ''-''"

text \<open>\<^verbatim>\<open>^[a-z](?:[a-z0-9_-]{0,62}[a-z0-9])?$\<close>\<close>

definition namePattern :: "string \<Rightarrow> bool" where
  "namePattern s =
     (case s of [] \<Rightarrow> False
      | c # rest \<Rightarrow>
          CHR ''a'' \<le> c \<and> c \<le> CHR ''z'' \<and>
          (rest = [] \<or>
           length rest \<le> 63 \<and> list_all name_char rest \<and> last rest \<noteq> CHR ''_'' \<and> last rest \<noteq> CHR ''-''))"

datatype analyzer_error =
    ErrInvalidName string
  | ErrAlreadyRegistered string
  | ErrNotFound string
  | ErrMissingDependency string string
  | ErrCycleDetected string

definition ValidateName :: "string \<Rightarrow> analyzer_error option" where
  "ValidateName name =
     (if name = [] then Some (ErrInvalidName name)
      else if \<not> namePattern name then Some (ErrInvalidName name)
      else None)"

record RegisteredAnalyzer =
  Name :: string
  DependsOn :: "string list"

type_synonym analyzer_map = "(string \<times> RegisteredAnalyzer) list"

definition Registry_Get :: "analyzer_map \<Rightarrow> string \<Rightarrow> analyzer_error + RegisteredAnalyzer" where
  "Registry_Get r name = (case map_of r name of None \<Rightarrow> Inl (ErrNotFound name) | Some a \<Rightarrow> Inr a)"

definition Registry_All :: "analyzer_map \<Rightarrow> RegisteredAnalyzer list" where
  "Registry_All r = map snd r"

definition Register :: "analyzer_map \<Rightarrow> RegisteredAnalyzer \<Rightarrow> analyzer_error + analyzer_map" where
  "Register r a =
     (case ValidateName (Name a) of
        Some e \<Rightarrow> Inl e
      | None \<Rightarrow>
          if map_of r (Name a) \<noteq> None then Inl (ErrAlreadyRegistered (Name a))
          else Inr (AList.update (Name a) a r))"

subsection \<open>Kahn's algorithm\<close>

type_synonym edge_map = "(string \<times> string list) list"

definition edge_deps :: "edge_map \<Rightarrow> string \<Rightarrow> string list" where
  "edge_deps edges n = (case map_of edges n of None \<Rightarrow> [] | Some ds \<Rightarrow> ds)"

definition inDegrees :: "(string \<times> 'n) list \<Rightarrow> edge_map \<Rightarrow> (string \<times> int) list" where
  "inDegrees nodes edges =
     fold (\<lambda>(name, deps). AList.update name (int (length deps))) edges (map (\<lambda>(name, _). (name, 0)) nodes)"

definition push_dependent :: "string \<Rightarrow> string \<Rightarrow> (string \<Rightarrow> string list) \<Rightarrow> string \<Rightarrow> string list" where
  "push_dependent name dep m = m(dep := m dep @ [name])"

definition dependents :: "edge_map \<Rightarrow> string \<Rightarrow> string list" where
  "dependents edges =
     fold (\<lambda>(name, deps). fold (push_dependent name) deps) edges (\<lambda>_. [])"

text \<open>The inner loop: decrement each dependent and collect those that reach zero.\<close>

fun visit_dependents :: "string list \<Rightarrow> (string \<Rightarrow> int) \<Rightarrow> string list \<Rightarrow> (string \<Rightarrow> int) \<times> string list" where
  "visit_dependents [] deg nxt = (deg, nxt)"
| "visit_dependents (d # ds) deg nxt =
     (let deg' = deg(d := deg d - 1)
      in visit_dependents ds deg' (if deg' d = 0 then nxt @ [d] else nxt))"

fun visit_queue ::
  "(string \<Rightarrow> string list) \<Rightarrow> string list \<Rightarrow> (string \<Rightarrow> int) \<Rightarrow> string list \<Rightarrow> (string \<Rightarrow> int) \<times> string list" where
  "visit_queue dm [] deg nxt = (deg, nxt)"
| "visit_queue dm (n # ns) deg nxt =
     (let (deg', nxt') = visit_dependents (dm n) deg nxt in visit_queue dm ns deg' nxt')"

lemma visit_queue_concat: "visit_queue dm q deg nxt = visit_dependents (concat (map dm q)) deg nxt"
proof -
  have app: "visit_dependents (xs @ ys) deg nxt =
      (let (deg', nxt') = visit_dependents xs deg nxt in visit_dependents ys deg' nxt')" for xs ys deg nxt
    by (induction xs arbitrary: deg nxt) (auto simp: Let_def)
  show ?thesis by (induction q arbitrary: deg nxt) (auto simp: app Let_def split: prod.splits)
qed

lemma visit_dependents_spec:
  "\<exists>zs. visit_dependents ds deg nxt = (\<lambda>x. deg x - int (count_list ds x), nxt @ zs) \<and> distinct zs \<and>
     set zs = {x. 0 < deg x \<and> deg x \<le> int (count_list ds x)}"
proof (induction ds arbitrary: deg nxt)
  case (Cons d ds)
  let ?deg = "deg(d := deg d - 1)" and ?nxt = "if deg d - 1 = 0 then nxt @ [d] else nxt"
  from Cons.IH [of ?deg ?nxt] obtain zs where
    zs: "visit_dependents ds ?deg ?nxt = (\<lambda>x. ?deg x - int (count_list ds x), ?nxt @ zs)" "distinct zs"
      "set zs = {x. 0 < ?deg x \<and> ?deg x \<le> int (count_list ds x)}" by blast
  let ?zs = "(if deg d - 1 = 0 then [d] else []) @ zs"
  have "visit_dependents (d # ds) deg nxt = (\<lambda>x. deg x - int (count_list (d # ds) x), nxt @ ?zs)"
    using zs(1) by (auto simp: Let_def fun_eq_iff)
  moreover have "distinct ?zs" using zs(2,3) by auto
  moreover have "set ?zs = {x. 0 < deg x \<and> deg x \<le> int (count_list (d # ds) x)}"
  proof (rule set_eqI)
    fix x
    show "x \<in> set ?zs \<longleftrightarrow> x \<in> {x. 0 < deg x \<and> deg x \<le> int (count_list (d # ds) x)}"
      using zs(3) by (cases "x = d") auto
  qed
  ultimately show ?case by blast
qed auto

lemma edge_deps_outside: "x \<notin> fst ` set edges \<Longrightarrow> edge_deps edges x = []"
  using map_of_eq_None_iff [of edges x] by (simp add: edge_deps_def)

lemma dependents_count:
  assumes "distinct (map fst edges)"
  shows "count_list (dependents edges q) x = count_list (edge_deps edges x) q"
proof -
  have inner: "count_list (fold (push_dependent name) deps m q) x =
      count_list (m q) x + (if name = x then count_list deps q else 0)" for name deps m
    by (induction deps arbitrary: m) (auto simp: push_dependent_def)
  have "distinct (map fst es) \<Longrightarrow>
      count_list (fold (\<lambda>(name, deps). fold (push_dependent name) deps) es m q) x =
      count_list (m q) x + count_list (edge_deps es x) q" for es m
  proof (induction es arbitrary: m)
    case (Cons e es)
    obtain n ds where e: "e = (n, ds)" by fastforce
    have "edge_deps (e # es) x = (if n = x then ds else edge_deps es x)" by (simp add: e edge_deps_def)
    moreover have "n = x \<Longrightarrow> edge_deps es x = []"
      using Cons.prems by (intro edge_deps_outside) (auto simp: e)
    ultimately show ?case using Cons by (simp add: e inner)
  qed (simp add: edge_deps_def)
  from this [OF assms, of "\<lambda>_. []"] show ?thesis by (simp add: dependents_def)
qed

lemma dependents_keys: "set (dependents edges q) \<subseteq> fst ` set edges"
proof -
  have inner: "set (fold (push_dependent name) deps m q) \<subseteq> insert name (set (m q))"
    for name deps and m :: "string \<Rightarrow> string list"
  proof (induction deps arbitrary: m)
    case (Cons dep deps)
    from Cons.IH [of "push_dependent name dep m"] show ?case by (auto simp: push_dependent_def split: if_splits)
  qed auto
  have "set (fold (\<lambda>(name, deps). fold (push_dependent name) deps) es m q) \<subseteq> fst ` set es \<union> set (m q)"
    for es :: edge_map and m
  proof (induction es arbitrary: m)
    case (Cons e es)
    obtain n ds where e: "e = (n, ds)" by fastforce
    show ?case using Cons.IH [of "fold (push_dependent n) ds m"] inner [of n ds m] by (auto simp: e)
  qed simp
  from this [of edges "\<lambda>_. []"] show ?thesis by (simp add: dependents_def)
qed

lemma visit_queue_decreases:
  assumes "visit_queue (dependents edges) q deg [] = (deg', nxt)" and "nxt \<noteq> []"
  shows "card {n \<in> fst ` set edges. 0 < deg' n} < card {n \<in> fst ` set edges. 0 < deg n}"
proof (rule psubset_card_mono)
  let ?ds = "concat (map (dependents edges) q)"
  from visit_dependents_spec [of ?ds deg "[]"] assms(1)
  have d: "deg' = (\<lambda>x. deg x - int (count_list ?ds x))"
    and n: "set nxt = {x. 0 < deg x \<and> deg x \<le> int (count_list ?ds x)}" by (auto simp: visit_queue_concat)
  from assms(2) obtain x where x: "x \<in> set nxt" by (meson list.set_sel(1))
  with n have "0 < deg x" "\<not> 0 < deg' x" and "count_list ?ds x \<noteq> 0" by (auto simp: d)
  moreover have "x \<in> fst ` set edges"
  proof -
    from \<open>count_list ?ds x \<noteq> 0\<close> have "x \<in> set ?ds" using count_notin by metis
    then show ?thesis using dependents_keys [of edges] by auto
  qed
  ultimately show "{n \<in> fst ` set edges. 0 < deg' n} \<subset> {n \<in> fst ` set edges. 0 < deg n}"
    by (auto simp: d)
qed simp

function kahn_loop ::
  "edge_map \<Rightarrow> (string \<Rightarrow> int) \<Rightarrow> string list \<Rightarrow> string list list \<Rightarrow> string list \<Rightarrow> string list list \<times> string list" where
  "kahn_loop edges deg queue levels ord =
     (if queue = [] then (levels, ord)
      else
        (let (deg', nxt) = visit_queue (dependents edges) queue deg []
         in kahn_loop edges deg' (sort nxt) (levels @ [queue]) (ord @ queue)))"
  by pat_completeness auto
termination
proof (relation "measure (\<lambda>(edges, deg, queue, _, _).
    if queue = [] then 0 else Suc (card {n \<in> fst ` set edges. 0 < deg n}))")
qed (auto dest!: sym [of "(_, _)"] dest: visit_queue_decreases simp flip: set_empty)

declare kahn_loop.simps [simp del]

definition kahnSort :: "(string \<times> 'n) list \<Rightarrow> edge_map \<Rightarrow> string list list \<times> string list" where
  "kahnSort nodes edges =
     (if nodes = [] then ([], [])
      else
        (let inDegree = inDegrees nodes edges;
             queue = sort (map fst (filter (\<lambda>(name, deg). deg = 0) inDegree));
             deg = (\<lambda>n. case map_of inDegree n of None \<Rightarrow> 0 | Some d \<Rightarrow> d)
         in kahn_loop edges deg queue [] []))"

subsection \<open>Reporting a cycle\<close>

definition formatCycle :: "string list \<Rightarrow> string" where
  "formatCycle cycle =
     (case cycle of [] \<Rightarrow> ''dependency cycle detected''
      | c # cs \<Rightarrow> foldl (\<lambda>result d. result @ '' -> '' @ d) c cs)"

text \<open>
  One turn of the walk looks for the first dependency, in alphabetical order, that was not
  sorted. Each turn that does not return records a new name, so the walk ends.
\<close>

function cycle_walk ::
  "edge_map \<Rightarrow> string list \<Rightarrow> string list \<Rightarrow> string \<Rightarrow> string list \<Rightarrow> (string \<Rightarrow> nat option) \<Rightarrow> string list" where
  "cycle_walk edges visited remaining current path seen =
     (case find (\<lambda>dep. dep \<notin> set visited) (sort (edge_deps edges current)) of
        None \<Rightarrow> remaining
      | Some dep \<Rightarrow>
          (case seen dep of
             Some idx \<Rightarrow> drop idx path @ [dep]
           | None \<Rightarrow>
               cycle_walk edges visited remaining dep (path @ [dep]) (seen(dep \<mapsto> length path))))"
  by pat_completeness auto
termination
proof (relation "measure (\<lambda>(edges, _, _, _, _, seen).
    card {d \<in> set (concat (map snd edges)). seen d = None})", simp_all only: in_measure prod.case wf_measure)
  fix edges :: edge_map and visited current dep and path :: "string list" and seen :: "string \<Rightarrow> nat option"
  assume f: "find (\<lambda>dep. dep \<notin> set visited) (sort (edge_deps edges current)) = Some dep" and s: "seen dep = None"
  have "dep \<in> set (edge_deps edges current)"
    using f by (metis find_Some_iff nth_mem set_sort)
  then have "dep \<in> set (concat (map snd edges))"
    using map_of_SomeD [of edges current] by (force simp: edge_deps_def split: option.splits)
  with s have "{d \<in> set (concat (map snd edges)). (seen(dep \<mapsto> length path)) d = None} \<subset>
      {d \<in> set (concat (map snd edges)). seen d = None}" by auto
  then show "card {d \<in> set (concat (map snd edges)). (seen(dep \<mapsto> length path)) d = None} <
      card {d \<in> set (concat (map snd edges)). seen d = None}" by (rule psubset_card_mono [rotated]) simp
qed

declare cycle_walk.simps [simp del]

definition remaining_nodes :: "(string \<times> 'n) list \<Rightarrow> string list \<Rightarrow> string list" where
  "remaining_nodes nodes visited = sort (filter (\<lambda>name. name \<notin> set visited) (map fst nodes))"

definition findCycle :: "(string \<times> 'n) list \<Rightarrow> edge_map \<Rightarrow> string list \<Rightarrow> string" where
  "findCycle nodes edges visited =
     (case remaining_nodes nodes visited of
        [] \<Rightarrow> ''dependency cycle detected (unknown nodes)''
      | start # rest \<Rightarrow> formatCycle (cycle_walk edges visited (start # rest) start [start] [start \<mapsto> 0]))"

subsection \<open>The plan\<close>

text \<open>A value of the interface type \<^verbatim>\<open>RegisteredAnalyzer\<close> may be nil: \<open>None\<close>.\<close>

text \<open>\<^verbatim>\<open>Levels\<close> and \<^verbatim>\<open>Order\<close> return copies, so a plan cannot change after it was built.\<close>

record DAG =
  dag_levels :: "string list list"
  dag_order :: "string list"
  dag_edges :: edge_map
  dag_nodes :: "(string \<times> RegisteredAnalyzer option) list"

definition DAG_Levels :: "DAG \<Rightarrow> string list list" where
  "DAG_Levels d = dag_levels d"

definition DAG_Order :: "DAG \<Rightarrow> string list" where
  "DAG_Order d = dag_order d"

definition node_of :: "DAG \<Rightarrow> string \<Rightarrow> RegisteredAnalyzer option" where
  "node_of d name = (case map_of (dag_nodes d) name of None \<Rightarrow> None | Some a \<Rightarrow> a)"

definition DAG_Analyzers :: "DAG \<Rightarrow> RegisteredAnalyzer option list" where
  "DAG_Analyzers d = map (node_of d) (dag_order d)"

text \<open>The first missing dependency met by the loops over the registry.\<close>

fun find_missing :: "analyzer_map \<Rightarrow> analyzer_map \<Rightarrow> (string \<times> string) option" where
  "find_missing r [] = None"
| "find_missing r ((name, a) # rest) =
     (case find (\<lambda>dep. map_of r dep = None) (DependsOn a) of
        Some dep \<Rightarrow> Some (name, dep)
      | None \<Rightarrow> find_missing r rest)"

definition registry_edges :: "analyzer_map \<Rightarrow> edge_map" where
  "registry_edges r = map (\<lambda>(name, a). (name, DependsOn a)) r"

definition BuildDAG :: "analyzer_map \<Rightarrow> analyzer_error + DAG" where
  "BuildDAG r =
     (case find_missing r r of
        Some (name, dep) \<Rightarrow> Inl (ErrMissingDependency name dep)
      | None \<Rightarrow>
          (let edges = registry_edges r;
               (levels, ord) = kahnSort r edges
           in if length ord \<noteq> length r then Inl (ErrCycleDetected (findCycle r edges ord))
              else Inr \<lparr>dag_levels = levels, dag_order = ord, dag_edges = edges,
                        dag_nodes = map (\<lambda>(name, a). (name, Some a)) r\<rparr>))"

text \<open>
  The recursive closure \<^verbatim>\<open>walk\<close>, with its call stack explicit: the names still to be walked
  by the enclosing calls, innermost first. \<open>needed\<close> lists the keys of the map.
\<close>

function walk :: "edge_map \<Rightarrow> string list \<Rightarrow> string list \<Rightarrow> string list" where
  "walk edges [] needed = needed"
| "walk edges (name # stack) needed =
     (if name \<in> set needed then walk edges stack needed
      else walk edges (edge_deps edges name @ stack) (needed @ [name]))"
  by pat_completeness auto
termination
proof (relation "measures [\<lambda>(edges, _, needed). card (fst ` set edges - set needed), \<lambda>(_, stack, _). length stack]")
  fix edges :: edge_map and name :: string and stack needed :: "string list"
  assume n: "name \<notin> set needed"
  show "((edges, edge_deps edges name @ stack, needed @ [name]), edges, name # stack, needed)
    \<in> measures [\<lambda>(edges, _, needed). card (fst ` set edges - set needed), \<lambda>(_, stack, _). length stack]"
  proof (cases "name \<in> fst ` set edges")
    case True
    with n have "fst ` set edges - set (needed @ [name]) \<subset> fst ` set edges - set needed" by auto
    then have "card (fst ` set edges - set (needed @ [name])) < card (fst ` set edges - set needed)"
      by (rule psubset_card_mono [rotated]) simp
    then show ?thesis by simp
  next
    case False
    then have "fst ` set edges - set (needed @ [name]) = fst ` set edges - set needed" by auto
    moreover have "edge_deps edges name = []" using False by (rule edge_deps_outside)
    ultimately show ?thesis by simp
  qed
qed auto

definition Subset :: "DAG \<Rightarrow> string list \<Rightarrow> analyzer_error + DAG" where
  "Subset d names =
     (case find (\<lambda>name. map_of (dag_nodes d) name = None) names of
        Some name \<Rightarrow> Inl (ErrNotFound name)
      | None \<Rightarrow>
          (let needed = walk (dag_edges d) names [];
               subNodes = map (\<lambda>name. (name, node_of d name)) needed;
               subEdges = map (\<lambda>name. (name, filter (\<lambda>dep. dep \<in> set needed) (edge_deps (dag_edges d) name))) needed;
               (levels, ord) = kahnSort subNodes subEdges
           in Inr \<lparr>dag_levels = levels, dag_order = ord, dag_edges = subEdges, dag_nodes = subNodes\<rparr>))"

subsection \<open>Specification: layers of a dependency graph\<close>

definition ready :: "string set \<Rightarrow> (string \<Rightarrow> string list) \<Rightarrow> string set \<Rightarrow> string set" where
  "ready K D don = {n \<in> K. n \<notin> don \<and> set (D n) \<subseteq> don}"

lemma ready_iff: "n \<in> ready K D don \<longleftrightarrow> n \<in> K \<and> n \<notin> don \<and> set (D n) \<subseteq> don"
  by (simp add: ready_def)

text \<open>The layers of a finite graph: everything whose dependencies are all in earlier layers.\<close>

function layers :: "string set \<Rightarrow> (string \<Rightarrow> string list) \<Rightarrow> string set \<Rightarrow> string list list" where
  "layers K D don =
     (if finite K \<and> ready K D don \<noteq> {}
      then sorted_list_of_set (ready K D don) # layers K D (don \<union> ready K D don) else [])"
  by pat_completeness auto
termination
proof (relation "measure (\<lambda>(K, D, don). card (K - don))", simp_all only: in_measure prod.case wf_measure)
  fix K don :: "string set" and D
  assume a: "finite K \<and> ready K D don \<noteq> {}"
  then have "K - (don \<union> ready K D don) \<subset> K - don" by (auto simp: ready_def)
  with a show "card (K - (don \<union> ready K D don)) < card (K - don)" by (simp add: psubset_card_mono)
qed

declare layers.simps [simp del]

definition dep_rel :: "string set \<Rightarrow> (string \<Rightarrow> string list) \<Rightarrow> (string \<times> string) set" where
  "dep_rel K D = {(d, n). n \<in> K \<and> d \<in> set (D n)}"

text \<open>
  The contract of a dependency graph: finitely many nodes. The lemmas describe its layers;
  both the full plan and a restriction of it are instances.
\<close>

locale dep_graph =
  fixes K :: "string set" and D :: "string \<Rightarrow> string list"
  assumes finite_nodes: "finite K"
begin

lemma finite_ready [simp]: "finite (ready K D don)"
  using finite_nodes by (simp add: ready_def)

lemma layers_Nil: "ready K D don = {} \<Longrightarrow> layers K D don = []"
  by (subst layers.simps) simp

lemma layers_Cons:
  "ready K D don \<noteq> {} \<Longrightarrow>
     layers K D don = sorted_list_of_set (ready K D don) # layers K D (don \<union> ready K D don)"
  using finite_nodes by (subst layers.simps) simp

lemma layers_index_ready: "i < length (layers K D don) \<Longrightarrow> ready K D don \<noteq> {}"
  by (intro notI) (simp add: layers_Nil)

lemma layers_induct [case_names step]:
  assumes "\<And>don. (ready K D don \<noteq> {} \<Longrightarrow> P (don \<union> ready K D don)) \<Longrightarrow> P don"
  shows "P don"
proof (induction "card (K - don)" arbitrary: don rule: less_induct)
  case less
  show ?case
  proof (rule assms)
    assume "ready K D don \<noteq> {}"
    then have "K - (don \<union> ready K D don) \<subset> K - don" by (auto simp: ready_def)
    then show "P (don \<union> ready K D don)"
      using finite_nodes by (intro less) (simp add: psubset_card_mono)
  qed
qed

lemma layers_nonempty: "level \<in> set (layers K D don) \<Longrightarrow> level \<noteq> [] \<and> sorted level \<and> distinct level"
proof (induction don rule: layers_induct)
  case (step don)
  show ?case
  proof (cases "ready K D don = {}")
    case True
    with step.prems show ?thesis by (simp add: layers_Nil)
  next
    case False
    have "level = sorted_list_of_set (ready K D don) \<or> level \<in> set (layers K D (don \<union> ready K D don))"
      using step.prems unfolding layers_Cons [OF False] by (simp only: list.set insert_iff)
    then show ?thesis
    proof
      assume "level = sorted_list_of_set (ready K D don)"
      then show ?thesis using False by simp
    qed (rule step.IH [OF False])
  qed
qed

lemma layers_distinct: "distinct (concat (layers K D don)) \<and> set (concat (layers K D don)) \<subseteq> K - don"
proof (induction don rule: layers_induct)
  case (step don)
  show ?case
  proof (cases "ready K D don = {}")
    case False
    have R: "ready K D don \<subseteq> K - don" by (auto simp: ready_iff)
    note IH = step [OF False]
    have "distinct (concat (layers K D don))"
      unfolding layers_Cons [OF False] using IH by (simp add: ready_iff) blast
    moreover have "set (concat (layers K D don)) \<subseteq> K - don"
      unfolding layers_Cons [OF False] using IH R by simp blast
    ultimately show ?thesis by blast
  qed (simp add: layers_Nil)
qed

lemma layers_topological:
  "i < length (layers K D don) \<Longrightarrow> n \<in> set (layers K D don ! i) \<Longrightarrow> d \<in> set (D n) \<Longrightarrow>
     d \<in> don \<or> (\<exists>j < i. d \<in> set (layers K D don ! j))"
proof (induction don arbitrary: i rule: layers_induct)
  case (step don)
  let ?R = "ready K D don"
  have ne: "?R \<noteq> {}" using step.prems(1) by (rule layers_index_ready)
  note l = layers_Cons [OF ne]
  show ?case
  proof (cases i)
    case 0
    with step.prems l have "n \<in> ?R" by simp
    then show ?thesis using step.prems(3) by (auto simp: ready_iff)
  next
    case (Suc k)
    with step.prems l step.IH [OF ne, of k] have "d \<in> don \<union> ?R \<or> (\<exists>j < k. d \<in> set (layers K D (don \<union> ?R) ! j))" by simp
    then consider "d \<in> don" | "d \<in> set (layers K D don ! 0)" | j where "j < k" "d \<in> set (layers K D don ! Suc j)"
      using l by auto
    then show ?thesis using Suc by cases auto
  qed
qed

lemma layers_tight:
  "Suc i < length (layers K D don) \<Longrightarrow> n \<in> set (layers K D don ! Suc i) \<Longrightarrow>
     \<exists>d \<in> set (D n). d \<in> set (layers K D don ! i)"
proof (induction don arbitrary: i rule: layers_induct)
  case (step don)
  let ?R = "ready K D don" and ?S = "ready K D (don \<union> ready K D don)"
  have ne: "?R \<noteq> {}" using step.prems(1) by (intro layers_index_ready [of "Suc i"])
  note l = layers_Cons [OF ne]
  show ?case
  proof (cases i)
    case 0
    have "?S \<noteq> {}" using step.prems(1) l 0 by (intro layers_index_ready [of 0]) simp
    from layers_Cons [OF this] have "n \<in> ?S" using step.prems(2) l 0 by simp
    then have n: "n \<in> K" "n \<notin> don" "n \<notin> ?R" "set (D n) \<subseteq> don \<union> ?R"
      unfolding ready_iff [of n K D "don \<union> ?R"] by blast+
    from n(1-3) have "\<not> set (D n) \<subseteq> don" unfolding ready_iff by blast
    with n(4) have "\<exists>d \<in> set (D n). d \<in> ?R" by blast
    then show ?thesis using l 0 by simp
  next
    case (Suc k)
    with step.prems l step.IH [OF ne, of k] show ?thesis by simp
  qed
qed

lemma layers_complete: "ready K D (don \<union> set (concat (layers K D don))) = {}"
proof (induction don rule: layers_induct)
  case (step don)
  show ?case
  proof (cases "ready K D don = {}")
    case False
    with step [OF False] show ?thesis by (simp add: layers_Cons [OF False] Un_assoc)
  qed (simp add: layers_Nil)
qed

lemma layers_restrict:
  assumes "N \<subseteq> K" and closed: "\<And>n. n \<in> N \<Longrightarrow> set (D n) \<subseteq> N"
  shows "layers N D (don \<inter> N) = filter (\<lambda>level. level \<noteq> []) (map (filter (\<lambda>n. n \<in> N)) (layers K D don))"
proof (induction don rule: layers_induct)
  case (step don)
  let ?R = "ready K D don"
  have fin: "finite N" using assms(1) finite_nodes by (rule finite_subset)
  have R: "ready N D (don \<inter> N) = ?R \<inter> N" using assms by (auto simp: ready_iff)
  have un: "don \<inter> N \<union> ?R \<inter> N = (don \<union> ?R) \<inter> N" by blast
  have fl: "filter (\<lambda>n. n \<in> N) (sorted_list_of_set ?R) = sorted_list_of_set (?R \<inter> N)"
    by (rule sorted_distinct_set_unique) (auto simp: sorted_wrt_filter)
  show ?case
  proof (cases "?R = {}")
    case True
    then show ?thesis using R by (simp add: layers.simps [of N _ "don \<inter> N"] layers_Nil)
  next
    case False
    note IH = step [OF False]
    note l = layers_Cons [OF False]
    show ?thesis
    proof (cases "?R \<inter> N = {}")
      case True
      then have "(don \<union> ?R) \<inter> N = don \<inter> N" by blast
      with IH fl True show ?thesis by (simp add: l)
    next
      case ne: False
      then have "layers N D (don \<inter> N) = sorted_list_of_set (?R \<inter> N) # layers N D ((don \<union> ?R) \<inter> N)"
        using R fin un by (simp add: layers.simps [of N _ "don \<inter> N"])
      with IH fl ne show ?thesis by (simp add: l)
    qed
  qed
qed

end

interpretation edge_graph: dep_graph "fst ` set edges" "edge_deps edges" for edges
  by unfold_locales simp

subsection \<open>Kahn's algorithm computes the layers\<close>

lemma sum_count_list:
  "distinct q \<Longrightarrow> sum_list (map (count_list xs) q) = length (filter (\<lambda>d. d \<in> set q) xs)"
proof (induction q)
  case (Cons a q)
  have "length (filter (\<lambda>d. d = a \<or> d \<in> set q) xs) = count_list xs a + length (filter (\<lambda>d. d \<in> set q) xs)"
    using Cons.prems by (induction xs) auto
  with Cons show ?case by simp
qed simp

lemma count_list_concat_map: "count_list (concat (map f q)) x = sum_list (map (\<lambda>d. count_list (f d) x) q)"
  by (induction q) auto

lemma length_filter_minus:
  "Q \<inter> don = {} \<Longrightarrow> int (length (filter (\<lambda>d. d \<notin> don) xs)) - int (length (filter (\<lambda>d. d \<in> Q) xs)) =
     int (length (filter (\<lambda>d. d \<notin> don \<union> Q) xs))"
  by (induction xs) auto

text \<open>The in-degree of a node counts its dependencies that are not sorted yet.\<close>

definition degree_inv :: "edge_map \<Rightarrow> string set \<Rightarrow> (string \<Rightarrow> int) \<Rightarrow> bool" where
  "degree_inv edges don deg \<longleftrightarrow>
     deg = (\<lambda>n. int (length (filter (\<lambda>d. d \<notin> don) (edge_deps edges n)))) \<and>
     (\<forall>n \<in> don. set (edge_deps edges n) \<subseteq> don)"

lemma length_filter_pos: "0 < length (filter P xs) \<longleftrightarrow> (\<exists>x \<in> set xs. P x)"
  by (induction xs) auto

lemma visit_queue_layer:
  fixes edges don
  defines "Q \<equiv> ready (fst ` set edges) (edge_deps edges) don"
  assumes d: "distinct (map fst edges)" and inv: "degree_inv edges don deg"
  shows "\<exists>deg' nxt. visit_queue (dependents edges) (sorted_list_of_set Q) deg [] = (deg', nxt) \<and>
    degree_inv edges (don \<union> Q) deg' \<and> sort nxt = sorted_list_of_set (ready (fst ` set edges) (edge_deps edges) (don \<union> Q))"
proof -
  let ?q = "sorted_list_of_set Q" and ?D = "edge_deps edges" and ?K = "fst ` set edges"
  let ?ds = "concat (map (dependents edges) ?q)"
  have fin: "finite Q" by (simp add: Q_def)
  have disj: "Q \<inter> don = {}" and QD: "\<And>n. n \<in> Q \<Longrightarrow> set (?D n) \<subseteq> don" by (auto simp: Q_def ready_iff)
  have cnt: "count_list ?ds x = length (filter (\<lambda>d. d \<in> Q) (?D x))" for x
    using sum_count_list [of ?q "?D x"] fin by (simp add: count_list_concat_map dependents_count [OF d])
  from visit_dependents_spec [of ?ds deg "[]"] obtain nxt where
    v: "visit_queue (dependents edges) ?q deg [] = (\<lambda>x. deg x - int (count_list ?ds x), nxt)" "distinct nxt"
      "set nxt = {x. 0 < deg x \<and> deg x \<le> int (count_list ?ds x)}" by (auto simp: visit_queue_concat)
  have closed: "set (?D n) \<subseteq> don" if "n \<in> don" for n using inv that by (simp add: degree_inv_def)
  have deg: "deg x = int (length (filter (\<lambda>d. d \<notin> don) (?D x)))" for x using inv by (simp add: degree_inv_def)
  have deg': "deg x - int (count_list ?ds x) = int (length (filter (\<lambda>d. d \<notin> don \<union> Q) (?D x)))" for x
    unfolding cnt deg using disj by (rule length_filter_minus)
  have "x \<in> set nxt \<longleftrightarrow> x \<in> ready ?K ?D (don \<union> Q)" for x
  proof -
    have "x \<in> set nxt \<longleftrightarrow> \<not> set (?D x) \<subseteq> don \<and> set (?D x) \<subseteq> don \<union> Q"
    proof -
      have "0 < deg x \<longleftrightarrow> \<not> set (?D x) \<subseteq> don"
        using length_filter_pos [of "\<lambda>d. d \<notin> don" "?D x"] unfolding deg [of x] by auto
      moreover have "deg x \<le> int (count_list ?ds x) \<longleftrightarrow> set (?D x) \<subseteq> don \<union> Q"
      proof -
        have "deg x \<le> int (count_list ?ds x) \<longleftrightarrow> \<not> 0 < length (filter (\<lambda>d. d \<notin> don \<union> Q) (?D x))"
          using deg' [of x] by linarith
        then show ?thesis unfolding length_filter_pos by blast
      qed
      ultimately show ?thesis using v(3) by blast
    qed
    moreover have "x \<in> ?K" if "\<not> set (?D x) \<subseteq> don" using that edge_deps_outside [of x edges] by force
    moreover have "\<not> set (?D x) \<subseteq> don \<longleftrightarrow> x \<notin> don \<union> Q" if "x \<in> ?K"
      using that closed QD by (auto simp: Q_def ready_iff)
    ultimately show ?thesis unfolding ready_iff by blast
  qed
  then have "set nxt = ready ?K ?D (don \<union> Q)" by blast
  then have "sort nxt = sorted_list_of_set (ready ?K ?D (don \<union> Q))"
    using v(2) sorted_list_of_set_sort_remdups [of nxt] by (simp add: distinct_remdups_id)
  moreover have "degree_inv edges (don \<union> Q) (\<lambda>x. deg x - int (count_list ?ds x))"
    unfolding degree_inv_def deg' using closed QD by blast
  ultimately show ?thesis using v(1) by blast
qed

lemma kahn_loop_layers:
  assumes "distinct (map fst edges)"
  shows "degree_inv edges don deg \<Longrightarrow>
    kahn_loop edges deg (sorted_list_of_set (ready (fst ` set edges) (edge_deps edges) don)) lv ord =
      (lv @ layers (fst ` set edges) (edge_deps edges) don, ord @ concat (layers (fst ` set edges) (edge_deps edges) don))"
proof (induction don arbitrary: deg lv ord rule: edge_graph.layers_induct [where edges = edges])
  case (step don)
  show ?case
  proof (cases "ready (fst ` set edges) (edge_deps edges) don = {}")
    case True
    then show ?thesis by (simp add: kahn_loop.simps edge_graph.layers_Nil)
  next
    case False
    from visit_queue_layer [OF assms step.prems] obtain deg' nxt where
      v: "visit_queue (dependents edges) (sorted_list_of_set (ready (fst ` set edges) (edge_deps edges) don)) deg [] = (deg', nxt)"
        "degree_inv edges (don \<union> ready (fst ` set edges) (edge_deps edges) don) deg'"
        "sort nxt = sorted_list_of_set (ready (fst ` set edges) (edge_deps edges) (don \<union> ready (fst ` set edges) (edge_deps edges) don))"
      by blast
    show ?thesis
      using False unfolding edge_graph.layers_Cons [OF False]
      by (subst kahn_loop.simps) (simp add: v step.IH [OF False v(2)])
  qed
qed

lemma map_of_inDegrees:
  assumes "distinct (map fst edges)"
  shows "map_of (inDegrees nodes edges) n =
    (if n \<in> fst ` set edges then Some (int (length (edge_deps edges n)))
     else if n \<in> fst ` set nodes then Some 0 else None)"
proof -
  have "distinct (map fst es) \<Longrightarrow> map_of (fold (\<lambda>(name, deps). AList.update name (int (length deps))) es m) n =
      (if n \<in> fst ` set es then Some (int (length (edge_deps es n))) else map_of m n)" for es m
  proof (induction es arbitrary: m)
    case (Cons e es)
    obtain k ds where e: "e = (k, ds)" by fastforce
    with Cons show ?case by (auto simp: update_conv' edge_deps_def)
  qed simp
  moreover have "map_of (map (\<lambda>(name, _). (name, 0::int)) nodes) n = (if n \<in> fst ` set nodes then Some 0 else None)"
    by (induction nodes) auto
  ultimately show ?thesis using assms by (simp add: inDegrees_def)
qed

lemma distinct_inDegrees: "distinct (map fst nodes) \<Longrightarrow> distinct (map fst (inDegrees nodes edges))"
proof -
  have "distinct (map fst m) \<Longrightarrow> distinct (map fst (fold (\<lambda>(name, deps). AList.update name (int (length deps))) es m))"
    for es :: edge_map and m
    by (induction es arbitrary: m) (auto simp: distinct_update)
  moreover have "map fst (map (\<lambda>(name, _). (name, 0::int)) nodes) = map fst nodes" by auto
  ultimately show "distinct (map fst nodes) \<Longrightarrow> distinct (map fst (inDegrees nodes edges))"
    unfolding inDegrees_def by metis
qed

lemma kahnSort_layers:
  assumes "distinct (map fst nodes)" and "distinct (map fst edges)" and k: "fst ` set nodes = fst ` set edges"
  shows "kahnSort nodes edges =
    (layers (fst ` set edges) (edge_deps edges) {}, concat (layers (fst ` set edges) (edge_deps edges) {}))"
proof (cases "nodes = []")
  case True
  then have "ready (fst ` set edges) (edge_deps edges) {} = {}" using k by (auto simp: ready_iff)
  with True show ?thesis by (simp add: kahnSort_def edge_graph.layers_Nil)
next
  case False
  let ?m = "inDegrees nodes edges" and ?K = "fst ` set edges" and ?D = "edge_deps edges"
  let ?z = "map fst (filter (\<lambda>(name, deg). deg = 0) ?m)"
  have dm: "distinct (map fst ?m)" using assms(1) by (rule distinct_inDegrees)
  have "set ?z = {n. map_of ?m n = Some 0}" using dm by (force simp: map_of_eq_Some_iff)
  also have "\<dots> = ready ?K ?D {}" using k by (auto simp: map_of_inDegrees [OF assms(2)] ready_iff split: if_splits simp del: fst_conv)
  finally have "set ?z = ready ?K ?D {}" .
  moreover have "distinct ?z" using dm by (simp add: distinct_map_filter)
  ultimately have q: "sort ?z = sorted_list_of_set (ready ?K ?D {})"
    using sorted_list_of_set_sort_remdups [of ?z] by (simp add: distinct_remdups_id)
  have "degree_inv edges {} (\<lambda>n. case map_of ?m n of None \<Rightarrow> 0 | Some d \<Rightarrow> d)"
    by (auto simp: degree_inv_def map_of_inDegrees [OF assms(2)] edge_deps_outside fun_eq_iff)
  from kahn_loop_layers [OF assms(2) this, of "[]" "[]"] False q show ?thesis by (simp add: kahnSort_def)
qed

subsection \<open>Complete plans and cycles\<close>

context dep_graph
begin

lemma layers_cover_acyclic:
  assumes cover: "set (concat (layers K D {})) = K"
  shows "acyclic (dep_rel K D)"
proof -
  let ?L = "layers K D {}"
  define rank where "rank n = (LEAST i. i < length ?L \<and> n \<in> set (?L ! i))" for n
  have at: "rank n < length ?L \<and> n \<in> set (?L ! rank n)" if "n \<in> K" for n
  proof -
    from that cover obtain level where "level \<in> set ?L" "n \<in> set level" by auto
    then obtain i where "i < length ?L \<and> n \<in> set (?L ! i)" by (metis in_set_conv_nth)
    then show ?thesis unfolding rank_def by (rule LeastI)
  qed
  have "dep_rel K D \<subseteq> measure rank"
  proof (rule subrelI)
    fix d n assume "(d, n) \<in> dep_rel K D"
    then have n: "n \<in> K" "d \<in> set (D n)" by (auto simp: dep_rel_def)
    with at [OF n(1)] layers_topological [of "rank n" "{}" n d] obtain j where
      j: "j < rank n" "d \<in> set (?L ! j)" by auto
    then have "rank d \<le> j" unfolding rank_def [of d] using at [OF n(1)] by (intro Least_le) simp
    with j show "(d, n) \<in> measure rank" by simp
  qed
  then show ?thesis using wf_subset [OF wf_measure] wf_acyclic by blast
qed

lemma acyclic_layers_cover:
  assumes "acyclic (dep_rel K D)" and closed: "\<And>n. n \<in> K \<Longrightarrow> set (D n) \<subseteq> K"
  shows "set (concat (layers K D {})) = K"
proof (rule ccontr)
  let ?F = "set (concat (layers K D {}))"
  assume "?F \<noteq> K"
  then obtain n0 where n0: "n0 \<in> K - ?F" using layers_distinct [of "{}"] by blast
  have "dep_rel K D \<subseteq> K \<times> K" using closed by (auto simp: dep_rel_def)
  then have "finite (dep_rel K D)" using finite_nodes by (meson finite_SigmaI finite_subset)
  with assms(1) have "wf (dep_rel K D)" by (rule finite_acyclic_wf [rotated])
  then obtain n where n: "n \<in> K - ?F" and m: "\<And>d. (d, n) \<in> dep_rel K D \<Longrightarrow> d \<notin> K - ?F"
    using n0 by (rule wfE_min) blast
  have "set (D n) \<subseteq> ?F"
  proof
    fix d assume d: "d \<in> set (D n)"
    then have "(d, n) \<in> dep_rel K D" using n by (simp add: dep_rel_def)
    from m [OF this] closed [of n] d n show "d \<in> ?F" by blast
  qed
  then have "n \<in> ready K D ({} \<union> ?F)" using n unfolding ready_iff by simp
  then show False unfolding layers_complete by simp
qed

lemma blocked_has_dep:
  assumes closed: "\<And>n. n \<in> K \<Longrightarrow> set (D n) \<subseteq> K" and "n \<in> K" and "n \<notin> set (concat (layers K D {}))"
  shows "\<exists>d \<in> set (D n). d \<in> K \<and> d \<notin> set (concat (layers K D {}))"
proof (rule ccontr)
  let ?F = "set (concat (layers K D {}))"
  assume "\<not> ?thesis"
  with closed [OF assms(2)] have "set (D n) \<subseteq> ?F" by blast
  then have "n \<in> ready K D ({} \<union> ?F)" using assms(2,3) unfolding ready_iff by simp
  then show False unfolding layers_complete by simp
qed

end

lemma layers_cong:
  assumes "finite K" and agree: "\<And>n. n \<in> K \<Longrightarrow> D n = D' n"
  shows "layers K D don = layers K D' don"
proof -
  have dg: "dep_graph K" using assms(1) by (rule dep_graph.intro)
  have r: "ready K D don = ready K D' don" for don using agree by (auto simp: ready_def)
  show ?thesis
  proof (induction don rule: dep_graph.layers_induct [OF dg, where D = D, case_names step])
    case (step don)
    then show ?case
      by (cases "ready K D don = {}") (simp_all add: layers.simps [of K D don] layers.simps [of K D' don] r)
  qed
qed

text \<open>A closed walk along dependencies, written with its first node repeated at the end.\<close>

definition is_dep_cycle :: "edge_map \<Rightarrow> string list \<Rightarrow> bool" where
  "is_dep_cycle edges c \<longleftrightarrow>
     2 \<le> length c \<and> hd c = last c \<and> (\<forall>i. Suc i < length c \<longrightarrow> c ! Suc i \<in> set (edge_deps edges (c ! i)))"

lemma cycle_walk_cycle:
  assumes R: "\<And>n. n \<in> R \<Longrightarrow> \<exists>d \<in> set (edge_deps edges n). d \<notin> set visited"
    and R': "\<And>n d. n \<in> R \<Longrightarrow> d \<in> set (edge_deps edges n) \<Longrightarrow> d \<notin> set visited \<Longrightarrow> d \<in> R"
  shows "path \<noteq> [] \<Longrightarrow> last path = current \<Longrightarrow> set path \<subseteq> R \<Longrightarrow>
    (\<And>i. Suc i < length path \<Longrightarrow> path ! Suc i \<in> set (edge_deps edges (path ! i))) \<Longrightarrow>
    (\<And>x i. seen x = Some i \<longleftrightarrow> i < length path \<and> path ! i = x) \<Longrightarrow>
    is_dep_cycle edges (cycle_walk edges visited remaining current path seen)"
  using assms
proof (induction edges visited remaining current path seen rule: cycle_walk.induct)
  case (1 edges visited remaining current path seen)
  note p = "1.prems"(1-5) and R = "1.prems"(6,7)
  have cur: "current \<in> R" using p(1-3) last_in_set by blast
  obtain dep where f: "find (\<lambda>dep. dep \<notin> set visited) (sort (edge_deps edges current)) = Some dep"
    using R(1) [OF cur] by (cases "find (\<lambda>dep. dep \<notin> set visited) (sort (edge_deps edges current))") (auto simp: find_None_iff)
  then have dep: "dep \<in> set (edge_deps edges current)" "dep \<notin> set visited"
    by (auto simp: find_Some_iff) (metis nth_mem set_sort length_sort)
  show ?case
  proof (cases "seen dep")
    case (Some idx)
    then have idx: "idx < length path" "path ! idx = dep" using p(5) by auto
    let ?c = "drop idx path @ [dep]"
    have "?c ! Suc i \<in> set (edge_deps edges (?c ! i))" if "Suc i < length ?c" for i
    proof (cases "Suc i < length path - idx")
      case True
      then show ?thesis using p(4) [of "idx + i"] by (simp add: nth_append)
    next
      case False
      with that idx have i: "Suc i = length path - idx" by simp
      then have "idx + i = length path - 1" using idx by simp
      then have "drop idx path ! i = last path" using p(1) idx by (simp add: last_conv_nth)
      with i p(2) dep show ?thesis by (simp add: nth_append)
    qed
    moreover have "hd ?c = dep" using idx by (simp add: hd_drop_conv_nth)
    ultimately have "is_dep_cycle edges ?c" using idx unfolding is_dep_cycle_def by simp
    with f Some show ?thesis by (simp add: cycle_walk.simps [of edges visited])
  next
    case None
    have "is_dep_cycle edges (cycle_walk edges visited remaining dep (path @ [dep]) (seen(dep \<mapsto> length path)))"
    proof (rule "1.IH" [OF f None])
      show "set (path @ [dep]) \<subseteq> R" using p(3) R(2) [OF cur dep] by simp
      show "(path @ [dep]) ! Suc i \<in> set (edge_deps edges ((path @ [dep]) ! i))" if "Suc i < length (path @ [dep])" for i
      proof (cases "Suc i < length path")
        case True
        then show ?thesis using p(4) by (simp add: nth_append)
      next
        case False
        with that have i: "length path = Suc i" by simp
        with p(1,2) have "path ! i = current" by (simp add: last_conv_nth)
        with i dep show ?thesis by (simp add: nth_append)
      qed
      show "(seen(dep \<mapsto> length path)) x = Some i \<longleftrightarrow> i < length (path @ [dep]) \<and> (path @ [dep]) ! i = x" for x i
        using p(5) [of x i] p(5) [of dep i] None by (auto simp: nth_append less_Suc_eq)
    qed (use R in auto)
    with f None show ?thesis by (simp add: cycle_walk.simps [of edges visited])
  qed
qed

subsection \<open>Building the plan\<close>

definition deps_of :: "analyzer_map \<Rightarrow> string \<Rightarrow> string list" where
  "deps_of r n = (case map_of r n of None \<Rightarrow> [] | Some a \<Rightarrow> DependsOn a)"

definition depends_rel :: "analyzer_map \<Rightarrow> (string \<times> string) set" where
  "depends_rel r = {(d, n). n \<in> fst ` set r \<and> d \<in> set (deps_of r n)}"

lemma edge_deps_registry: "edge_deps (registry_edges r) = deps_of r"
  by (rule ext, induction r) (auto simp: edge_deps_def deps_of_def registry_edges_def)

lemma registry_edges_keys [simp]: "map fst (registry_edges r) = map fst r" "fst ` set (registry_edges r) = fst ` set r"
  by (induction r) (auto simp: registry_edges_def)

lemma dep_rel_registry: "dep_rel (fst ` set r) (deps_of r) = depends_rel r"
  by (simp add: dep_rel_def depends_rel_def)

lemma deps_of_outside: "n \<notin> fst ` set r \<Longrightarrow> deps_of r n = []"
  using map_of_eq_None_iff [of r n] by (simp add: deps_of_def)

lemma find_missing_None:
  "find_missing r rs = None \<longleftrightarrow> (\<forall>(n, a) \<in> set rs. set (DependsOn a) \<subseteq> fst ` set r)"
  by (induction r rs rule: find_missing.induct)
    (auto simp: find_None_iff map_of_eq_None_iff find_Some_iff split: option.splits dest: nth_mem)

lemma find_missing_Some:
  "find_missing r rs = Some (n, d) \<Longrightarrow> \<exists>a. (n, a) \<in> set rs \<and> d \<in> set (DependsOn a) \<and> d \<notin> fst ` set r"
  by (induction r rs rule: find_missing.induct)
    (auto simp: map_of_eq_None_iff find_Some_iff split: option.splits intro: nth_mem)

lemma find_missing_closed:
  assumes "distinct (map fst r)"
  shows "find_missing r r = None \<longleftrightarrow> (\<forall>n. set (deps_of r n) \<subseteq> fst ` set r)"
proof
  assume "find_missing r r = None"
  then have "\<And>n a. map_of r n = Some a \<Longrightarrow> set (DependsOn a) \<subseteq> fst ` set r"
    unfolding find_missing_None by (fast dest: map_of_SomeD)
  then have "set (deps_of r n) \<subseteq> fst ` set r" for n by (cases "map_of r n") (simp_all add: deps_of_def)
  then show "\<forall>n. set (deps_of r n) \<subseteq> fst ` set r" by blast
next
  assume a: "\<forall>n. set (deps_of r n) \<subseteq> fst ` set r"
  have "set (DependsOn b) \<subseteq> fst ` set r" if "(n, b) \<in> set r" for n b
    using a [rule_format, of n] map_of_is_SomeI [OF assms that] by (simp add: deps_of_def)
  then show "find_missing r r = None" unfolding find_missing_None by blast
qed

lemma kahnSort_registry:
  "distinct (map fst r) \<Longrightarrow> kahnSort r (registry_edges r) =
     (layers (fst ` set r) (deps_of r) {}, concat (layers (fst ` set r) (deps_of r) {}))"
  using kahnSort_layers [of r "registry_edges r"] by (simp add: edge_deps_registry)

interpretation registry_graph: dep_graph "fst ` set r" "deps_of r" for r :: analyzer_map
  by unfold_locales simp

lemma layers_length_iff:
  assumes "distinct (map fst r)"
  shows "length (concat (layers (fst ` set r) (deps_of r) {})) = length r \<longleftrightarrow>
    set (concat (layers (fst ` set r) (deps_of r) {})) = fst ` set r"
proof -
  let ?o = "concat (layers (fst ` set r) (deps_of r) {})"
  have d: "distinct ?o" and s: "set ?o \<subseteq> fst ` set r" using registry_graph.layers_distinct [of r "{}"] by auto
  have "length r = card (fst ` set r)" using distinct_card [OF assms] by simp
  moreover have "length ?o = card (set ?o)" using distinct_card [OF d] by simp
  ultimately show ?thesis using card_subset_eq [OF _ s] by auto
qed

lemma BuildDAG_Inr:
  assumes "distinct (map fst r)"
  shows "BuildDAG r = Inr d \<longleftrightarrow>
    (\<forall>n. set (deps_of r n) \<subseteq> fst ` set r) \<and>
    set (concat (layers (fst ` set r) (deps_of r) {})) = fst ` set r \<and>
    d = \<lparr>dag_levels = layers (fst ` set r) (deps_of r) {}, dag_order = concat (layers (fst ` set r) (deps_of r) {}),
         dag_edges = registry_edges r, dag_nodes = map (\<lambda>(name, a). (name, Some a)) r\<rparr>"
  unfolding BuildDAG_def find_missing_closed [OF assms, symmetric] layers_length_iff [OF assms, symmetric]
  by (auto simp: kahnSort_registry [OF assms] Let_def split: option.splits if_splits)

lemma BuildDAG_cycle:
  assumes "distinct (map fst r)"
  shows "BuildDAG r = Inl (ErrCycleDetected m) \<longleftrightarrow>
    (\<forall>n. set (deps_of r n) \<subseteq> fst ` set r) \<and>
    set (concat (layers (fst ` set r) (deps_of r) {})) \<noteq> fst ` set r \<and>
    m = findCycle r (registry_edges r) (concat (layers (fst ` set r) (deps_of r) {}))"
  unfolding BuildDAG_def find_missing_closed [OF assms, symmetric] layers_length_iff [OF assms, symmetric]
  by (auto simp: kahnSort_registry [OF assms] Let_def split: option.splits if_splits)

lemma findCycle_is_cycle:
  assumes "distinct (map fst r)" and closed: "\<forall>n. set (deps_of r n) \<subseteq> fst ` set r"
    and inc: "set (concat (layers (fst ` set r) (deps_of r) {})) \<noteq> fst ` set r"
  shows "\<exists>c. findCycle r (registry_edges r) (concat (layers (fst ` set r) (deps_of r) {})) = formatCycle c \<and>
    is_dep_cycle (registry_edges r) c"
proof -
  let ?o = "concat (layers (fst ` set r) (deps_of r) {})" and ?E = "registry_edges r"
  define R where "R = fst ` set r - set ?o"
  have s: "set (remaining_nodes r ?o) = R" by (auto simp: remaining_nodes_def R_def)
  have "R \<noteq> {}" using inc registry_graph.layers_distinct [of r "{}"] unfolding R_def by blast
  with s obtain start rest where rem: "remaining_nodes r ?o = start # rest" "start \<in> R"
    by (cases "remaining_nodes r ?o") auto
  have "is_dep_cycle ?E (cycle_walk ?E ?o (start # rest) start [start] [start \<mapsto> 0])"
  proof (rule cycle_walk_cycle [of R])
    show "\<exists>d \<in> set (edge_deps ?E n). d \<notin> set ?o" if "n \<in> R" for n
      using that registry_graph.blocked_has_dep [of r n] closed unfolding edge_deps_registry R_def by blast
    show "d \<in> R" if "n \<in> R" "d \<in> set (edge_deps ?E n)" "d \<notin> set ?o" for n d
      using that closed unfolding edge_deps_registry R_def by blast
  qed (use rem in auto)
  then show ?thesis using rem(1) by (auto simp: findCycle_def)
qed

lemma is_dep_cycle_not_acyclic:
  assumes "is_dep_cycle (registry_edges r) c"
  shows "\<not> acyclic (depends_rel r)"
proof -
  have step: "(c ! Suc i, c ! i) \<in> depends_rel r" if "Suc i < length c" for i
  proof -
    have "c ! Suc i \<in> set (deps_of r (c ! i))" using assms that by (simp add: is_dep_cycle_def edge_deps_registry)
    moreover from this have "c ! i \<in> fst ` set r" using deps_of_outside [of "c ! i" r] by force
    ultimately show ?thesis by (simp add: depends_rel_def)
  qed
  have "(c ! Suc i, c ! 0) \<in> (depends_rel r)\<^sup>+" if "Suc i < length c" for i
    using that
  proof (induction i)
    case (Suc i)
    then show ?case using step [of "Suc i"] by (meson Suc_lessD trancl.trancl_into_trancl r_into_trancl trancl_trans)
  qed (use step [of 0] in auto)
  moreover have "2 \<le> length c" using assms by (simp add: is_dep_cycle_def)
  moreover from this have "Suc (length c - 2) = length c - 1" "c \<noteq> []" by auto
  ultimately have "(last c, hd c) \<in> (depends_rel r)\<^sup>+"
    by (metis last_conv_nth hd_conv_nth diff_less length_greater_0_conv zero_less_one)
  then show ?thesis using assms by (auto simp: is_dep_cycle_def acyclic_def)
qed

subsection \<open>Restricting the plan\<close>

lemma concat_nonempty: "concat (filter (\<lambda>level. level \<noteq> []) ls) = concat ls"
  by (induction ls) auto

lemma walk_superset: "set stack \<union> set needed \<subseteq> set (walk edges stack needed)"
  by (induction edges stack needed rule: walk.induct) auto

lemma walk_distinct: "distinct needed \<Longrightarrow> distinct (walk edges stack needed)"
  by (induction edges stack needed rule: walk.induct) auto

lemma walk_closed:
  "(\<And>n. n \<in> set needed \<Longrightarrow> set (edge_deps edges n) \<subseteq> set needed \<union> set stack) \<Longrightarrow>
     n \<in> set (walk edges stack needed) \<Longrightarrow> set (edge_deps edges n) \<subseteq> set (walk edges stack needed)"
proof (induction edges stack needed rule: walk.induct)
  case (2 edges name stack needed)
  show ?case
  proof (cases "name \<in> set needed")
    case True
    have "set (edge_deps edges m) \<subseteq> set needed \<union> set stack" if "m \<in> set needed" for m
      using "2.prems"(1) [OF that] True by auto
    with 2 True show ?thesis by simp
  next
    case False
    have "set (edge_deps edges m) \<subseteq> set (needed @ [name]) \<union> set (edge_deps edges name @ stack)"
      if "m \<in> set (needed @ [name])" for m
      using "2.prems"(1) [of m] that by auto
    with 2 False show ?thesis by simp
  qed
qed auto

lemma walk_reachable:
  assumes "\<And>m. m \<in> set stack \<union> set needed \<Longrightarrow> m \<in> S"
    and "\<And>m d. m \<in> S \<Longrightarrow> d \<in> set (edge_deps edges m) \<Longrightarrow> d \<in> S"
  shows "set (walk edges stack needed) \<subseteq> S"
  using assms by (induction edges stack needed rule: walk.induct) auto

text \<open>What \<open>names\<close> need: themselves and everything they depend on, directly or not.\<close>

definition required :: "analyzer_map \<Rightarrow> string list \<Rightarrow> string set" where
  "required r names = {d. \<exists>n \<in> set names. (d, n) \<in> (depends_rel r)\<^sup>*}"

lemma deps_of_depends: "d \<in> set (deps_of r n) \<Longrightarrow> (d, n) \<in> depends_rel r"
  using deps_of_outside [of n r] by (force simp: depends_rel_def)

lemma walk_required: "set (walk (registry_edges r) names []) = required r names"
proof
  show "set (walk (registry_edges r) names []) \<subseteq> required r names"
  proof (rule walk_reachable)
    show "m \<in> required r names" if "m \<in> set names \<union> set []" for m
      using that by (auto simp: required_def)
    show "d \<in> required r names" if "m \<in> required r names" "d \<in> set (edge_deps (registry_edges r) m)" for m d
      using that deps_of_depends [of d r m]
      by (auto simp: required_def edge_deps_registry intro: converse_rtrancl_into_rtrancl)
  qed
next
  let ?W = "set (walk (registry_edges r) names [])"
  have closed: "set (deps_of r n) \<subseteq> ?W" if "n \<in> ?W" for n
    using walk_closed [of "[]" "registry_edges r" names n] that by (simp add: edge_deps_registry)
  have "d \<in> ?W" if "(d, n) \<in> (depends_rel r)\<^sup>*" "n \<in> ?W" for d n
    using that by (induction rule: converse_rtrancl_induct) (auto simp: depends_rel_def dest: closed)
  then show "required r names \<subseteq> ?W" using walk_superset [of names "[]" "registry_edges r"] by (auto simp: required_def)
qed

lemma required_closed: "n \<in> required r names \<Longrightarrow> set (deps_of r n) \<subseteq> required r names"
  unfolding walk_required [symmetric]
  using walk_closed [of "[]" "registry_edges r" names n] by (simp add: edge_deps_registry)

lemma required_registered:
  assumes "\<forall>n. set (deps_of r n) \<subseteq> fst ` set r" and "set names \<subseteq> fst ` set r"
  shows "required r names \<subseteq> fst ` set r"
  unfolding walk_required [symmetric] using assms
  by (intro walk_reachable) (auto simp: edge_deps_registry)

lemma map_of_key_map: "map_of (map (\<lambda>n. (n, f n)) ns) n = (if n \<in> set ns then Some (f n) else None)"
  by (induction ns) auto

lemma edge_deps_restrict:
  assumes "n \<in> required r names"
  shows "edge_deps (map (\<lambda>n. (n, filter (\<lambda>d. d \<in> set (walk (registry_edges r) names [])) (deps_of r n)))
    (walk (registry_edges r) names [])) n = deps_of r n"
  using assms required_closed [OF assms]
  by (auto simp: edge_deps_def map_of_key_map walk_required intro: filter_True)

lemma Subset_found:
  assumes "distinct (map fst r)" and b: "BuildDAG r = Inr d" and "set names \<subseteq> fst ` set r"
  shows "\<exists>s. Subset d names = Inr s \<and> dag_order s = concat (dag_levels s) \<and>
    dag_levels s = layers (required r names) (deps_of r) {} \<and>
    map fst (dag_nodes s) = walk (registry_edges r) names [] \<and> (\<forall>n \<in> required r names. node_of s n = map_of r n)"
proof -
  let ?W = "walk (registry_edges r) names []"
  let ?N = "map (\<lambda>n. (n, node_of d n)) ?W"
  let ?E = "map (\<lambda>n. (n, filter (\<lambda>dep. dep \<in> set ?W) (deps_of r n))) ?W"
  from b BuildDAG_Inr [OF assms(1)] have d: "dag_edges d = registry_edges r"
    "dag_nodes d = map (\<lambda>(name, a). (name, Some a)) r" "\<forall>n. set (deps_of r n) \<subseteq> fst ` set r" by auto
  have mo: "map_of (dag_nodes d) n = map_option Some (map_of r n)" for n
    unfolding d(2) by (induction r) auto
  have "find (\<lambda>name. map_of (dag_nodes d) name = None) names = None"
    using assms(3) by (auto simp: find_None_iff mo map_of_eq_None_iff)
  moreover have W: "fst ` set ?N = required r names" "fst ` set ?E = required r names"
    unfolding walk_required [symmetric] by force+
  moreover have "kahnSort ?N ?E = (layers (required r names) (edge_deps ?E) {}, concat (layers (required r names) (edge_deps ?E) {}))"
    using kahnSort_layers [of ?N ?E] walk_distinct [of "[]" "registry_edges r" names] W by (simp add: comp_def)
  moreover have "layers (required r names) (edge_deps ?E) {} = layers (required r names) (deps_of r) {}"
  proof (rule layers_cong)
    show "finite (required r names)" using walk_required [of r names, symmetric] by simp
  qed (rule edge_deps_restrict)
  moreover have "node_of d n = map_of r n" for n by (simp add: node_of_def mo split: option.splits)
  ultimately show ?thesis
    by (simp add: Subset_def d(1) edge_deps_registry node_of_def map_of_key_map walk_required comp_def Let_def split: option.splits)
qed

subsection \<open>Properties\<close>

text \<open>
  C11. A built plan is a topological layering: the order is the levels in sequence, lists every
  registered analyzer exactly once, and is alphabetical within a level; every dependency of
  an analyzer lies in a strictly earlier level, and an analyzer beyond level 0 has a
  dependency in the level just before its own, so no level is later than necessary.
\<close>

theorem build_dag_topological:
  assumes "distinct (map fst r)" and "BuildDAG r = Inr d"
  shows "DAG_Order d = concat (DAG_Levels d) \<and> distinct (DAG_Order d) \<and> set (DAG_Order d) = fst ` set r \<and>
    DAG_Analyzers d = map (map_of r) (DAG_Order d) \<and>
    (\<forall>level \<in> set (DAG_Levels d). level \<noteq> [] \<and> sorted level) \<and>
    (\<forall>i < length (DAG_Levels d). \<forall>n \<in> set (DAG_Levels d ! i).
       (\<forall>dep \<in> set (deps_of r n). \<exists>j < i. dep \<in> set (DAG_Levels d ! j)) \<and>
       (\<forall>k. i = Suc k \<longrightarrow> (\<exists>dep \<in> set (deps_of r n). dep \<in> set (DAG_Levels d ! k))))"
proof -
  let ?L = "layers (fst ` set r) (deps_of r) {}"
  from assms(2) BuildDAG_Inr [OF assms(1)] have d: "dag_levels d = ?L" "dag_order d = concat ?L"
    "set (concat ?L) = fst ` set r" "dag_nodes d = map (\<lambda>(name, a). (name, Some a)) r" by auto
  have "node_of d n = map_of r n" for n
    unfolding node_of_def d(4) by (induction r) auto
  moreover have "distinct (concat ?L)" using registry_graph.layers_distinct by blast
  ultimately show ?thesis
    using d(3) registry_graph.layers_nonempty [of _ r "{}"] registry_graph.layers_topological [of _ r "{}"]
      registry_graph.layers_tight [of _ r "{}"]
    unfolding DAG_Levels_def DAG_Order_def DAG_Analyzers_def d(1,2) by auto
qed

definition example_registry :: analyzer_map where
  "example_registry =
     [(''relationship'', \<lparr>Name = ''relationship'', DependsOn = [''classify'', ''embedding'']\<rparr>),
      (''embedding'', \<lparr>Name = ''embedding'', DependsOn = []\<rparr>),
      (''classify'', \<lparr>Name = ''classify'', DependsOn = []\<rparr>)]"

lemma example_dag:
  "BuildDAG example_registry =
     Inr \<lparr>dag_levels = [[''classify'', ''embedding''], [''relationship'']],
          dag_order = [''classify'', ''embedding'', ''relationship''],
          dag_edges = registry_edges example_registry,
          dag_nodes = map (\<lambda>(name, a). (name, Some a)) example_registry\<rparr>"
  by code_simp

lemma example_registry_distinct: "distinct (map fst example_registry)"
  by (simp add: example_registry_def)

theorem build_dag_topological_witness:
  "\<exists>d. BuildDAG example_registry = Inr d \<and> DAG_Order d = concat (DAG_Levels d) \<and>
     set (DAG_Order d) = {''classify'', ''embedding'', ''relationship''}"
proof -
  have "fst ` set example_registry = {''classify'', ''embedding'', ''relationship''}"
    by (auto simp: example_registry_def)
  moreover obtain d where b: "BuildDAG example_registry = Inr d" using example_dag by simp
  moreover note build_dag_topological [OF example_registry_distinct b, THEN conjunct1]
    build_dag_topological [OF example_registry_distinct b, THEN conjunct2, THEN conjunct2, THEN conjunct1]
  ultimately show ?thesis by auto
qed

text \<open>
  C12. \<^verbatim>\<open>BuildDAG\<close> decides: it succeeds exactly when every dependency is registered and the
  dependency relation is acyclic; a missing-dependency error names a registered analyzer and
  an unregistered dependency of it; a cycle error prints a genuine cycle, so the dead end of
  the search for a cycle is never taken.
\<close>

theorem build_dag_decides:
  assumes "distinct (map fst r)"
  shows "case BuildDAG r of
      Inr d \<Rightarrow> (\<forall>n. set (deps_of r n) \<subseteq> fst ` set r) \<and> acyclic (depends_rel r)
    | Inl (ErrMissingDependency n dep) \<Rightarrow> dep \<in> set (deps_of r n) \<and> dep \<notin> fst ` set r
    | Inl (ErrCycleDetected msg) \<Rightarrow>
        (\<forall>n. set (deps_of r n) \<subseteq> fst ` set r) \<and> \<not> acyclic (depends_rel r) \<and>
        (\<exists>c. msg = formatCycle c \<and> is_dep_cycle (registry_edges r) c)
    | _ \<Rightarrow> False"
proof (cases "BuildDAG r")
  case (Inr d)
  from Inr [unfolded BuildDAG_Inr [OF assms]] have "\<forall>n. set (deps_of r n) \<subseteq> fst ` set r"
    and "acyclic (depends_rel r)"
    using registry_graph.layers_cover_acyclic [of r] unfolding dep_rel_registry by blast+
  with Inr show ?thesis by simp
next
  case (Inl e)
  show ?thesis
  proof (cases "find_missing r r")
    case None
    then obtain m where e: "e = ErrCycleDetected m" using Inl by (auto simp: BuildDAG_def Let_def split: if_splits prod.splits)
    from Inl [unfolded e] have c: "\<forall>n. set (deps_of r n) \<subseteq> fst ` set r"
      "set (concat (layers (fst ` set r) (deps_of r) {})) \<noteq> fst ` set r"
      "m = findCycle r (registry_edges r) (concat (layers (fst ` set r) (deps_of r) {}))"
      unfolding BuildDAG_cycle [OF assms] by blast+
    from findCycle_is_cycle [OF assms c(1,2)] obtain cy where
      "m = formatCycle cy" "is_dep_cycle (registry_edges r) cy" unfolding c(3) by blast
    with is_dep_cycle_not_acyclic [of r cy] c(1) Inl e show ?thesis by auto
  next
    case (Some p)
    obtain n dep where p: "p = (n, dep)" by fastforce
    with Some find_missing_Some [of r r n dep] obtain a where
      a: "(n, a) \<in> set r" "dep \<in> set (DependsOn a)" "dep \<notin> fst ` set r" by blast
    from map_of_is_SomeI [OF assms a(1)] a(2,3) have "dep \<in> set (deps_of r n) \<and> dep \<notin> fst ` set r"
      by (simp add: deps_of_def)
    moreover have "BuildDAG r = Inl (ErrMissingDependency n dep)" using Some p by (simp add: BuildDAG_def)
    ultimately show ?thesis by simp
  qed
qed

definition cyclic_registry :: analyzer_map where
  "cyclic_registry =
     [(''a'', \<lparr>Name = ''a'', DependsOn = [''b'']\<rparr>), (''b'', \<lparr>Name = ''b'', DependsOn = [''c'', ''a'']\<rparr>),
      (''c'', \<lparr>Name = ''c'', DependsOn = []\<rparr>)]"

theorem build_dag_decides_witness:
  "BuildDAG cyclic_registry = Inl (ErrCycleDetected ''a -> b -> a'') \<and> \<not> acyclic (depends_rel cyclic_registry)"
proof -
  have d: "distinct (map fst cyclic_registry)" by (simp add: cyclic_registry_def)
  have b: "BuildDAG cyclic_registry = Inl (ErrCycleDetected ''a -> b -> a'')" by code_simp
  show ?thesis using build_dag_decides [OF d] b by simp
qed

text \<open>
  C13. The outcome does not depend on the iteration order of Go maps: for two orders of the
  same registry, the levels, the order and the reported cycle are equal.
\<close>

theorem build_dag_deterministic:
  assumes "distinct (map fst r)" and "mset r' = mset r"
  shows "(BuildDAG r = Inr d \<longrightarrow> (\<exists>d'. BuildDAG r' = Inr d' \<and> DAG_Levels d' = DAG_Levels d \<and>
             DAG_Order d' = DAG_Order d \<and> DAG_Analyzers d' = DAG_Analyzers d)) \<and>
    (BuildDAG r = Inl (ErrCycleDetected m) \<longrightarrow> BuildDAG r' = Inl (ErrCycleDetected m))"
proof -
  have d': "distinct (map fst r')" using assms by (metis mset_eq_imp_distinct_iff mset_map)
  have m: "map_of r' = map_of r" using assms(1) d' mset_eq_setD [OF assms(2)] by (simp add: map_of_inject_set)
  have s: "fst ` set r' = fst ` set r" using mset_eq_setD [OF assms(2)] by simp
  have D: "deps_of r' = deps_of r" by (simp add: deps_of_def m fun_eq_iff)
  have nodes: "node_of x = map_of q" if "dag_nodes x = map (\<lambda>(name, a). (name, Some a)) q" for x q
    unfolding fun_eq_iff node_of_def that by (induction q) auto
  have "remaining_nodes r' o1 = remaining_nodes r o1" for o1
  proof -
    have "mset (map fst r') = mset (map fst r)" using assms(2) by simp
    then have "mset (filter P (map fst r')) = mset (filter P (map fst r))" for P
      unfolding mset_filter by simp
    then show ?thesis unfolding remaining_nodes_def by (intro properties_for_sort) simp_all
  qed
  moreover have "cycle_walk (registry_edges r') v rm c p s = cycle_walk (registry_edges r) v rm c p s" for v rm c p s
    by (induction "registry_edges r" v rm c p s rule: cycle_walk.induct)
      (simp add: cycle_walk.simps [of "registry_edges r"] cycle_walk.simps [of "registry_edges r'"] edge_deps_registry D
        split: option.splits)
  ultimately have f: "findCycle r' (registry_edges r') o1 = findCycle r (registry_edges r) o1" for o1
    by (simp add: findCycle_def split: list.splits)
  show ?thesis
    using nodes unfolding BuildDAG_Inr [OF assms(1)] BuildDAG_Inr [OF d'] BuildDAG_cycle [OF assms(1)] BuildDAG_cycle [OF d'] D s f
    by (auto simp: DAG_Levels_def DAG_Order_def DAG_Analyzers_def nodes m)
qed

theorem build_dag_deterministic_witness:
  "\<exists>d'. BuildDAG (rev example_registry) = Inr d' \<and>
     DAG_Levels d' = [[''classify'', ''embedding''], [''relationship'']]"
proof -
  obtain d where b: "BuildDAG example_registry = Inr d"
    and l: "DAG_Levels d = [[''classify'', ''embedding''], [''relationship'']]"
    using example_dag by (simp add: DAG_Levels_def)
  have "mset (rev example_registry) = mset example_registry" by simp
  from build_dag_deterministic [OF example_registry_distinct this, of d] b l show ?thesis by auto
qed

text \<open>
  C14. \<^verbatim>\<open>Subset\<close> of a built plan: an unknown name is an error; otherwise the new plan holds
  exactly the named analyzers and their transitive dependencies, once each, with the
  analyzers of the old plan, and its levels are the old levels without the other analyzers.
\<close>

theorem subset_restricts:
  assumes "distinct (map fst r)" and "BuildDAG r = Inr d"
  shows "if set names \<subseteq> fst ` set r
    then \<exists>s. Subset d names = Inr s \<and> set (DAG_Order s) = required r names \<and> distinct (DAG_Order s) \<and>
      DAG_Levels s = filter (\<lambda>level. level \<noteq> []) (map (filter (\<lambda>n. n \<in> required r names)) (DAG_Levels d)) \<and>
      DAG_Analyzers s = map (map_of r) (DAG_Order s)
    else \<exists>n \<in> set names - fst ` set r. Subset d names = Inl (ErrNotFound n)"
proof (cases "set names \<subseteq> fst ` set r")
  case True
  let ?Q = "required r names"
  from Subset_found [OF assms True] obtain s where s: "Subset d names = Inr s" "dag_order s = concat (dag_levels s)"
    "dag_levels s = layers ?Q (deps_of r) {}" "\<forall>n \<in> ?Q. node_of s n = map_of r n" by blast
  from assms(2) BuildDAG_Inr [OF assms(1)] have d: "dag_levels d = layers (fst ` set r) (deps_of r) {}"
    "set (concat (dag_levels d)) = fst ` set r" "\<forall>n. set (deps_of r n) \<subseteq> fst ` set r" by auto
  have sub: "?Q \<subseteq> fst ` set r" using d(3) True by (rule required_registered)
  have l: "dag_levels s = filter (\<lambda>level. level \<noteq> []) (map (filter (\<lambda>n. n \<in> ?Q)) (dag_levels d))"
    unfolding s(3) d(1) using registry_graph.layers_restrict [OF sub required_closed, where don = "{}"] by simp
  have "dag_order s = filter (\<lambda>n. n \<in> ?Q) (concat (dag_levels d))"
    unfolding s(2) l by (simp add: concat_nonempty filter_concat)
  then have o: "set (dag_order s) = ?Q" using sub d(2) by auto
  have "distinct (dag_order s)"
    unfolding s(2,3) using sub by (intro dep_graph.layers_distinct [THEN conjunct1] dep_graph.intro) (rule finite_subset, auto)
  with s o l True show ?thesis by (auto simp: DAG_Order_def DAG_Levels_def DAG_Analyzers_def)
next
  case False
  from assms(2) BuildDAG_Inr [OF assms(1)] have "dag_nodes d = map (\<lambda>(name, a). (name, Some a)) r" by auto
  then have mo: "map_of (dag_nodes d) n = None \<longleftrightarrow> n \<notin> fst ` set r" for n
    by (simp add: map_of_eq_None_iff image_image split_beta)
  with False obtain n where f: "find (\<lambda>name. map_of (dag_nodes d) name = None) names = Some n"
    by (cases "find (\<lambda>name. map_of (dag_nodes d) name = None) names") (auto simp: find_None_iff)
  then have "n \<in> set names - fst ` set r" by (auto simp: find_Some_iff mo)
  with False f show ?thesis by (auto simp: Subset_def)
qed

theorem subset_restricts_witness:
  "\<exists>d s. BuildDAG example_registry = Inr d \<and> Subset d [''embedding''] = Inr s \<and>
     DAG_Analyzers s = map (map_of example_registry) (DAG_Order s)"
proof -
  have "set [''embedding''] \<subseteq> fst ` set example_registry" by (simp add: example_registry_def)
  moreover obtain d where b: "BuildDAG example_registry = Inr d" using example_dag by simp
  moreover note subset_restricts [OF example_registry_distinct b, of "[''embedding'']"]
  ultimately show ?thesis by (simp only: if_True) blast
qed

definition registry_inv :: "analyzer_map \<Rightarrow> bool" where
  "registry_inv r \<longleftrightarrow> distinct (map fst r) \<and> (\<forall>(n, a) \<in> set r. n = Name a \<and> ValidateName n = None)"

text \<open>
  C15. Registration: in a registry whose entries are stored under their own valid names,
  \<^verbatim>\<open>Register\<close> either fails and names the reason (an invalid or an already registered name) or
  keeps the registry well-formed and makes exactly the new analyzer findable.
\<close>

theorem register_then_get:
  assumes "registry_inv r"
  shows "case Register r a of
      Inr r' \<Rightarrow> registry_inv r' \<and> Registry_Get r (Name a) = Inl (ErrNotFound (Name a)) \<and>
        (\<forall>n. Registry_Get r' n = (if n = Name a then Inr a else Registry_Get r n)) \<and>
        set (Registry_All r') = insert a (set (Registry_All r))
    | Inl e \<Rightarrow> e = ErrInvalidName (Name a) \<and> \<not> namePattern (Name a) \<or>
        e = ErrAlreadyRegistered (Name a) \<and> Name a \<in> fst ` set r"
proof (cases "ValidateName (Name a) = None \<and> map_of r (Name a) = None")
  case True
  then have out: "Name a \<notin> fst ` set r" by (simp add: map_of_eq_None_iff)
  from out have u: "AList.update (Name a) a r = r @ [(Name a, a)]" by (induction r) auto
  then have "Register r a = Inr (r @ [(Name a, a)])" using True by (simp add: Register_def)
  moreover have "registry_inv (r @ [(Name a, a)])" using assms True out by (auto simp: registry_inv_def)
  moreover have "map_of (r @ [(Name a, a)]) n = (if n = Name a then Some a else map_of r n)" for n
    using True by (auto simp: map_add_def split: option.splits)
  ultimately show ?thesis using True by (auto simp: Registry_Get_def Registry_All_def)
next
  case False
  then show ?thesis
    by (auto simp: Register_def ValidateName_def namePattern_def map_of_eq_None_iff split: if_splits)
qed

theorem register_then_get_witness:
  "registry_inv [] \<and> (\<exists>r'. Register [] \<lparr>Name = ''classify'', DependsOn = []\<rparr> = Inr r' \<and> registry_inv r')"
proof -
  have i: "registry_inv []" by (simp add: registry_inv_def)
  have "Register [] \<lparr>Name = ''classify'', DependsOn = []\<rparr> = Inr [(''classify'', \<lparr>Name = ''classify'', DependsOn = []\<rparr>)]"
    by code_simp
  with i register_then_get [OF i, of "\<lparr>Name = ''classify'', DependsOn = []\<rparr>"] show ?thesis by auto
qed

end
