(* ===== verification/Vote_Consensus.thy ===== *)
theory Vote_Consensus
  imports Go_Prelude
begin

text \<open>
  Weighted binary consensus (\<^verbatim>\<open>src/pkg/analyzer/consensus/consensus.go\<close> and \<^verbatim>\<open>types.go\<close>): the
  computer and its options, the vote count, the two vote thresholds and the decision.
  Weights are \<^verbatim>\<open>float64\<close> values with the specials; spans and the histogram are not modelled.
\<close>

subsection \<open>Votes and results\<close>

record Vote =
  VoterID :: string
  Decision :: "bool option"
  Confidence :: string
  Weight :: f64
  Justification :: string
  RawResponse :: string

record Result =
  res_Decision :: bool
  res_ConfidenceFraction :: f64
  res_Unanimous :: bool
  res_ValidVoteCount :: nat
  res_TotalVoteCount :: nat
  res_TotalWeight :: f64

datatype consensus_error =
    NoVotesProvided
  | ErrInsufficientVotes (ValidCount: nat) (RequiredMin: int) (TotalCount: nat) (ErrorCount: nat)

subsection \<open>The computer\<close>

record Computer =
  threshold :: f64
  minValidVotes :: int
  maxErrorRate :: f64

definition WithThreshold :: "f64 \<Rightarrow> Computer \<Rightarrow> Computer" where
  "WithThreshold t c = c\<lparr>threshold := (if t < Fin 0 \<or> t > Fin 1 then Fin (1 / 2) else t)\<rparr>"

definition WithMinValidVotes :: "int \<Rightarrow> Computer \<Rightarrow> Computer" where
  "WithMinValidVotes n c = c\<lparr>minValidVotes := n\<rparr>"

definition WithMaxErrorRate :: "f64 \<Rightarrow> Computer \<Rightarrow> Computer" where
  "WithMaxErrorRate f c = c\<lparr>maxErrorRate := (if f < Fin 0 \<or> f > Fin 1 then Fin 0 else f)\<rparr>"

definition New :: "(Computer \<Rightarrow> Computer) list \<Rightarrow> Computer" where
  "New opts = fold (\<lambda>opt c. opt c) opts \<lparr>threshold = Fin (1 / 2), minValidVotes = 0, maxErrorRate = Fin 0\<rparr>"

definition vote_weight :: "Vote \<Rightarrow> f64" where
  "vote_weight v = (if f64_eq (Weight v) (Fin 0) then Fin 1 else Weight v)"

text \<open>The counting loop: yes, no and total weight, and the number of valid votes.\<close>

fun count_votes :: "Vote list \<Rightarrow> f64 \<times> f64 \<times> f64 \<times> nat \<Rightarrow> f64 \<times> f64 \<times> f64 \<times> nat" where
  "count_votes [] acc = acc"
| "count_votes (v # vs) (yes, no, tot, valid) =
     (case Decision v of
        None \<Rightarrow> count_votes vs (yes, no, tot, valid)
      | Some d \<Rightarrow>
          (let weight = vote_weight v
           in if d then count_votes vs (yes + weight, no, tot + weight, Suc valid)
              else count_votes vs (yes, no + weight, tot + weight, Suc valid)))"

definition Compute :: "Computer \<Rightarrow> Vote list \<Rightarrow> consensus_error + Result" where
  "Compute c votes =
     (if votes = [] then Inl NoVotesProvided
      else
        (let (yesWeight, noWeight, totalWeight, validCount) = count_votes votes (Fin 0, Fin 0, Fin 0, 0);
             n = length votes
         in if minValidVotes c > 0 \<and> int validCount < minValidVotes c
            then Inl (ErrInsufficientVotes validCount (minValidVotes c) n (n - validCount))
            else if maxErrorRate c > Fin 0 \<and> validCount < n \<and>
              Fin (real (n - validCount)) / Fin (real n) > maxErrorRate c
            then Inl (ErrInsufficientVotes validCount
                   (f64_to_int ((Fin 1 - maxErrorRate c) * Fin (real n))) n (n - validCount))
            else if validCount = 0
            then Inr \<lparr>res_Decision = False, res_ConfidenceFraction = Fin 0, res_Unanimous = False,
                   res_ValidVoteCount = 0, res_TotalVoteCount = n, res_TotalWeight = Fin 0\<rparr>
            else
              (let decision = yesWeight > noWeight;
                   majorityWeight = (if decision then yesWeight else noWeight)
               in Inr \<lparr>res_Decision = decision, res_ConfidenceFraction = majorityWeight / totalWeight,
                    res_Unanimous = (f64_eq yesWeight totalWeight \<or> f64_eq noWeight totalWeight),
                    res_ValidVoteCount = validCount, res_TotalVoteCount = n, res_TotalWeight = totalWeight\<rparr>)))"

definition MeetsThreshold :: "Computer \<Rightarrow> Result \<Rightarrow> bool" where
  "MeetsThreshold c r \<longleftrightarrow> threshold c \<le> res_ConfidenceFraction r"

subsection \<open>What the loop counts\<close>

definition decided :: "Vote list \<Rightarrow> Vote list" where
  "decided votes = filter (\<lambda>v. Decision v \<noteq> None) votes"

definition side_weight :: "bool \<Rightarrow> Vote list \<Rightarrow> real" where
  "side_weight b votes = sum_list (map (\<lambda>v. fin_val (vote_weight v)) (filter (\<lambda>v. Decision v = Some b) votes))"

text \<open>Every vote that counts has a finite weight that is not negative; zero means the default.\<close>

definition weights_ok :: "Vote list \<Rightarrow> bool" where
  "weights_ok votes \<longleftrightarrow> (\<forall>v \<in> set (decided votes). is_fin (Weight v) \<and> 0 \<le> fin_val (Weight v))"

lemma vote_weight_pos:
  "is_fin (Weight v) \<Longrightarrow> 0 \<le> fin_val (Weight v) \<Longrightarrow> \<exists>w > 0. vote_weight v = Fin w"
  by (cases "Weight v") (auto simp: vote_weight_def)

lemma count_votes_spec:
  "weights_ok votes \<Longrightarrow> count_votes votes (Fin y, Fin n, Fin t, k) =
     (Fin (y + side_weight True votes), Fin (n + side_weight False votes),
      Fin (t + side_weight True votes + side_weight False votes), k + length (decided votes))"
proof (induction votes arbitrary: y n t k)
  case (Cons v vs)
  have ok: "weights_ok vs" using Cons.prems by (auto simp: weights_ok_def decided_def)
  show ?case
  proof (cases "Decision v")
    case None
    then show ?thesis using Cons.IH [OF ok] by (simp add: side_weight_def decided_def)
  next
    case (Some d)
    then have "is_fin (Weight v)" "0 \<le> fin_val (Weight v)" using Cons.prems by (auto simp: weights_ok_def decided_def)
    from vote_weight_pos [OF this] obtain w where w: "vote_weight v = Fin w" by blast
    show ?thesis using Some by (cases d) (auto simp: w Cons.IH [OF ok] side_weight_def decided_def add_ac)
  qed
qed (simp add: side_weight_def decided_def)

lemma count_votes_valid:
  "snd (snd (snd (count_votes votes (y, n, t, k)))) = k + length (decided votes)"
  by (induction votes arbitrary: y n t k) (auto simp: decided_def Let_def split: option.splits)

lemma side_weight_nonneg: "weights_ok votes \<Longrightarrow> 0 \<le> side_weight b votes"
  unfolding side_weight_def
  by (intro sum_list_nonneg) (auto simp: weights_ok_def decided_def dest!: vote_weight_pos)

lemma side_weight_zero:
  assumes "weights_ok votes"
  shows "side_weight b votes = 0 \<longleftrightarrow> (\<forall>v \<in> set votes. Decision v \<noteq> Some b)"
proof -
  let ?xs = "map (\<lambda>v. fin_val (vote_weight v)) (filter (\<lambda>v. Decision v = Some b) votes)"
  have pos: "\<forall>x \<in> set ?xs. 0 < x"
  proof
    fix x assume "x \<in> set ?xs"
    then obtain v where v: "v \<in> set votes" "Decision v = Some b" "x = fin_val (vote_weight v)" by auto
    with assms have "is_fin (Weight v)" "0 \<le> fin_val (Weight v)" by (auto simp: weights_ok_def decided_def)
    from vote_weight_pos [OF this] v(3) show "0 < x" by auto
  qed
  then have "sum_list ?xs = 0 \<longleftrightarrow> (\<forall>x \<in> set ?xs. x = 0)"
    by (intro sum_list_nonneg_eq_0_iff) (auto intro: less_imp_le)
  also have "\<dots> \<longleftrightarrow> set ?xs = {}" using pos by fastforce
  finally show ?thesis by (auto simp: side_weight_def filter_empty_conv)
qed

subsection \<open>Properties\<close>


definition example_votes :: "Vote list" where
  "example_votes =
     [\<lparr>VoterID = ''m1'', Decision = Some True, Confidence = ''HIGH'', Weight = Fin 0, Justification = [], RawResponse = []\<rparr>,
      \<lparr>VoterID = ''m2'', Decision = None, Confidence = [], Weight = NaN, Justification = [], RawResponse = []\<rparr>,
      \<lparr>VoterID = ''m3'', Decision = Some False, Confidence = ''LOW'', Weight = Fin (1 / 3), Justification = [], RawResponse = []\<rparr>]"




end
