(* ===== verification/Priority_Vote.thy ===== *)
theory Priority_Vote
  imports Go_Prelude
begin

text \<open>
  Plurality with a priority list, the scheme that the relationship consensus and the artifact
  consensus both write out: count the votes per value, take the highest count, and among the
  values that reach it pick the first of a fixed priority list.
\<close>

text \<open>The loop over the counts: a Go map with one entry per value that was voted for.\<close>

definition max_count :: "'t list \<Rightarrow> nat" where
  "max_count cast = fold (\<lambda>t m. if count_list cast t > m then count_list cast t else m) (remdups cast) 0"

definition pick_winner :: "'t \<Rightarrow> 't list \<Rightarrow> 't list \<Rightarrow> 't" where
  "pick_winner dflt prio cast =
     (case find (\<lambda>t. count_list cast t = max_count cast) prio of None \<Rightarrow> dflt | Some t \<Rightarrow> t)"

lemma max_count_fold:
  "fold (\<lambda>t m. if f t > m then f t else m) ts m0 = Max (insert m0 (f ` set ts))" for f :: "'t \<Rightarrow> nat"
proof (induction ts arbitrary: m0)
  case (Cons t ts)
  have "Max (insert (if f t > m0 then f t else m0) (f ` set ts)) = Max (insert m0 (insert (f t) (f ` set ts)))"
    by (cases "set ts = {}") (auto simp: max_def)
  with Cons show ?case by simp
qed simp

lemma max_count_Max: "max_count cast = Max (insert 0 (count_list cast ` set cast))"
  by (simp add: max_count_def max_count_fold)

lemma count_list_mset: "mset xs = mset ys \<Longrightarrow> count_list xs = count_list ys"
  by (metis count_mset ext)

lemma max_count_ge: "count_list cast t \<le> max_count cast"
  by (cases "t \<in> set cast") (auto simp: max_count_Max)

lemma max_count_attained: "cast \<noteq> [] \<Longrightarrow> \<exists>t \<in> set cast. count_list cast t = max_count cast"
proof -
  assume "cast \<noteq> []"
  then have s: "hd cast \<in> set cast" by simp
  have "max_count cast \<in> insert 0 (count_list cast ` set cast)" unfolding max_count_Max by (rule Max_in) auto
  moreover have "max_count cast \<noteq> 0"
    using s max_count_ge [of cast "hd cast"] by (metis count_notin count_list_0_iff le_zero_eq)
  ultimately show ?thesis by auto
qed

lemma max_count_pos: "cast \<noteq> [] \<Longrightarrow> 0 < max_count cast"
  using max_count_attained [of cast] by (metis count_list_0_iff gr0I)

lemma max_count_le_length: "max_count cast \<le> length cast"
  unfolding max_count_Max by (auto simp: count_le_length)

lemma max_count_perm: "mset xs = mset ys \<Longrightarrow> max_count xs = max_count ys"
  using count_list_mset [of xs ys] mset_eq_setD [of xs ys] by (simp add: max_count_Max)

lemma pick_winner_perm: "mset xs = mset ys \<Longrightarrow> pick_winner d prio xs = pick_winner d prio ys"
  using count_list_mset [of xs ys] max_count_perm [of xs ys] by (simp add: pick_winner_def)

text \<open>All votes agree exactly when one value has them all.\<close>

lemma max_count_all:
  assumes "cast \<noteq> []"
  shows "max_count cast = length cast \<longleftrightarrow> (\<exists>t. set cast = {t})"
proof
  assume "max_count cast = length cast"
  with max_count_attained [OF assms] obtain t where t: "t \<in> set cast" "count_list cast t = length cast" by auto
  then have "length (filter ((=) t) cast) = length cast" by (simp only: count_list_eq_length_filter)
  then have "x \<in> set cast \<Longrightarrow> t = x" for x using length_filter_less [of x cast "(=) t"] by (cases "t = x") simp_all
  with t(1) have "set cast = {t}" by blast
  then show "\<exists>t. set cast = {t}" ..
next
  assume "\<exists>t. set cast = {t}"
  then obtain t where "set cast = {t}" ..
  then have "filter ((=) t) cast = cast" by (intro filter_True) simp
  then have "count_list cast t = length cast" by (simp only: count_list_eq_length_filter)
  with max_count_ge [of cast t] max_count_le_length [of cast] show "max_count cast = length cast" by linarith
qed

text \<open>\<open>before prio a b\<close>: \<open>a\<close> comes strictly earlier than \<open>b\<close> in the priority list.\<close>

definition before :: "'t list \<Rightarrow> 't \<Rightarrow> 't \<Rightarrow> bool" where
  "before prio a b \<longleftrightarrow> (\<exists>as bs. prio = as @ a # bs \<and> b \<in> set bs)"

text \<open>The contract of a priority list: it lists each valid value once.\<close>

locale priority_vote =
  fixes valid :: "'t \<Rightarrow> bool" and prio :: "'t list"
  assumes prio_valid: "t \<in> set prio \<longleftrightarrow> valid t"
    and prio_distinct: "distinct prio"
begin

lemma winner_is_plurality:
  assumes "cast \<noteq> []" and "\<forall>t \<in> set cast. valid t"
  shows "pick_winner d prio cast \<in> set cast" "count_list cast (pick_winner d prio cast) = max_count cast"
    "count_list cast t = max_count cast \<Longrightarrow> t \<noteq> pick_winner d prio cast \<Longrightarrow> before prio (pick_winner d prio cast) t"
proof -
  from max_count_attained [OF assms(1)] assms(2) prio_valid obtain t0 where
    t0: "t0 \<in> set prio" "count_list cast t0 = max_count cast" by blast
  then obtain w where f: "find (\<lambda>t. count_list cast t = max_count cast) prio = Some w"
    by (cases "find (\<lambda>t. count_list cast t = max_count cast) prio") (auto simp: find_None_iff)
  then have w: "pick_winner d prio cast = w" by (simp add: pick_winner_def)
  from f obtain i where i: "i < length prio" "count_list cast (prio ! i) = max_count cast" "w = prio ! i"
    "\<forall>j < i. count_list cast (prio ! j) \<noteq> max_count cast" by (auto simp: find_Some_iff)
  show "count_list cast (pick_winner d prio cast) = max_count cast" using i w by simp
  then show "pick_winner d prio cast \<in> set cast"
    using max_count_pos [OF assms(1)] count_notin [of "pick_winner d prio cast" cast] by auto
  assume t: "count_list cast t = max_count cast" "t \<noteq> pick_winner d prio cast"
  then have "t \<in> set cast" using max_count_pos [OF assms(1)] count_notin [of t cast] by auto
  then have "t \<in> set prio" using assms(2) prio_valid by blast
  then obtain j where j: "j < length prio" "prio ! j = t" by (auto simp: in_set_conv_nth)
  have "j \<noteq> i" and "\<not> j < i" using t i w j by auto
  then have "i < j" by simp
  have "prio = take i prio @ w # drop (Suc i) prio" using i by (simp add: id_take_nth_drop)
  moreover have "t \<in> set (drop (Suc i) prio)"
    using j \<open>i < j\<close> by (auto simp: in_set_conv_nth intro!: exI [of _ "j - Suc i"])
  ultimately show "before prio (pick_winner d prio cast) t" unfolding before_def w by blast
qed

end

end
