(* ===== verification/Relationship_Consensus.thy ===== *)
theory Relationship_Consensus
  imports Priority_Vote
begin

text \<open>
  The relationship vocabulary and its consensus (\<^verbatim>\<open>src/internal/analyzer/relationship/types.go\<close>
  and \<^verbatim>\<open>consensus.go\<close>). Each Go enumeration is an integer type, so each datatype has a last
  constructor for the values outside the declared constants. The confidence arithmetic is
  exact.
\<close>

subsection \<open>Enumerations\<close>

datatype RelationshipType =
    RelEquivalent
  | RelSupersetOf
  | RelSubsetOf
  | RelContributesTo
  | RelComplements
  | RelPartial
  | RelConflictsWith
  | RelNoRelationship
  | RelOther int

definition AllRelationshipTypes :: "RelationshipType list" where
  "AllRelationshipTypes =
     [RelEquivalent, RelSupersetOf, RelSubsetOf, RelContributesTo, RelComplements, RelPartial,
      RelConflictsWith, RelNoRelationship]"

definition relationshipNames :: "string list" where
  "relationshipNames =
     [''EQUIVALENT'', ''SUPERSET_OF'', ''SUBSET_OF'', ''CONTRIBUTES_TO'', ''COMPLEMENTS'', ''PARTIAL'',
      ''CONFLICTS_WITH'', ''NO_RELATIONSHIP'']"

text \<open>\<^verbatim>\<open>int(r)\<close>\<close>

fun rel_int :: "RelationshipType \<Rightarrow> int" where
  "rel_int RelEquivalent = 0"
| "rel_int RelSupersetOf = 1"
| "rel_int RelSubsetOf = 2"
| "rel_int RelContributesTo = 3"
| "rel_int RelComplements = 4"
| "rel_int RelPartial = 5"
| "rel_int RelConflictsWith = 6"
| "rel_int RelNoRelationship = 7"
| "rel_int (RelOther n) = n"

fun rel_Valid :: "RelationshipType \<Rightarrow> bool" where
  "rel_Valid (RelOther _) = False"
| "rel_Valid _ = True"

definition rel_String :: "RelationshipType \<Rightarrow> string" where
  "rel_String r = (if rel_Valid r then relationshipNames ! nat (rel_int r) else ''UNKNOWN('' @ itoa (rel_int r) @ '')'')"

text \<open>The loop over the name table; a name that is not found gives the zero value and false.\<close>

definition ParseRelationshipType :: "string \<Rightarrow> RelationshipType \<times> bool" where
  "ParseRelationshipType s =
     (case find (\<lambda>(name, t). name = s) (zip relationshipNames AllRelationshipTypes) of
        Some (_, t) \<Rightarrow> (t, True)
      | None \<Rightarrow> (RelEquivalent, False))"

definition RelationshipPriority :: "RelationshipType list" where
  "RelationshipPriority = AllRelationshipTypes"

datatype ContributionType = ContribNone | ContribIntegralTo | ContribExampleOf | ContribOther int

definition ParseContributionType :: "string \<Rightarrow> ContributionType" where
  "ParseContributionType s =
     (if s = ''INTEGRAL_TO'' then ContribIntegralTo
      else if s = ''EXAMPLE_OF'' then ContribExampleOf
      else ContribNone)"

fun contrib_String :: "ContributionType \<Rightarrow> string" where
  "contrib_String ContribNone = []"
| "contrib_String ContribIntegralTo = ''INTEGRAL_TO''"
| "contrib_String ContribExampleOf = ''EXAMPLE_OF''"
| "contrib_String (ContribOther n) = ''UNKNOWN('' @ itoa n @ '')''"

datatype ConfidenceLevel = ConfidenceUnknown | ConfidenceHigh | ConfidenceMedium | ConfidenceLow | ConfidenceOther int

definition ParseConfidenceLevel :: "string \<Rightarrow> ConfidenceLevel" where
  "ParseConfidenceLevel s =
     (if s = ''HIGH'' then ConfidenceHigh
      else if s = ''MEDIUM'' then ConfidenceMedium
      else if s = ''LOW'' then ConfidenceLow
      else ConfidenceLow)"

fun confidence_String :: "ConfidenceLevel \<Rightarrow> string" where
  "confidence_String ConfidenceUnknown = []"
| "confidence_String ConfidenceHigh = ''HIGH''"
| "confidence_String ConfidenceMedium = ''MEDIUM''"
| "confidence_String ConfidenceLow = ''LOW''"
| "confidence_String (ConfidenceOther n) = ''UNKNOWN('' @ itoa n @ '')''"

datatype ParseStatus = ParseOK | ParseFail | ParseError | ParseOther int

subsection \<open>Votes and consensus\<close>

text \<open>The fields of a vote that the consensus reads.\<close>

record RelVote =
  rv_Relationship :: RelationshipType
  rv_ContributionType :: ContributionType
  rv_Confidence :: ConfidenceLevel
  rv_ParseStatus :: ParseStatus

record RelationshipConfidenceWeights =
  High :: real
  Medium :: real
  Low :: real

record Consensus =
  Relationship :: RelationshipType
  c_ContributionType :: ContributionType
  ConfidenceFraction :: real
  AgreementFraction :: real
  Unanimous :: bool
  AllVotes :: "string list"
  ValidVoteCount :: nat

text \<open>The vote map; a nil pointer is \<open>None\<close>.\<close>

type_synonym rel_votes = "(string \<times> RelVote option) list"

definition no_consensus :: Consensus where
  "no_consensus = \<lparr>Relationship = RelNoRelationship, c_ContributionType = ContribNone, ConfidenceFraction = 0,
     AgreementFraction = 0, Unanimous = False, AllVotes = [], ValidVoteCount = 0\<rparr>"

text \<open>The counting loop: the audit labels and the relationships of the votes that count.\<close>

fun tally :: "RelVote option list \<Rightarrow> string list \<Rightarrow> RelationshipType list \<Rightarrow> string list \<times> RelationshipType list" where
  "tally [] allVotes cast = (allVotes, cast)"
| "tally (None # vs) allVotes cast = tally vs (allVotes @ [''NIL_VOTE'']) cast"
| "tally (Some v # vs) allVotes cast =
     (if rv_ParseStatus v = ParseFail then tally vs (allVotes @ [''PARSE_FAIL'']) cast
      else if rv_ParseStatus v = ParseError then tally vs (allVotes @ [''PARSE_ERROR'']) cast
      else tally vs (allVotes @ [rel_String (rv_Relationship v)]) (cast @ [rv_Relationship v]))"

definition ordered_votes :: "rel_votes \<Rightarrow> RelVote option list" where
  "ordered_votes votes =
     map (\<lambda>k. case map_of votes k of None \<Rightarrow> None | Some v \<Rightarrow> v) (sort (map fst votes))"

fun confidence_weight :: "RelationshipConfidenceWeights \<Rightarrow> ConfidenceLevel \<Rightarrow> real" where
  "confidence_weight weights ConfidenceHigh = High weights"
| "confidence_weight weights ConfidenceMedium = Medium weights"
| "confidence_weight weights _ = Low weights"

text \<open>The non-nil, well-parsed votes for a relationship, in the order the map is iterated.\<close>

definition votes_for :: "RelationshipType \<Rightarrow> rel_votes \<Rightarrow> RelVote list" where
  "votes_for t votes =
     filter (\<lambda>v. rv_ParseStatus v = ParseOK \<and> rv_Relationship v = t) (List.map_filter snd votes)"

definition winning_contribution :: "RelVote list \<Rightarrow> ContributionType" where
  "winning_contribution vs =
     (let integralCount = count_list (map rv_ContributionType vs) ContribIntegralTo;
          exampleCount = count_list (map rv_ContributionType vs) ContribExampleOf
      in if integralCount \<ge> exampleCount \<and> integralCount > 0 then ContribIntegralTo
         else if exampleCount > 0 then ContribExampleOf
         else ContribNone)"

definition ComputeRelConsensus :: "rel_votes \<Rightarrow> RelationshipConfidenceWeights \<Rightarrow> Consensus" where
  "ComputeRelConsensus votes weights =
     (if votes = [] then no_consensus
      else
        (let (allVotes, cast) = tally (ordered_votes votes) [] [];
             validTotal = length cast;
             c = no_consensus\<lparr>AllVotes := allVotes, ValidVoteCount := validTotal\<rparr>
         in if validTotal = 0 then c
            else
              (let maxCount = max_count cast;
                   winner = pick_winner RelNoRelationship RelationshipPriority cast;
                   agreement = real maxCount / real validTotal;
                   weightSum = sum_list (map (\<lambda>v. confidence_weight weights (rv_Confidence v)) (votes_for winner votes))
               in c\<lparr>Relationship := winner,
                    AgreementFraction := round3 agreement,
                    ConfidenceFraction := round3 (agreement * weightSum / real maxCount),
                    Unanimous := (validTotal > 0 \<and> maxCount = validTotal),
                    c_ContributionType :=
                      (if winner = RelContributesTo then winning_contribution (votes_for RelContributesTo votes)
                       else ContribNone)\<rparr>)))"

subsection \<open>What is counted\<close>

interpretation relationship_vote: priority_vote rel_Valid RelationshipPriority
proof unfold_locales
  show "t \<in> set RelationshipPriority \<longleftrightarrow> rel_Valid t" for t
    by (cases t) (simp_all add: RelationshipPriority_def AllRelationshipTypes_def)
qed (simp add: RelationshipPriority_def AllRelationshipTypes_def)

definition vote_counts :: "RelVote \<Rightarrow> bool" where
  "vote_counts v \<longleftrightarrow> rv_ParseStatus v \<noteq> ParseFail \<and> rv_ParseStatus v \<noteq> ParseError"

definition valid_votes :: "rel_votes \<Rightarrow> RelVote list" where
  "valid_votes votes = filter vote_counts (List.map_filter snd votes)"

lemma tally_spec:
  "\<exists>labels. tally vs a c = (a @ labels, c @ map rv_Relationship (filter vote_counts (List.map_filter id vs))) \<and>
     length labels = length vs"
proof (induction vs a c rule: tally.induct)
  case (3 v vs a c)
  then show ?case
    by (cases "rv_ParseStatus v") (auto simp: vote_counts_def List.map_filter_def)
qed (auto simp: List.map_filter_def)

lemma mset_map_filter: "mset xs = mset ys \<Longrightarrow> mset (List.map_filter f xs) = mset (List.map_filter f ys)"
  by (simp add: List.map_filter_def)

lemma map_filter_snd: "List.map_filter id (map snd xs) = List.map_filter snd xs"
  by (induction xs) (auto simp: List.map_filter_def)

lemma mset_ordered_votes:
  assumes "distinct (map fst votes)"
  shows "mset (ordered_votes votes) = mset (map snd votes)"
proof -
  let ?f = "\<lambda>k. case map_of votes k of None \<Rightarrow> None | Some v \<Rightarrow> v"
  have "map ?f (map fst votes) = map snd votes" using assms by (auto simp: map_of_is_SomeI)
  then have "mset (map snd votes) = image_mset ?f (mset (map fst votes))" by (metis mset_map)
  also have "\<dots> = mset (ordered_votes votes)" by (simp add: ordered_votes_def)
  finally show ?thesis by simp
qed

lemma ordered_votes_perm:
  assumes "distinct (map fst votes)" and "mset votes' = mset votes"
  shows "ordered_votes votes' = ordered_votes votes"
proof -
  have d: "distinct (map fst votes')" using assms by (metis mset_eq_imp_distinct_iff mset_map)
  have "map_of votes' = map_of votes" using assms(1) d mset_eq_setD [OF assms(2)] by (simp add: map_of_inject_set)
  moreover have "sort (map fst votes') = sort (map fst votes)"
    using assms(2) by (intro properties_for_sort) simp_all
  ultimately show ?thesis by (simp add: ordered_votes_def)
qed

lemma cast_of_votes:
  assumes "distinct (map fst votes)"
  obtains labels cast where "tally (ordered_votes votes) [] [] = (labels, cast)" "length labels = length votes"
    "mset cast = mset (map rv_Relationship (valid_votes votes))"
proof -
  from tally_spec [of "ordered_votes votes" "[]" "[]"] obtain labels where
    t: "tally (ordered_votes votes) [] [] = (labels, map rv_Relationship (filter vote_counts (List.map_filter id (ordered_votes votes))))"
      "length labels = length (ordered_votes votes)" by auto
  have "mset (List.map_filter id (ordered_votes votes)) = mset (List.map_filter snd votes)"
    using mset_map_filter [OF mset_ordered_votes [OF assms], of id] by (simp add: map_filter_snd)
  then have "mset (map rv_Relationship (filter vote_counts (List.map_filter id (ordered_votes votes)))) =
      mset (map rv_Relationship (valid_votes votes))" by (simp add: valid_votes_def)
  moreover have "length labels = length votes" using t(2) by (simp add: ordered_votes_def)
  ultimately show ?thesis using that t(1) by blast
qed

lemma votes_for_le:
  "length (votes_for t votes) \<le> count_list (map rv_Relationship (valid_votes votes)) t"
proof -
  have "length (filter (\<lambda>v. rv_ParseStatus v = ParseOK \<and> rv_Relationship v = t) xs) \<le>
      count_list (map rv_Relationship (filter vote_counts xs)) t" for xs
    by (induction xs) (auto simp: vote_counts_def)
  then show ?thesis by (simp add: votes_for_def valid_votes_def)
qed

lemma count_filter_eq:
  "\<forall>v \<in> set (filter vote_counts xs). rv_ParseStatus v = ParseOK \<Longrightarrow>
     length (filter (\<lambda>v. rv_ParseStatus v = ParseOK \<and> rv_Relationship v = t) xs) =
     count_list (map rv_Relationship (filter vote_counts xs)) t"
proof (induction xs)
  case (Cons v xs)
  have "\<forall>v \<in> set (filter vote_counts xs). rv_ParseStatus v = ParseOK" using Cons.prems by simp
  note IH = Cons.IH [OF this]
  show ?case
  proof (cases "vote_counts v")
    case True
    then have "rv_ParseStatus v = ParseOK" using Cons.prems by simp
    with True IH show ?thesis by simp
  next
    case False
    then have "rv_ParseStatus v \<noteq> ParseOK" by (auto simp: vote_counts_def)
    with False IH show ?thesis by simp
  qed
qed simp

lemma votes_for_eq:
  "\<forall>v \<in> set (valid_votes votes). rv_ParseStatus v = ParseOK \<Longrightarrow>
     length (votes_for t votes) = count_list (map rv_Relationship (valid_votes votes)) t"
  unfolding votes_for_def valid_votes_def by (rule count_filter_eq)

text \<open>The consensus, written over the multiset of votes that count.\<close>

lemma ComputeRelConsensus_eq:
  assumes "distinct (map fst votes)"
  defines "cast \<equiv> map rv_Relationship (valid_votes votes)"
  defines "w \<equiv> pick_winner RelNoRelationship RelationshipPriority cast"
  assumes "cast \<noteq> []"
  shows "\<exists>labels. length labels = length votes \<and> ComputeRelConsensus votes weights =
    \<lparr>Relationship = w,
     c_ContributionType = (if w = RelContributesTo then winning_contribution (votes_for RelContributesTo votes) else ContribNone),
     ConfidenceFraction = round3 (real (max_count cast) / real (length cast) *
       sum_list (map (\<lambda>v. confidence_weight weights (rv_Confidence v)) (votes_for w votes)) / real (max_count cast)),
     AgreementFraction = round3 (real (max_count cast) / real (length cast)),
     Unanimous = (max_count cast = length cast), AllVotes = labels, ValidVoteCount = length cast\<rparr>"
proof -
  from cast_of_votes [OF assms(1)] obtain labels cast' where
    t: "tally (ordered_votes votes) [] [] = (labels, cast')" "length labels = length votes" "mset cast' = mset cast"
    unfolding cast_def by blast
  have l: "length cast' = length cast" using t(3) by (metis size_mset)
  have m: "max_count cast' = max_count cast" using t(3) by (rule max_count_perm)
  have p: "pick_winner RelNoRelationship RelationshipPriority cast' = w"
    unfolding w_def using t(3) by (rule pick_winner_perm)
  have "votes \<noteq> []" using assms(4) by (auto simp: cast_def valid_votes_def List.map_filter_def)
  moreover have "length cast \<noteq> 0" using assms(4) by simp
  ultimately show ?thesis using t(1,2) l m p
    by (auto simp: ComputeRelConsensus_def Let_def no_consensus_def)
qed

lemma confidence_weight_range:
  "0 < Low ws \<Longrightarrow> Low ws \<le> 1 \<Longrightarrow> 0 < Medium ws \<Longrightarrow> Medium ws \<le> 1 \<Longrightarrow> 0 < High ws \<Longrightarrow> High ws \<le> 1 \<Longrightarrow>
     0 \<le> confidence_weight ws c \<and> confidence_weight ws c \<le> 1"
  by (cases c) auto

lemma weight_sum_range:
  assumes "\<And>c. 0 \<le> confidence_weight ws c \<and> confidence_weight ws c \<le> 1"
  shows "0 \<le> sum_list (map (\<lambda>v. confidence_weight ws (rv_Confidence v)) vs) \<and>
    sum_list (map (\<lambda>v. confidence_weight ws (rv_Confidence v)) vs) \<le> real (length vs)"
proof (induction vs)
  case (Cons v vs)
  then show ?case using assms [of "rv_Confidence v"] by simp
qed simp

lemma share_bounds:
  "0 < m \<Longrightarrow> m \<le> n \<Longrightarrow> 0 \<le> s \<Longrightarrow> s \<le> m \<Longrightarrow> 0 \<le> m / n * s / m \<and> m / n * s / m \<le> m / n \<and> m / n \<le> 1"
  for m n s :: real
  by (simp add: divide_right_mono)

lemma ex_singleton_iff: "x \<in> A \<Longrightarrow> (\<exists>t. A = {t}) \<longleftrightarrow> (\<forall>t \<in> A. t = x)"
  by auto

subsection \<open>Properties\<close>


definition example_rel_votes :: rel_votes where
  "example_rel_votes =
     [(''m2'', Some \<lparr>rv_Relationship = RelSubsetOf, rv_ContributionType = ContribNone, rv_Confidence = ConfidenceHigh, rv_ParseStatus = ParseOK\<rparr>),
      (''m1'', Some \<lparr>rv_Relationship = RelEquivalent, rv_ContributionType = ContribNone, rv_Confidence = ConfidenceLow, rv_ParseStatus = ParseOK\<rparr>),
      (''m3'', None)]"

definition example_weights :: RelationshipConfidenceWeights where
  "example_weights = \<lparr>High = 1, Medium = 1 / 2, Low = 1 / 4\<rparr>"


text \<open>
  C19. With confidence weights in the unit interval, as the configuration demands, the reported
  confidence is never above the reported agreement, and both lie between zero and one; this
  holds for every vote map, whatever its votes contain.
\<close>

theorem relationship_confidence_bounded:
  assumes "distinct (map fst votes)"
    and "0 < Low ws" "Low ws \<le> Medium ws" "Medium ws \<le> High ws" "High ws \<le> 1"
  shows "0 \<le> ConfidenceFraction (ComputeRelConsensus votes ws) \<and>
    ConfidenceFraction (ComputeRelConsensus votes ws) \<le> AgreementFraction (ComputeRelConsensus votes ws) \<and>
    AgreementFraction (ComputeRelConsensus votes ws) \<le> 1"
proof (cases "valid_votes votes = []")
  case True
  from cast_of_votes [OF assms(1)] obtain labels cast where
    "tally (ordered_votes votes) [] [] = (labels, cast)" "mset cast = mset (map rv_Relationship (valid_votes votes))" by blast
  with True show ?thesis by (simp add: ComputeRelConsensus_def no_consensus_def Let_def)
next
  case False
  let ?cast = "map rv_Relationship (valid_votes votes)"
  let ?w = "pick_winner RelNoRelationship RelationshipPriority ?cast"
  let ?s = "sum_list (map (\<lambda>v. confidence_weight ws (rv_Confidence v)) (votes_for ?w votes))"
  let ?m = "real (max_count ?cast)" and ?n = "real (length ?cast)"
  have ne: "?cast \<noteq> []" using False by simp
  have m: "0 < ?m" "?m \<le> ?n" using max_count_pos [OF ne] max_count_le_length [of ?cast] by simp_all
  have "0 \<le> ?s \<and> ?s \<le> real (length (votes_for ?w votes))"
    by (intro weight_sum_range confidence_weight_range) (use assms in linarith)+
  then have s: "0 \<le> ?s" "?s \<le> ?m"
    using votes_for_le [of ?w votes] max_count_ge [of ?cast ?w] by linarith+
  have c: "ConfidenceFraction (ComputeRelConsensus votes ws) = round3 (?m / ?n * ?s / ?m)"
    "AgreementFraction (ComputeRelConsensus votes ws) = round3 (?m / ?n)"
    using ComputeRelConsensus_eq [OF assms(1) ne, of ws] by force+
  have "0 \<le> ?m / ?n * ?s / ?m" "?m / ?n * ?s / ?m \<le> ?m / ?n" "?m / ?n \<le> 1"
    using share_bounds [OF m s] by blast+
  then show ?thesis unfolding c using round3_mono round3_0_1 by metis
qed

theorem relationship_confidence_bounded_witness:
  "ConfidenceFraction (ComputeRelConsensus example_rel_votes example_weights) \<le>
     AgreementFraction (ComputeRelConsensus example_rel_votes example_weights)"
  using relationship_confidence_bounded [of example_rel_votes example_weights]
  by (simp add: example_rel_votes_def example_weights_def)



text \<open>
  Names round-trip: the parser of relationship names accepts exactly the names that the
  printer gives to the declared relationships and inverts it; the confidence parser maps
  anything it does not know to the lowest level.
\<close>

lemma relationship_name_roundtrip:
  "(ParseRelationshipType s = (t, True) \<longleftrightarrow> rel_Valid t \<and> rel_String t = s) \<and>
   (snd (ParseRelationshipType s) \<longleftrightarrow> (\<exists>t. rel_Valid t \<and> rel_String t = s)) \<and>
   (ParseConfidenceLevel s = ConfidenceLow \<longleftrightarrow> s \<noteq> ''HIGH'' \<and> s \<noteq> ''MEDIUM'')"
proof -
  have p: "ParseRelationshipType s = (t, True) \<longleftrightarrow> rel_Valid t \<and> rel_String t = s" for t
    by (cases t) (auto simp: ParseRelationshipType_def relationshipNames_def AllRelationshipTypes_def rel_String_def)
  have "snd (ParseRelationshipType s) \<longleftrightarrow> (\<exists>t. ParseRelationshipType s = (t, True))"
    by (cases "ParseRelationshipType s") auto
  with p show ?thesis by (auto simp: ParseConfidenceLevel_def)
qed

end
