(* ===== verification/Artifact_Consensus.thy ===== *)
theory Artifact_Consensus
  imports Fuzzy_Match Priority_Vote
begin

text \<open>
  Consensus over extracted artifacts (\<^verbatim>\<open>src/internal/analyzer/artifacts/consensus.go\<close> with the
  types of \<^verbatim>\<open>types.go\<close>): the artifacts of all valid votes are grouped greedily by fuzzy name
  match, each group becomes one consensus artifact, and the result is sorted.
\<close>

subsection \<open>Types\<close>

datatype ArtifactType =
    ArtifactPolicy
  | ArtifactProcedure
  | ArtifactPlan
  | ArtifactReport
  | ArtifactRecord
  | ArtifactConfiguration
  | ArtifactMechanism
  | ArtifactRole
  | ArtifactProcess
  | ArtifactOther int

fun art_Valid :: "ArtifactType \<Rightarrow> bool" where
  "art_Valid (ArtifactOther _) = False"
| "art_Valid _ = True"

definition AllArtifactTypes :: "ArtifactType list" where
  "AllArtifactTypes =
     [ArtifactPolicy, ArtifactProcedure, ArtifactPlan, ArtifactReport, ArtifactRecord,
      ArtifactConfiguration, ArtifactMechanism, ArtifactRole, ArtifactProcess]"

definition artifactTypeNames :: "string list" where
  "artifactTypeNames =
     [''POLICY'', ''PROCEDURE'', ''PLAN'', ''REPORT'', ''RECORD'', ''CONFIGURATION'', ''MECHANISM'', ''ROLE'', ''PROCESS'']"

definition ParseArtifactType :: "string \<Rightarrow> ArtifactType \<times> bool" where
  "ParseArtifactType s =
     (case find (\<lambda>(name, t). name = s) (zip artifactTypeNames AllArtifactTypes) of
        Some (_, t) \<Rightarrow> (t, True)
      | None \<Rightarrow> (ArtifactPolicy, False))"

datatype ArtParseStatus = ArtParseOK | ArtParseFail | ArtParseNone | ArtParseOther int

record ExtractedArtifact =
  art_Name :: string
  art_Type :: ArtifactType
  art_Frequency :: string
  art_OwnerRole :: string
  art_Description :: string
  art_Properties :: "(string \<times> string) list"

record ArtVote =
  av_VoteKey :: string
  av_Artifacts :: "ExtractedArtifact list"
  av_ParseStatus :: ArtParseStatus

record ConsensusArtifact =
  ca_Name :: string
  ca_Type :: ArtifactType
  ca_Frequency :: string
  ca_OwnerRole :: string
  ca_Description :: string
  ca_Confidence :: real
  ca_VoterKeys :: "string list"
  ca_VoteCount :: nat
  ca_Unanimous :: bool
  ca_Properties :: "(string \<times> string) list"

record taggedArtifact =
  voterKey :: string
  artifact :: ExtractedArtifact

subsection \<open>Grouping\<close>

type_synonym art_votes = "(string \<times> ArtVote option) list"

text \<open>The artifacts of the valid votes, by vote key.\<close>

definition collect_artifacts :: "art_votes \<Rightarrow> taggedArtifact list" where
  "collect_artifacts votes =
     concat (map (\<lambda>k. case map_of votes k of
         Some (Some vote) \<Rightarrow>
           if av_ParseStatus vote \<noteq> ArtParseOK then []
           else map (\<lambda>art. \<lparr>voterKey = av_VoteKey vote, artifact = art\<rparr>) (av_Artifacts vote)
       | _ \<Rightarrow> []) (sort (map fst votes)))"

definition same_name :: "real \<Rightarrow> taggedArtifact \<Rightarrow> taggedArtifact \<Rightarrow> bool" where
  "same_name threshold item rep =
     ArtifactNamesMatch (NormalizeArtifactName (art_Name (artifact item)))
       (NormalizeArtifactName (art_Name (artifact rep))) threshold"

text \<open>One turn of the grouping loop: join the first group whose representative matches.\<close>

fun place_item :: "real \<Rightarrow> taggedArtifact \<Rightarrow> taggedArtifact list list \<Rightarrow> taggedArtifact list list" where
  "place_item threshold item [] = [[item]]"
| "place_item threshold item (grp # groups) =
     (if same_name threshold item (hd grp) then (grp @ [item]) # groups
      else grp # place_item threshold item groups)"

definition group_artifacts :: "real \<Rightarrow> taggedArtifact list \<Rightarrow> taggedArtifact list list" where
  "group_artifacts threshold items = fold (place_item threshold) items []"

subsection \<open>One consensus artifact per group\<close>

definition first_nonempty :: "string list \<Rightarrow> string" where
  "first_nonempty ss = (case find (\<lambda>s. s \<noteq> []) ss of None \<Rightarrow> [] | Some s \<Rightarrow> s)"

definition longest :: "string list \<Rightarrow> string" where
  "longest ss = fold (\<lambda>s best. if length s > length best then s else best) ss []"

definition merge_properties :: "(string \<times> string) list list \<Rightarrow> (string \<times> string) list" where
  "merge_properties pss =
     fold (\<lambda>ps. fold (\<lambda>(k, v) acc. if map_of acc k = None then acc @ [(k, v)] else acc) ps) pss []"

definition buildConsensusFromGroup :: "taggedArtifact list \<Rightarrow> int \<Rightarrow> ConsensusArtifact" where
  "buildConsensusFromGroup grp totalVoters =
     (let voters = remdups (map voterKey grp);
          arts = map artifact grp
      in \<lparr>ca_Name = first_nonempty (map art_Name arts),
          ca_Type = pick_winner ArtifactProcess AllArtifactTypes (map art_Type arts),
          ca_Frequency = first_nonempty (map art_Frequency arts),
          ca_OwnerRole = first_nonempty (map art_OwnerRole arts),
          ca_Description = longest (map art_Description arts),
          ca_Confidence = round3 (real (length voters) / of_int totalVoters),
          ca_VoterKeys = sort voters,
          ca_VoteCount = length voters,
          ca_Unanimous = (int (length voters) = totalVoters),
          ca_Properties = merge_properties (map art_Properties arts)\<rparr>)"

definition artifact_less :: "ConsensusArtifact \<Rightarrow> ConsensusArtifact \<Rightarrow> bool" where
  "artifact_less a b \<longleftrightarrow>
     (if ca_Confidence a \<noteq> ca_Confidence b then ca_Confidence a > ca_Confidence b else ca_Name a < ca_Name b)"

definition ComputeArtConsensus :: "art_votes \<Rightarrow> int \<Rightarrow> real \<Rightarrow> ConsensusArtifact list" where
  "ComputeArtConsensus votes totalVoters fuzzyThreshold =
     (if totalVoters = 0 then []
      else
        (let items = collect_artifacts votes
         in if items = [] then []
            else sort_by artifact_less
              (map (\<lambda>grp. buildConsensusFromGroup grp totalVoters) (group_artifacts fuzzyThreshold items))))"

subsection \<open>The grouping is a partition by representatives\<close>

interpretation artifact_vote: priority_vote art_Valid AllArtifactTypes
proof unfold_locales
  show "t \<in> set AllArtifactTypes \<longleftrightarrow> art_Valid t" for t by (cases t) (simp_all add: AllArtifactTypes_def)
qed (simp add: AllArtifactTypes_def)

interpretation artifact_order: go_less artifact_less
  by unfold_locales (auto simp: artifact_less_def split: if_splits)

text \<open>
  Every group is not empty, its later members match its first one, and the first member of a
  group matches no earlier group's first member.
\<close>

definition groups_ok :: "real \<Rightarrow> taggedArtifact list list \<Rightarrow> bool" where
  "groups_ok threshold groups \<longleftrightarrow>
     (\<forall>g \<in> set groups. g \<noteq> [] \<and> (\<forall>item \<in> set (tl g). same_name threshold item (hd g))) \<and>
     sorted_wrt (\<lambda>g g'. \<not> same_name threshold (hd g') (hd g)) groups"

lemma place_item_mset: "mset (concat (place_item th x gs)) = add_mset x (mset (concat gs))"
  by (induction gs) auto

lemma place_item_hds: "\<forall>g \<in> set gs. g \<noteq> [] \<Longrightarrow>
  hd ` set (place_item th x gs) = hd ` set gs \<or>
  hd ` set (place_item th x gs) = insert x (hd ` set gs) \<and> (\<forall>g \<in> set gs. \<not> same_name th x (hd g))"
  by (induction gs) auto

lemma place_item_ok: "groups_ok th gs \<Longrightarrow> groups_ok th (place_item th x gs)"
proof (induction gs)
  case (Cons g gs)
  have ok: "groups_ok th gs" and ne: "g \<noteq> []" using Cons.prems by (auto simp: groups_ok_def)
  have all: "\<forall>h \<in> set gs. h \<noteq> []" using Cons.prems by (auto simp: groups_ok_def)
  have far: "\<forall>h \<in> hd ` set gs. \<not> same_name th h (hd g)" using Cons.prems by (auto simp: groups_ok_def)
  show ?case
  proof (cases "same_name th x (hd g)")
    case True
    then show ?thesis using Cons.prems ne by (auto simp: groups_ok_def)
  next
    case False
    have "\<forall>h \<in> hd ` set (place_item th x gs). \<not> same_name th h (hd g)"
    proof -
      have "hd ` set (place_item th x gs) \<subseteq> insert x (hd ` set gs)" using place_item_hds [OF all, of th x] by blast
      with far False show ?thesis by blast
    qed
    with False Cons.IH [OF ok] Cons.prems show ?thesis by (auto simp: groups_ok_def)
  qed
qed (simp add: groups_ok_def)

lemma group_artifacts_ok:
  "groups_ok th (group_artifacts th items) \<and> mset (concat (group_artifacts th items)) = mset items"
proof -
  have "groups_ok th gs \<Longrightarrow> groups_ok th (fold (place_item th) items gs) \<and>
      mset (concat (fold (place_item th) items gs)) = mset items + mset (concat gs)" for gs
    by (induction items arbitrary: gs) (auto simp: place_item_ok place_item_mset)
  from this [of "[]"] show ?thesis by (simp add: group_artifacts_def groups_ok_def)
qed

subsection \<open>Properties\<close>

text \<open>
  C21. Grouping loses and duplicates nothing: the groups together hold exactly the collected
  artifacts, no group is empty, every later member of a group matches the group's first
  member, and the first member of a group matches none of the earlier groups.
\<close>

theorem artifact_grouping:
  "mset (concat (group_artifacts th items)) = mset items \<and>
   (\<forall>g \<in> set (group_artifacts th items). g \<noteq> [] \<and> (\<forall>item \<in> set (tl g). same_name th item (hd g))) \<and>
   sorted_wrt (\<lambda>g g'. \<not> same_name th (hd g') (hd g)) (group_artifacts th items)"
  using group_artifacts_ok [of th items] by (simp add: groups_ok_def)

definition example_art :: "string \<Rightarrow> ArtifactType \<Rightarrow> ExtractedArtifact" where
  "example_art n t = \<lparr>art_Name = n, art_Type = t, art_Frequency = [], art_OwnerRole = [], art_Description = [], art_Properties = []\<rparr>"

definition example_art_votes :: art_votes where
  "example_art_votes =
     [(''m2'', Some \<lparr>av_VoteKey = ''m2'', av_Artifacts = [example_art ''Access Policy.'' ArtifactPlan], av_ParseStatus = ArtParseOK\<rparr>),
      (''m1'', Some \<lparr>av_VoteKey = ''m1'', av_Artifacts = [example_art ''the access policy'' ArtifactPolicy], av_ParseStatus = ArtParseOK\<rparr>)]"

theorem artifact_grouping_witness:
  "mset (concat (group_artifacts (3 / 5) (collect_artifacts example_art_votes))) = mset (collect_artifacts example_art_votes)"
  using artifact_grouping by blast



end
