(* ===== verification/Candidates.thy ===== *)
theory Candidates
  imports Go_Prelude "HOL-Library.AList"
begin

text \<open>
  Candidate pairs and their aggregation (\<^verbatim>\<open>src/pkg/analyzer/candidate\<close>: \<^verbatim>\<open>types.go\<close>,
  \<^verbatim>\<open>aggregation.go\<close>, \<^verbatim>\<open>registry.go\<close>): union, weighted union, reciprocal rank fusion with
  fractional ranks, and the registry that runs the generators.

  Scores and weights are exact reals. A Go map that is iterated is an association list, in
  the order in which its keys were first stored.
\<close>

subsection \<open>Types\<close>

record Contribution =
  con_GeneratorID :: string
  con_Score :: real
  con_Weight :: real
  con_Rank :: real
  con_Metadata :: "(string \<times> string) list"

record Candidate =
  SourceID :: string
  TargetID :: string
  Score :: real
  cand_Weight :: real
  GeneratorID :: string
  Metadata :: "(string \<times> string) list"
  Contributions :: "Contribution list"

datatype cand_error =
    ErrUnknownStrategy string
  | ErrMaxPerSource int
  | ErrEmptyGeneratorName
  | ErrGeneratorRegistered string
  | ErrGeneratorNotFound string
  | ErrParam string string
  | ErrTopK string
  | ErrGeneratorFailed string cand_error

definition pairKey :: "string \<Rightarrow> string \<Rightarrow> string" where
  "pairKey sourceID targetID = sourceID @ '':'' @ targetID"

subsection \<open>Union\<close>

definition aggregateUnion :: "Candidate list list \<Rightarrow> Candidate list" where
  "aggregateUnion candidateSets =
     map snd (fold (fold (\<lambda>c seen. let key = pairKey (SourceID c) (TargetID c)
         in if map_of seen key = None then seen @ [(key, c)] else seen)) candidateSets [])"

subsection \<open>Weighted union\<close>

record pairData =
  pd_weightedSum :: real
  pd_totalWeight :: real
  pd_contributions :: "Candidate list"

definition add_pair :: "Candidate \<Rightarrow> (string \<times> pairData) list \<Rightarrow> (string \<times> pairData) list" where
  "add_pair c pairs =
     (let key = pairKey (SourceID c) (TargetID c);
          pd = (case map_of pairs key of
                  None \<Rightarrow> \<lparr>pd_weightedSum = 0, pd_totalWeight = 0, pd_contributions = []\<rparr>
                | Some pd \<Rightarrow> pd)
      in AList.update key
           \<lparr>pd_weightedSum = pd_weightedSum pd + cand_Weight c * Score c,
            pd_totalWeight = pd_totalWeight pd + cand_Weight c,
            pd_contributions = pd_contributions pd @ [c]\<rparr> pairs)"

definition weighted_result :: "real \<Rightarrow> pairData \<Rightarrow> Candidate option" where
  "weighted_result minScore pd =
     (if pd_totalWeight pd = 0 then None
      else
        (let normalizedScore = pd_weightedSum pd / pd_totalWeight pd
         in if normalizedScore \<ge> minScore
            then Some ((hd (pd_contributions pd))\<lparr>Score := normalizedScore\<rparr>)
            else None))"

definition aggregateWeightedUnion :: "Candidate list list \<Rightarrow> real \<Rightarrow> Candidate list" where
  "aggregateWeightedUnion candidateSets minScore =
     List.map_filter (\<lambda>(_, pd). weighted_result minScore pd) (fold (fold add_pair) candidateSets [])"

subsection \<open>Fractional ranks\<close>

definition rank_less :: "Candidate \<Rightarrow> Candidate \<Rightarrow> bool" where
  "rank_less a b \<longleftrightarrow> (if Score a \<noteq> Score b then Score a > Score b else TargetID a < TargetID b)"

text \<open>
  The outer loop over the sorted scores: \<open>i\<close> is the position of the first of a run of ties,
  and every member of the run gets the mean of the positions the run spans.
\<close>

function run_means :: "nat \<Rightarrow> real list \<Rightarrow> real list" where
  "run_means i [] = []"
| "run_means i (s # ss) =
     (let run = length (takeWhile (\<lambda>x. x = s) ss);
          j = i + run
      in replicate (Suc run) (real (i + 1 + j + 1) / 2) @ run_means (j + 1) (drop run ss))"
  by pat_completeness auto
termination by (relation "measure (\<lambda>(i, ss). length ss)") auto

definition fractionalRanks :: "Candidate list \<Rightarrow> real list" where
  "fractionalRanks cands =
     (let ord = sort_by (\<lambda>a b. rank_less (cands ! a) (cands ! b)) [0..<length cands];
          means = run_means 0 (map (\<lambda>ix. Score (cands ! ix)) ord)
      in fold (\<lambda>(ix, mean) ranks. ranks[ix := mean]) (zip ord means) (replicate (length cands) 0))"

subsection \<open>Rank fusion\<close>

definition rrfK :: real where
  "rrfK = 60"

definition by_source :: "Candidate list \<Rightarrow> (string \<times> Candidate list) list" where
  "by_source cs = map (\<lambda>s. (s, filter (\<lambda>c. SourceID c = s) cs)) (remdups (map SourceID cs))"

definition fused_with :: "Candidate \<Rightarrow> real \<Rightarrow> Candidate option \<Rightarrow> Candidate" where
  "fused_with c rank known =
     (let fused = (case known of
              None \<Rightarrow> \<lparr>SourceID = SourceID c, TargetID = TargetID c, Score = 0, cand_Weight = 1, GeneratorID = [],
                       Metadata = [], Contributions = []\<rparr>
            | Some f \<Rightarrow> f)
      in fused\<lparr>Contributions := Contributions fused @
           [\<lparr>con_GeneratorID = GeneratorID c, con_Score = Score c, con_Weight = cand_Weight c,
             con_Rank = rank, con_Metadata = Metadata c\<rparr>]\<rparr>)"

definition contribute :: "Candidate \<times> real \<Rightarrow> (string \<times> Candidate) list \<Rightarrow> (string \<times> Candidate) list" where
  "contribute cr pairs =
     (let (c, rank) = cr;
          key = pairKey (SourceID c) (TargetID c)
      in AList.update key (fused_with c rank (map_of pairs key)) pairs)"

text \<open>Every candidate of a set with its rank among the candidates of its source.\<close>

definition ranked :: "Candidate list \<Rightarrow> (Candidate \<times> real) list" where
  "ranked cs = concat (map (\<lambda>(_, cands). zip cands (fractionalRanks cands)) (by_source cs))"

definition fuse_pairs :: "Candidate list list \<Rightarrow> (string \<times> Candidate) list" where
  "fuse_pairs candidateSets = fold (\<lambda>cs. fold contribute (ranked cs)) candidateSets []"

definition finish_fused :: "Candidate \<Rightarrow> Candidate" where
  "finish_fused fused =
     (let cons = sort_by (\<lambda>a b. con_GeneratorID a < con_GeneratorID b) (Contributions fused)
      in fused\<lparr>Contributions := cons,
               Score := Score fused + sum_list (map (\<lambda>con. con_Weight con / (rrfK + con_Rank con)) cons),
               GeneratorID := join_with ''+'' (map con_GeneratorID cons)\<rparr>)"

definition aggregateRankFusion :: "Candidate list list \<Rightarrow> int \<Rightarrow> cand_error + Candidate list" where
  "aggregateRankFusion candidateSets maxPerSource =
     (if maxPerSource < 1 then Inl (ErrMaxPerSource maxPerSource)
      else
        (let fused = map (\<lambda>(_, f). finish_fused f) (fuse_pairs candidateSets);
             sourceIDs = sort (remdups (map SourceID fused))
         in Inr (concat (map (\<lambda>s. take (nat maxPerSource) (sort_by rank_less (filter (\<lambda>c. SourceID c = s) fused)))
                  sourceIDs))))"

subsection \<open>The registry\<close>

record generateConfig =
  minScore :: real
  maxPerSource :: int

definition WithMinScore :: "real \<Rightarrow> generateConfig \<Rightarrow> generateConfig" where
  "WithMinScore s cfg = cfg\<lparr>minScore := s\<rparr>"

definition WithMaxPerSource :: "int \<Rightarrow> generateConfig \<Rightarrow> generateConfig" where
  "WithMaxPerSource n cfg = cfg\<lparr>maxPerSource := n\<rparr>"

definition aggregate :: "Candidate list list \<Rightarrow> string \<Rightarrow> generateConfig \<Rightarrow> cand_error + Candidate list" where
  "aggregate candidateSets strategy cfg =
     (if strategy = ''union'' then Inr (aggregateUnion candidateSets)
      else if strategy = ''weighted_union'' then Inr (aggregateWeightedUnion candidateSets (minScore cfg))
      else if strategy = ''rank_fusion'' then aggregateRankFusion candidateSets (maxPerSource cfg)
      else Inl (ErrUnknownStrategy strategy))"

text \<open>A generator is its \<^verbatim>\<open>Generate\<close> method, stored under its name.\<close>

type_synonym 'req generator = "'req \<Rightarrow> cand_error + Candidate list"
type_synonym 'req generators = "(string \<times> 'req generator) list"

definition cand_Register :: "'req generators \<Rightarrow> string \<Rightarrow> 'req generator \<Rightarrow> cand_error + 'req generators" where
  "cand_Register r name g =
     (if name = [] then Inl ErrEmptyGeneratorName
      else if map_of r name \<noteq> None then Inl (ErrGeneratorRegistered name)
      else Inr (r @ [(name, g)]))"

definition cand_Get :: "'req generators \<Rightarrow> string \<Rightarrow> cand_error + 'req generator" where
  "cand_Get r name = (case map_of r name of None \<Rightarrow> Inl (ErrGeneratorNotFound name) | Some g \<Rightarrow> Inr g)"

fun run_generators :: "'req generators \<Rightarrow> 'req \<Rightarrow> Candidate list list \<Rightarrow> cand_error + Candidate list list" where
  "run_generators [] req sets = Inr sets"
| "run_generators ((name, g) # gs) req sets =
     (case g req of
        Inl e \<Rightarrow> Inl (ErrGeneratorFailed name e)
      | Inr cs \<Rightarrow> run_generators gs req (sets @ [cs]))"

definition cand_Generate ::
  "'req generators \<Rightarrow> 'req \<Rightarrow> string \<Rightarrow> (generateConfig \<Rightarrow> generateConfig) list \<Rightarrow> cand_error + Candidate list" where
  "cand_Generate r req strategy opts =
     (let cfg = fold (\<lambda>opt c. opt c) opts \<lparr>minScore = 0, maxPerSource = 0\<rparr>
      in if r = [] then Inr []
         else
           (case run_generators r req [] of
              Inl e \<Rightarrow> Inl e
            | Inr sets \<Rightarrow> aggregate sets strategy cfg))"

subsection \<open>Fractional ranks agree with their definition\<close>

lemma fold_fold_concat: "fold (fold f) xss = fold f (concat xss)"
  by (induction xss) auto

lemma length_run_means [simp]: "length (run_means i ss) = length ss"
proof (induction i ss rule: run_means.induct)
  case (2 i s ss)
  have "length (takeWhile (\<lambda>x. x = s) ss) \<le> length ss" by (rule length_takeWhile_le)
  with 2 show ?case by (simp add: Let_def)
qed simp

lemma sorted_run:
  assumes "sorted_wrt (\<ge>) (s # ss)"
  defines "run \<equiv> length (takeWhile (\<lambda>x. x = s) ss)"
  shows "ss = replicate run s @ drop run ss" and "\<forall>x \<in> set (drop run ss). x < (s :: real)"
    and "sorted_wrt (\<ge>) (drop run ss)"
proof -
  have "takeWhile (\<lambda>x. x = s) ss = replicate run s"
    unfolding run_def by (rule replicate_eqI) (auto dest: set_takeWhileD)
  moreover have d: "drop run ss = dropWhile (\<lambda>x. x = s) ss" unfolding run_def by (simp add: dropWhile_eq_drop)
  ultimately show "ss = replicate run s @ drop run ss" by (metis takeWhile_dropWhile_id)
  show "sorted_wrt (\<ge>) (drop run ss)" using assms(1) by (simp add: sorted_wrt_drop)
  show "\<forall>x \<in> set (drop run ss). x < s"
  proof (cases "drop run ss")
    case (Cons y ys)
    then have "y \<noteq> s" unfolding d by (metis (mono_tags, lifting) dropWhile_eq_Cons_conv)
    moreover have "\<forall>x \<in> set (drop run ss). x \<le> s" using assms(1) by (auto dest: in_set_dropD)
    moreover have "\<forall>x \<in> set ys. x \<le> y" using \<open>sorted_wrt (\<ge>) (drop run ss)\<close> Cons by simp
    ultimately show ?thesis using Cons by fastforce
  qed simp
qed

lemma run_means_nth:
  "sorted_wrt (\<ge>) ss \<Longrightarrow> k < length ss \<Longrightarrow>
     run_means i ss ! k = real i + real (length (filter (\<lambda>x. x > ss ! k) ss)) +
       (real (length (filter (\<lambda>x. x = ss ! k) ss)) + 1) / 2"
proof (induction i ss arbitrary: k rule: run_means.induct)
  case (2 i s ss)
  define run where "run = length (takeWhile (\<lambda>x. x = s) ss)"
  define rest where "rest = drop run ss"
  have ss: "ss = replicate run s @ rest" and lt: "\<forall>x \<in> set rest. x < s" and srt: "sorted_wrt (\<ge>) rest"
    using sorted_run [OF "2.prems"(1)] unfolding run_def rest_def by blast+
  have all: "s # ss = replicate (Suc run) s @ rest" using ss by simp
  have means: "run_means i (s # ss) = replicate (Suc run) (real (i + 1 + (i + run) + 1) / 2) @ run_means (i + run + 1) rest"
    by (simp add: Let_def run_def rest_def)
  show ?case
  proof (cases "k < Suc run")
    case True
    then have nk: "(s # ss) ! k = s" unfolding all nth_append by (simp add: nth_replicate del: replicate.simps)
    have "filter (\<lambda>x. x > s) rest = []" "filter (\<lambda>x. x = s) rest = []" using lt by (auto simp: filter_empty_conv)
    then have "length (filter (\<lambda>x. x > s) (s # ss)) = 0" "length (filter (\<lambda>x. x = s) (s # ss)) = Suc run"
      unfolding all by simp_all
    moreover have "run_means i (s # ss) ! k = real (i + 1 + (i + run) + 1) / 2"
      unfolding means nth_append using True by (simp add: nth_replicate del: replicate.simps)
    moreover have "real (i + 1 + (i + run) + 1) / 2 = real i + real 0 + (real (Suc run) + 1) / 2" by simp
    ultimately show ?thesis unfolding nk by (simp only:)
  next
    case False
    define k' where "k' = k - Suc run"
    have k': "k' < length rest" using "2.prems"(2) False unfolding all k'_def by (simp del: replicate.simps)
    have nk: "(s # ss) ! k = rest ! k'" unfolding all nth_append using False by (simp add: k'_def del: replicate.simps)
    have "rest ! k' < s" using lt k' by simp
    then have "length (filter (\<lambda>x. x > rest ! k') (s # ss)) = Suc run + length (filter (\<lambda>x. x > rest ! k') rest)"
      "length (filter (\<lambda>x. x = rest ! k') (s # ss)) = length (filter (\<lambda>x. x = rest ! k') rest)"
      unfolding all by simp_all
    moreover have "run_means i (s # ss) ! k = run_means (i + run + 1) rest ! k'"
      unfolding means nth_append using False by (simp add: k'_def del: replicate.simps)
    moreover have "run_means (i + run + 1) rest ! k' = real (i + run + 1) + real (length (filter (\<lambda>x. x > rest ! k') rest)) +
        (real (length (filter (\<lambda>x. x = rest ! k') rest)) + 1) / 2"
      using "2.IH" [of run "i + run"] srt k' unfolding run_def rest_def by simp
    ultimately show ?thesis unfolding nk by simp
  qed
qed simp

interpretation rank_order: go_less rank_less
  by unfold_locales (auto simp: rank_less_def split: if_splits)

interpretation index_order: go_less "\<lambda>a b. rank_less (cands ! a) (cands ! b)" for cands
  by unfold_locales (auto dest: rank_order.lt_asym rank_order.lt_not_trans)

lemma fold_update_nth:
  "distinct (map fst ps) \<Longrightarrow> \<forall>p \<in> set ps. fst p < length r \<Longrightarrow> k < length ps \<Longrightarrow>
     fold (\<lambda>(ix, m) r. r[ix := m]) ps r ! fst (ps ! k) = snd (ps ! k)"
proof (induction ps arbitrary: r k)
  case (Cons p ps)
  obtain ix m where p: "p = (ix, m)" by fastforce
  have keep: "ix \<notin> fst ` set qs \<Longrightarrow> fold (\<lambda>(ix, m) r. r[ix := m]) qs r ! ix = r ! ix" for qs :: "(nat \<times> 'a) list" and r
    by (induction qs arbitrary: r) auto
  show ?case
  proof (cases k)
    case 0
    then show ?thesis using Cons.prems keep [of ps "r[ix := m]"] by (simp add: p)
  next
    case (Suc j)
    then show ?thesis using Cons.IH [of "r[ix := m]" j] Cons.prems by (simp add: p)
  qed
qed simp

lemma length_fold_update [simp]: "length (fold (\<lambda>(ix, m) r. r[ix := m]) ps r) = length r"
  by (induction ps arbitrary: r) auto

lemma length_fractionalRanks [simp]: "length (fractionalRanks cands) = length cands"
  by (simp add: fractionalRanks_def Let_def)

lemma fractionalRanks_nth:
  assumes "i < length cands"
  shows "fractionalRanks cands ! i =
    real (length (filter (\<lambda>c. Score c > Score (cands ! i)) cands)) +
    (real (length (filter (\<lambda>c. Score c = Score (cands ! i)) cands)) + 1) / 2"
proof -
  define ord where "ord = sort_by (\<lambda>a b. rank_less (cands ! a) (cands ! b)) [0..<length cands]"
  define ss where "ss = map (\<lambda>ix. Score (cands ! ix)) ord"
  have set: "set ord = {0..<length cands}" and d: "distinct ord" and len: "length ord = length cands"
    by (simp_all add: ord_def)
  have "sorted_wrt (\<lambda>a b. \<not> rank_less (cands ! b) (cands ! a)) ord"
    unfolding ord_def by (rule index_order.sort_by_sorted)
  then have srt: "sorted_wrt (\<ge>) ss"
    unfolding ss_def sorted_wrt_map by (rule sorted_wrt_mono_rel [rotated]) (auto simp: rank_less_def split: if_splits)
  have "mset ss = mset (map (\<lambda>ix. Score (cands ! ix)) [0..<length cands])" by (simp add: ss_def ord_def)
  then have ms: "mset ss = mset (map Score cands)" by (simp add: map_nth flip: map_map [unfolded comp_def])
  have cnt: "length (filter P ss) = length (filter (\<lambda>c. P (Score c)) cands)" for P
  proof -
    have "mset (filter P ss) = mset (filter P (map Score cands))" unfolding mset_filter ms ..
    from mset_eq_length [OF this] show ?thesis by (simp add: filter_map comp_def)
  qed
  obtain k where k: "k < length ord" "ord ! k = i" using assms set by (metis atLeastLessThan_iff in_set_conv_nth le0)
  have "\<forall>p \<in> set (zip ord (run_means 0 ss)). fst p < length (replicate (length cands) (0 :: real))"
    using set by (auto dest: set_zip_leftD)
  then have "fractionalRanks cands ! i = run_means 0 ss ! k"
    using fold_update_nth [of "zip ord (run_means 0 ss)" "replicate (length cands) 0" k] k d len set
    by (auto simp: fractionalRanks_def Let_def ss_def simp flip: ord_def)
  also have "\<dots> = real (length (filter (\<lambda>x. x > ss ! k) ss)) + (real (length (filter (\<lambda>x. x = ss ! k) ss)) + 1) / 2"
    using run_means_nth [OF srt, of k 0] k(1) by (simp add: ss_def)
  also have "ss ! k = Score (cands ! i)" using k by (simp add: ss_def)
  finally show ?thesis by (simp add: cnt)
qed

subsection \<open>Union keeps the first candidate of each pair\<close>

abbreviation cand_key :: "Candidate \<Rightarrow> string" where
  "cand_key c \<equiv> pairKey (SourceID c) (TargetID c)"

definition cand_pair :: "Candidate \<Rightarrow> string \<times> string" where
  "cand_pair c = (SourceID c, TargetID c)"

text \<open>Without a colon in the source IDs, the key determines the pair.\<close>

definition colon_free :: "Candidate list \<Rightarrow> bool" where
  "colon_free cs \<longleftrightarrow> (\<forall>c \<in> set cs. CHR '':'' \<notin> set (SourceID c))"

lemma pairKey_inj:
  assumes "CHR '':'' \<notin> set s" and "CHR '':'' \<notin> set s'"
  shows "pairKey s t = pairKey s' t' \<longleftrightarrow> s = s' \<and> t = t'"
proof
  assume e: "pairKey s t = pairKey s' t'"
  have tw: "takeWhile (\<lambda>c. c \<noteq> CHR '':'') (pairKey s t) = s" if "CHR '':'' \<notin> set s" for s t
    using that unfolding pairKey_def by (subst takeWhile_append2) auto
  from tw [OF assms(1), of t] tw [OF assms(2), of t'] e have "s = s'" by simp
  with e show "s = s' \<and> t = t'" by (simp add: pairKey_def)
qed simp

lemma cand_key_pair:
  "colon_free cs \<Longrightarrow> c \<in> set cs \<Longrightarrow> d \<in> set cs \<Longrightarrow> cand_key c = cand_key d \<longleftrightarrow> cand_pair c = cand_pair d"
  by (simp add: colon_free_def pairKey_inj cand_pair_def)

definition union_step :: "Candidate \<Rightarrow> (string \<times> Candidate) list \<Rightarrow> (string \<times> Candidate) list" where
  "union_step c seen = (if map_of seen (cand_key c) = None then seen @ [(cand_key c, c)] else seen)"

lemma set_take_drop: "set xs = set (take n xs) \<union> set (drop n xs)"
  by (metis append_take_drop_id set_append)

lemma find_in_set: "find P xs = Some x \<Longrightarrow> x \<in> set xs \<and> P x"
  by (induction xs) (auto split: if_splits)

lemma find_append:
  "find P (xs @ ys) = (case find P xs of None \<Rightarrow> find P ys | Some x \<Rightarrow> Some x)"
  by (induction xs) auto

definition union_inv :: "Candidate list \<Rightarrow> (string \<times> Candidate) list \<Rightarrow> bool" where
  "union_inv cs seen \<longleftrightarrow> distinct (map fst seen) \<and> fst ` set seen = cand_key ` set cs \<and>
     (\<forall>(k, c) \<in> set seen. k = cand_key c \<and> find (\<lambda>d. cand_key d = k) cs = Some c)"

lemma union_step_inv:
  assumes "union_inv cs seen"
  shows "union_inv (cs @ [c]) (union_step c seen)"
proof (cases "cand_key c \<in> cand_key ` set cs")
  case True
  then have "map_of seen (cand_key c) \<noteq> None" using assms by (simp add: union_inv_def map_of_eq_None_iff)
  then have "union_step c seen = seen" by (simp add: union_step_def)
  then show ?thesis using assms True unfolding union_inv_def by (force simp: find_append)
next
  case False
  then have "map_of seen (cand_key c) = None" using assms by (simp add: union_inv_def map_of_eq_None_iff)
  then have s: "union_step c seen = seen @ [(cand_key c, c)]" by (simp add: union_step_def)
  have "find (\<lambda>d. cand_key d = cand_key c) cs = None" using False by (auto simp: find_None_iff image_iff)
  then have "find (\<lambda>d. cand_key d = cand_key c) (cs @ [c]) = Some c" by (simp add: find_append)
  then show ?thesis using assms False unfolding union_inv_def s by (force simp: find_append)
qed

lemma union_fold: "union_inv cs (fold union_step cs [])"
  by (induction cs rule: rev_induct) (simp_all add: union_step_inv, simp add: union_inv_def)

lemma aggregateUnion_fold: "aggregateUnion sets = map snd (fold union_step (concat sets) [])"
proof -
  have "(\<lambda>c seen. let key = cand_key c in if map_of seen key = None then seen @ [(key, c)] else seen) = union_step"
    by (simp add: fun_eq_iff union_step_def Let_def)
  then show ?thesis by (simp add: aggregateUnion_def fold_fold_concat)
qed

subsection \<open>What rank fusion sums\<close>

definition fused_share :: "Candidate \<times> real \<Rightarrow> real" where
  "fused_share cr = cand_Weight (fst cr) / (rrfK + snd cr)"

text \<open>The reciprocal-rank score of a pair: one share for each time it was proposed.\<close>

definition rrf_score :: "Candidate list list \<Rightarrow> string \<times> string \<Rightarrow> real" where
  "rrf_score sets p =
     sum_list (map fused_share (filter (\<lambda>cr. cand_pair (fst cr) = p) (concat (map ranked sets))))"

definition con_share :: "Contribution \<Rightarrow> real" where
  "con_share con = con_Weight con / (rrfK + con_Rank con)"

lemma contribute_fold:
  "distinct (map fst (fold contribute xs [])) \<and>
   (case map_of (fold contribute xs []) k of
      None \<Rightarrow> k \<notin> (\<lambda>cr. cand_key (fst cr)) ` set xs
    | Some f \<Rightarrow> (\<exists>c \<in> fst ` set xs. cand_key c = k \<and> cand_pair c = cand_pair f) \<and> Score f = 0 \<and>
        sum_list (map con_share (Contributions f)) =
          sum_list (map fused_share (filter (\<lambda>cr. cand_key (fst cr) = k) xs)))"
proof (induction xs rule: rev_induct)
  case (snoc x xs)
  obtain c r where x: "x = (c, r)" by fastforce
  let ?P = "fold contribute xs []"
  have step: "contribute x ?P = AList.update (cand_key c) (fused_with c r (map_of ?P (cand_key c))) ?P"
    by (simp add: x contribute_def Let_def)
  have d: "distinct (map fst (contribute x ?P))" unfolding step using snoc by (simp add: distinct_update)
  show ?case
  proof (cases "cand_key c = k")
    case True
    have "map_of (contribute x ?P) k = Some (fused_with c r (map_of ?P k))"
      unfolding step using True by (simp add: update_conv')
    show ?thesis
    proof (cases "map_of ?P k")
      case None
      then have "filter (\<lambda>cr. cand_key (fst cr) = k) xs = []" using snoc by (auto simp: filter_empty_conv)
      with \<open>map_of (contribute x ?P) k = _\<close> d True None show ?thesis
        by (simp add: x fused_with_def con_share_def fused_share_def cand_pair_def)
    next
      case (Some f)
      with \<open>map_of (contribute x ?P) k = _\<close> d True snoc show ?thesis
        by (simp add: x fused_with_def con_share_def fused_share_def cand_pair_def)
    qed
  next
    case False
    then have "map_of (contribute x ?P) k = map_of ?P k" unfolding step by (simp add: update_conv')
    then show ?thesis using snoc d False by (cases "map_of ?P k") (auto simp: x)
  qed
qed simp

lemma set_ranked: "fst ` set (ranked cs) = set cs"
proof -
  have z: "fst ` set (zip cands (fractionalRanks cands)) = set cands" for cands
    by (metis length_fractionalRanks list.set_map map_fst_zip)
  have "fst ` set (ranked cs) = (\<Union>p \<in> set (by_source cs). fst ` set (zip (snd p) (fractionalRanks (snd p))))"
    by (simp add: ranked_def split_beta image_UN)
  also have "\<dots> = (\<Union>p \<in> set (by_source cs). set (snd p))" by (simp add: z)
  also have "\<dots> = set cs" by (auto simp: by_source_def)
  finally show ?thesis .
qed

lemma fuse_pairs_concat: "fuse_pairs sets = fold contribute (concat (map ranked sets)) []"
proof -
  have "fold (\<lambda>cs. fold contribute (ranked cs)) sets P = fold contribute (concat (map ranked sets)) P" for P
    by (induction sets arbitrary: P) auto
  then show ?thesis by (simp add: fuse_pairs_def)
qed

lemma finish_fused_fields [simp]:
  "SourceID (finish_fused f) = SourceID f" "TargetID (finish_fused f) = TargetID f"
  "cand_pair (finish_fused f) = cand_pair f"
  by (simp_all add: finish_fused_def Let_def cand_pair_def)

lemma finish_fused_score: "Score f = 0 \<Longrightarrow> Score (finish_fused f) = sum_list (map con_share (Contributions f))"
proof -
  assume "Score f = 0"
  then have "Score (finish_fused f) = sum_list (map con_share (sort_by (\<lambda>a b. con_GeneratorID a < con_GeneratorID b) (Contributions f)))"
    by (simp add: finish_fused_def Let_def con_share_def [abs_def])
  also have "\<dots> = sum_list (map con_share (Contributions f))"
    by (rule sum_list_mset_cong) simp
  finally show ?thesis .
qed

lemma fused_facts:
  assumes "colon_free (concat sets)"
  defines "F \<equiv> map (\<lambda>(_, f). finish_fused f) (fuse_pairs sets)"
  shows "distinct (map cand_pair F)" "cand_pair ` set F = cand_pair ` set (concat sets)"
    "f \<in> set F \<Longrightarrow> Score f = rrf_score sets (cand_pair f)"
proof -
  let ?X = "concat (map ranked sets)"
  have X: "fst ` set ?X = set (concat sets)" using set_ranked by (auto simp: image_Union)
  have P: "map_of (fuse_pairs sets) k = Some f \<longleftrightarrow> (k, f) \<in> set (fuse_pairs sets)" for k f
    using contribute_fold [of ?X] by (auto simp: fuse_pairs_concat)
  have at: "\<exists>c \<in> set (concat sets). cand_key c = k \<and> cand_pair c = cand_pair f"
    "Score f = 0" "sum_list (map con_share (Contributions f)) = sum_list (map fused_share (filter (\<lambda>cr. cand_key (fst cr) = k) ?X))"
    if "(k, f) \<in> set (fuse_pairs sets)" for k f
    using that [folded P] contribute_fold [of ?X k] unfolding X [symmetric] fuse_pairs_concat by auto
  have key: "k = cand_key f" if "(k, f) \<in> set (fuse_pairs sets)" for k f
    using at(1) [OF that] by (auto simp: cand_pair_def)
  have "map cand_pair F = map (\<lambda>(_, f). cand_pair f) (fuse_pairs sets)" by (auto simp: F_def)
  moreover have "inj_on (\<lambda>(_, f). cand_pair f) (set (fuse_pairs sets))"
  proof (rule inj_onI, clarify)
    fix k f k' f'
    assume a: "(k, f) \<in> set (fuse_pairs sets)" "(k', f') \<in> set (fuse_pairs sets)" "cand_pair f = cand_pair f'"
    then have "k = k'" using key [OF a(1)] key [OF a(2)] by (simp add: cand_pair_def)
    with a show "k = k' \<and> f = f'" using P by (metis option.inject)
  qed
  moreover have "distinct (fuse_pairs sets)"
    using contribute_fold [of ?X] by (simp add: fuse_pairs_concat distinct_map)
  ultimately show "distinct (map cand_pair F)" by (simp add: distinct_map)
  show "cand_pair ` set F = cand_pair ` set (concat sets)"
  proof
    show "cand_pair ` set F \<subseteq> cand_pair ` set (concat sets)"
    proof
      fix p assume "p \<in> cand_pair ` set F"
      then obtain k f where f: "(k, f) \<in> set (fuse_pairs sets)" "p = cand_pair f" by (auto simp: F_def)
      from at(1) [OF f(1)] f(2) show "p \<in> cand_pair ` set (concat sets)" by (metis image_eqI)
    qed
    show "cand_pair ` set (concat sets) \<subseteq> cand_pair ` set F"
    proof
      fix p assume "p \<in> cand_pair ` set (concat sets)"
      then obtain c where c: "c \<in> set (concat sets)" "p = cand_pair c" by blast
      then obtain f where f: "(cand_key c, f) \<in> set (fuse_pairs sets)"
        using contribute_fold [of ?X "cand_key c"] unfolding X [symmetric] P [symmetric] fuse_pairs_concat
        by (cases "map_of (fold contribute ?X []) (cand_key c)") auto
      from at(1) [OF f] obtain d where d: "d \<in> set (concat sets)" "cand_key d = cand_key c" "cand_pair d = cand_pair f" by blast
      with cand_key_pair [OF assms(1), of d c] c have "cand_pair f = p" by simp
      moreover have "finish_fused f \<in> set F" using imageI [OF f, of "\<lambda>(_, f). finish_fused f"] by (simp add: F_def)
      ultimately show "p \<in> cand_pair ` set F" by (intro image_eqI [of _ _ "finish_fused f"]) simp_all
    qed
  qed
  assume "f \<in> set F"
  then obtain k g where g: "(k, g) \<in> set (fuse_pairs sets)" "f = finish_fused g" by (auto simp: F_def)
  from at(1) [OF g(1)] obtain d where d: "d \<in> set (concat sets)" "cand_key d = k" "cand_pair d = cand_pair g" by blast
  have "filter (\<lambda>cr. cand_key (fst cr) = k) ?X = filter (\<lambda>cr. cand_pair (fst cr) = cand_pair g) ?X"
    by (rule filter_cong [OF refl]) (use cand_key_pair [OF assms(1)] d X in \<open>metis image_eqI\<close>)
  then show "Score f = rrf_score sets (cand_pair f)"
    using g at(2,3) [OF g(1)] by (simp add: finish_fused_score rrf_score_def)
qed

subsection \<open>Blocks by source\<close>

text \<open>The result of rank fusion is one block per source; each block has only its source.\<close>

definition source_blocks :: "(string \<Rightarrow> Candidate list) \<Rightarrow> bool" where
  "source_blocks f \<longleftrightarrow> (\<forall>s. \<forall>c \<in> set (f s). SourceID c = s)"

lemma blocks_filter:
  "source_blocks f \<Longrightarrow> distinct ss \<Longrightarrow>
     filter (\<lambda>c. SourceID c = s) (concat (map f ss)) = (if s \<in> set ss then f s else [])"
proof (induction ss)
  case (Cons t ss)
  have "filter (\<lambda>c. SourceID c = s) (f t) = (if s = t then f t else [])"
    using Cons.prems(1) by (auto simp: source_blocks_def filter_empty_conv intro!: filter_True)
  with Cons show ?case by auto
qed simp

lemma blocks_distinct:
  assumes "source_blocks f" and "\<And>s. distinct (map cand_pair (f s))"
  shows "distinct ss \<Longrightarrow> distinct (map cand_pair (concat (map f ss)))"
proof (induction ss)
  case (Cons t ss)
  have "cand_pair ` set (f t) \<inter> cand_pair ` set (concat (map f ss)) = {}"
    using assms(1) Cons.prems by (force simp: source_blocks_def cand_pair_def)
  with Cons assms(2) [of t] show ?case by auto
qed simp

definition fusion_less :: "Candidate \<Rightarrow> Candidate \<Rightarrow> bool" where
  "fusion_less a b \<longleftrightarrow> (if SourceID a \<noteq> SourceID b then SourceID a < SourceID b else rank_less a b)"

lemma blocks_sorted:
  assumes "source_blocks f" and "\<And>s. sorted_wrt (\<lambda>a b. \<not> rank_less b a) (f s)"
  shows "sorted_wrt (<) ss \<Longrightarrow> sorted_wrt (\<lambda>a b. \<not> fusion_less b a) (concat (map f ss))"
proof (induction ss)
  case (Cons t ss)
  have "sorted_wrt (\<lambda>a b. \<not> fusion_less b a) (f t)"
    using assms(2) [of t] by (rule sorted_wrt_mono_rel [rotated])
      (use assms(1) in \<open>auto simp: source_blocks_def fusion_less_def\<close>)
  moreover have "\<not> fusion_less b a" if "a \<in> set (f t)" "b \<in> set (concat (map f ss))" for a b
  proof -
    from that(2) obtain u where "u \<in> set ss" "b \<in> set (f u)" by auto
    with that(1) assms(1) Cons.prems have "SourceID a = t" "SourceID b = u" "t < u" by (auto simp: source_blocks_def)
    then show ?thesis by (auto simp: fusion_less_def)
  qed
  ultimately show ?case using Cons by (simp add: sorted_wrt_append)
qed simp

text \<open>The best candidates of each source, as the end of rank fusion selects them from distinct pairs.\<close>

definition top_block :: "int \<Rightarrow> Candidate list \<Rightarrow> string \<Rightarrow> Candidate list" where
  "top_block m F s = take (nat m) (sort_by rank_less (filter (\<lambda>c. SourceID c = s) F))"

definition top_blocks :: "int \<Rightarrow> Candidate list \<Rightarrow> Candidate list" where
  "top_blocks m F = concat (map (top_block m F) (sort (remdups (map SourceID F))))"

lemma set_top_block: "set (top_block m F s) \<subseteq> {c \<in> set F. SourceID c = s}"
  unfolding top_block_def using set_take_subset [of "nat m" "sort_by rank_less (filter (\<lambda>c. SourceID c = s) F)"] by auto

lemma top_block_distinct:
  assumes "distinct (map cand_pair F)"
  shows "distinct (map cand_pair (top_block m F s))"
proof -
  let ?pool = "filter (\<lambda>c. SourceID c = s) F"
  have "mset (map cand_pair (sort_by rank_less ?pool)) = mset (map cand_pair ?pool)" by simp
  then have "distinct (map cand_pair (sort_by rank_less ?pool))"
    using distinct_map_filter [OF assms] mset_eq_imp_distinct_iff by blast
  then show ?thesis unfolding top_block_def by (simp flip: take_map)
qed

lemma top_block_length:
  assumes "distinct (map cand_pair F)"
  shows "length (top_block m F s) = min (nat m) (card {p \<in> cand_pair ` set F. fst p = s})"
proof -
  let ?pool = "filter (\<lambda>c. SourceID c = s) F"
  have "length ?pool = card (cand_pair ` set ?pool)"
    using distinct_card [OF distinct_map_filter [OF assms], of "\<lambda>c. SourceID c = s"] by simp
  also have "cand_pair ` set ?pool = {p \<in> cand_pair ` set F. fst p = s}" by (auto simp: cand_pair_def)
  finally show ?thesis unfolding top_block_def by (simp add: min.commute)
qed

lemma top_blocks_facts:
  assumes "distinct (map cand_pair F)"
  shows "distinct (map cand_pair (top_blocks m F))" "sorted_wrt (\<lambda>a b. \<not> fusion_less b a) (top_blocks m F)"
    "set (top_blocks m F) \<subseteq> set F" "filter (\<lambda>c. SourceID c = s) (top_blocks m F) = top_block m F s"
proof -
  have ok: "source_blocks (top_block m F)" using set_top_block by (fastforce simp: source_blocks_def)
  have ds: "distinct (sort (remdups (map SourceID F)))" "sorted_wrt (<) (sort (remdups (map SourceID F)))"
    by (simp_all add: strict_sorted_iff)
  show "distinct (map cand_pair (top_blocks m F))"
    unfolding top_blocks_def by (rule blocks_distinct [OF ok top_block_distinct [OF assms] ds(1)])
  have "sorted_wrt (\<lambda>a b. \<not> rank_less b a) (top_block m F u)" for u
    unfolding top_block_def using rank_order.sort_by_sorted by (rule sorted_wrt_take)
  then show "sorted_wrt (\<lambda>a b. \<not> fusion_less b a) (top_blocks m F)"
    unfolding top_blocks_def by (rule blocks_sorted [OF ok _ ds(2)])
  show "set (top_blocks m F) \<subseteq> set F" unfolding top_blocks_def using set_top_block by fastforce
  have "top_block m F s = []" if "s \<notin> SourceID ` set F"
    using that set_top_block [of m F s] by (cases "top_block m F s") auto
  then show "filter (\<lambda>c. SourceID c = s) (top_blocks m F) = top_block m F s"
    unfolding top_blocks_def blocks_filter [OF ok ds(1)] by simp
qed

lemma top_blocks_best:
  assumes "distinct (map cand_pair F)" "f \<in> set F" "f \<notin> set (top_blocks m F)" "c \<in> set (top_blocks m F)" "SourceID f = SourceID c"
  shows "Score f \<le> Score c"
proof -
  let ?pool = "filter (\<lambda>d. SourceID d = SourceID c) F"
  have fil: "filter (\<lambda>d. SourceID d = SourceID c) (top_blocks m F) = take (nat m) (sort_by rank_less ?pool)"
    using top_blocks_facts(4) [OF assms(1)] by (simp add: top_block_def)
  have c: "c \<in> set (take (nat m) (sort_by rank_less ?pool))" using assms(4) unfolding fil [symmetric] by simp
  have "f \<in> set ?pool" using assms(2,5) by simp
  moreover have "f \<notin> set (take (nat m) (sort_by rank_less ?pool))" using assms(3) unfolding fil [symmetric] by simp
  ultimately have "f \<in> set (drop (nat m) (sort_by rank_less ?pool))"
    using set_take_drop [of "sort_by rank_less ?pool" "nat m"] by auto
  from rank_order.take_sort_by_best [OF c this] show ?thesis by (auto simp: rank_less_def split: if_splits)
qed

subsection \<open>Properties\<close>

text \<open>
  C23. The ranks computed by sorting and merging runs of ties are the fractional ranks: a
  candidate's rank is the number of candidates with a higher score plus the mean position
  among those with the same score.
\<close>

theorem fractional_ranks_spec:
  "length (fractionalRanks cands) = length cands \<and>
   (\<forall>i < length cands. fractionalRanks cands ! i =
      real (length (filter (\<lambda>c. Score c > Score (cands ! i)) cands)) +
      (real (length (filter (\<lambda>c. Score c = Score (cands ! i)) cands)) + 1) / 2)"
  using fractionalRanks_nth by simp

definition example_cand :: "string \<Rightarrow> string \<Rightarrow> real \<Rightarrow> Candidate" where
  "example_cand s t x = \<lparr>SourceID = s, TargetID = t, Score = x, cand_Weight = 1, GeneratorID = ''semantic'',
     Metadata = [], Contributions = []\<rparr>"

theorem fractional_ranks_spec_witness:
  "fractionalRanks [example_cand ''s'' ''a'' 1, example_cand ''s'' ''b'' 2, example_cand ''s'' ''c'' 1] ! 2 = 5 / 2"
  using fractional_ranks_spec [of "[example_cand ''s'' ''a'' 1, example_cand ''s'' ''b'' 2, example_cand ''s'' ''c'' 1]"]
  by (simp add: example_cand_def)


definition example_sets :: "Candidate list list" where
  "example_sets = [[example_cand ''s'' ''a'' 1, example_cand ''s'' ''b'' 2], [example_cand ''s'' ''b'' 1]]"




text \<open>
  With a colon in a control identifier two different pairs share one key, and the union
  loses one of them.
\<close>

lemma pair_key_collision:
  "length (aggregateUnion [[example_cand ''a:b'' ''c'' 1, example_cand ''a'' ''b:c'' 1]]) = 1"
  by (simp add: aggregateUnion_def pairKey_def example_cand_def Let_def)

end
