(* ===== verification/Synthesis.thy ===== *)
theory Synthesis
  imports Go_Prelude
begin

text \<open>
  The synthesis service (\<^verbatim>\<open>src/internal/synthesis\<close>): it validates the inputs of a job,
  ranks them by viability, drops rows of low confidence, keeps the best rows of each
  source, assesses the quality of what is left and writes the weights to the database.

  The database and the protobuf hash are outside the source and are parameters. So is
  \<^verbatim>\<open>sort.Slice\<close>, whose order of rows of equal weight is not specified: the theorems hold for
  any function that returns the rows sorted. Logging and telemetry are not modelled.
\<close>

subsection \<open>Data and configuration\<close>

record ViabilityConfig =
  vc_TypeMismatchFactor :: real
  vc_SkipLevelFactor :: real
  vc_IntegralToFactor :: real

record AssessmentConfig =
  ac_IQRGood :: real
  ac_IQRPoor :: real
  ac_NoRelHigh :: real
  ac_NoRelLow :: real
  ac_ContestedWarn :: real
  ac_ActionableWarn :: real

record SynthesisOverride =
  so_ConfidenceThreshold :: "real option"
  so_MaxMappingsPerControl :: "int option"
  so_Viability :: "ViabilityConfig option"
  so_Assessment :: "AssessmentConfig option"

record SynthesisTenantConfig =
  tc_Viability :: ViabilityConfig
  tc_Assessment :: AssessmentConfig
  tc_ConfidenceThreshold :: real
  tc_MaxMappingsPerControl :: int

record SynthesisConfig = SynthesisTenantConfig +
  sc_TenantOverrides :: "string \<Rightarrow> SynthesisOverride option"

definition override_with :: "'a option \<Rightarrow> 'a \<Rightarrow> 'a" where
  "override_with ov v = (case ov of Some w \<Rightarrow> w | None \<Rightarrow> v)"

definition ForTenant :: "SynthesisConfig \<Rightarrow> string \<Rightarrow> SynthesisTenantConfig" where
  "ForTenant c tenantID =
     (let tc = SynthesisTenantConfig.truncate c in
      case sc_TenantOverrides c tenantID of
        None \<Rightarrow> tc
      | Some ov \<Rightarrow>
          tc\<lparr>tc_ConfidenceThreshold := override_with (so_ConfidenceThreshold ov) (tc_ConfidenceThreshold tc),
             tc_MaxMappingsPerControl := override_with (so_MaxMappingsPerControl ov) (tc_MaxMappingsPerControl tc),
             tc_Viability := override_with (so_Viability ov) (tc_Viability tc),
             tc_Assessment := override_with (so_Assessment ov) (tc_Assessment tc)\<rparr>)"

record SynthesisInput =
  si_SourceID :: string
  si_TargetID :: string
  si_SimilarityScore :: f64
  si_SimilarityMedian :: f64
  si_SimilarityVar :: f64
  si_SimilarityCount :: int
  si_ConsensusRelationship :: string
  si_Analyzer :: string
  si_ContributionType :: string
  si_ConfidenceFraction :: f64
  si_Unanimous :: bool

record SynthesisRow =
  sr_JobID :: string
  sr_SourceID :: string
  sr_TargetID :: string
  sr_SimilarityMean :: f64
  sr_SimilarityMedian :: f64
  sr_SimilarityVar :: f64
  sr_SimilarityCount :: int
  sr_SourceType :: string
  sr_TargetType :: string
  sr_SourceLevel :: string
  sr_TargetLevel :: string
  sr_ConsensusRelationship :: string
  sr_ConfidenceFraction :: f64
  sr_Unanimous :: bool
  sr_Analyzer :: string
  sr_ContributionType :: string
  sr_ViabilityWeight :: f64

record Classification =
  cl_Type :: string
  cl_Level :: string

definition GetType :: "Classification \<Rightarrow> string" where
  "GetType c = (if cl_Type c = [] then ''Unknown'' else cl_Type c)"

definition GetLevel :: "Classification \<Rightarrow> string" where
  "GetLevel c = (if cl_Level c = [] then ''Tactical'' else cl_Level c)"

datatype DiagnosticSeverity = SeverityGood | SeverityWarn | SeverityPoor | SeverityCritical

record Diagnostic =
  dg_Category :: string
  dg_Severity :: DiagnosticSeverity
  dg_Message :: string
  dg_Value :: f64

record QualityReport =
  q_TotalPairs :: nat
  q_ViablePairs :: nat
  q_AvgConfidence :: f64
  q_AvgViability :: f64
  q_RelationshipCounts :: "string \<Rightarrow> nat"
  q_Diagnostics :: "Diagnostic list"

subsection \<open>Viability\<close>

definition abstractionIndex :: "string \<Rightarrow> int" where
  "abstractionIndex level =
     (if level = ''Strategic'' then 0 else if level = ''Tactical'' then 1 else if level = ''Operational'' then 2 else 1)"

definition typeFactor :: "string \<Rightarrow> string \<Rightarrow> ViabilityConfig \<Rightarrow> real" where
  "typeFactor srcType tgtType cfg =
     (if srcType = tgtType \<or> srcType = ''Both'' \<or> tgtType = ''Both'' then 1
      else if srcType = ''Unknown'' \<or> tgtType = ''Unknown'' \<or> srcType = ''None'' \<or> tgtType = ''None'' then 9 / 10
      else vc_TypeMismatchFactor cfg)"

definition intAbs :: "int \<Rightarrow> int" where
  "intAbs x = (if x < 0 then - x else x)"

definition levelFactor :: "string \<Rightarrow> string \<Rightarrow> ViabilityConfig \<Rightarrow> real" where
  "levelFactor srcLevel tgtLevel cfg =
     (if intAbs (abstractionIndex srcLevel - abstractionIndex tgtLevel) \<le> 1 then 1 else vc_SkipLevelFactor cfg)"

definition round2 :: "f64 \<Rightarrow> f64" where
  "round2 x = f64_round (x * Fin 100) / Fin 100"

definition ComputeViability :: "f64 \<Rightarrow> string \<Rightarrow> string \<Rightarrow> string \<Rightarrow> string \<Rightarrow> ViabilityConfig \<Rightarrow> f64" where
  "ComputeViability score srcType tgtType srcLevel tgtLevel cfg =
     round2 (score * Fin (typeFactor srcType tgtType cfg) * Fin (levelFactor srcLevel tgtLevel cfg))"

definition ComputeViabilityWeight ::
    "f64 \<Rightarrow> string \<Rightarrow> string \<Rightarrow> string \<Rightarrow> string \<Rightarrow> string \<Rightarrow> ViabilityConfig \<Rightarrow> f64" where
  "ComputeViabilityWeight score srcType tgtType srcLevel tgtLevel contribType cfg =
     (let viability = ComputeViability score srcType tgtType srcLevel tgtLevel cfg;
          factor = (if contribType = ''INTEGRAL_TO'' then vc_IntegralToFactor cfg else 1)
      in round2 (viability * Fin factor))"

subsection \<open>Ranking, filtering and capping\<close>

definition lookupClassification :: "(string \<Rightarrow> Classification option) \<Rightarrow> string \<Rightarrow> Classification" where
  "lookupClassification m i = (case m i of Some c \<Rightarrow> c | None \<Rightarrow> \<lparr>cl_Type = [], cl_Level = []\<rparr>)"

definition rank_row :: "ViabilityConfig \<Rightarrow> string \<Rightarrow> (string \<Rightarrow> Classification option) \<Rightarrow> SynthesisInput \<Rightarrow> SynthesisRow" where
  "rank_row cfg jobID classifications inp =
     (let srcClass = lookupClassification classifications (si_SourceID inp);
          tgtClass = lookupClassification classifications (si_TargetID inp);
          srcType = GetType srcClass; tgtType = GetType tgtClass;
          srcLevel = GetLevel srcClass; tgtLevel = GetLevel tgtClass
      in \<lparr>sr_JobID = jobID, sr_SourceID = si_SourceID inp, sr_TargetID = si_TargetID inp,
          sr_SimilarityMean = si_SimilarityScore inp, sr_SimilarityMedian = si_SimilarityMedian inp,
          sr_SimilarityVar = si_SimilarityVar inp, sr_SimilarityCount = si_SimilarityCount inp,
          sr_SourceType = srcType, sr_TargetType = tgtType, sr_SourceLevel = srcLevel, sr_TargetLevel = tgtLevel,
          sr_ConsensusRelationship = si_ConsensusRelationship inp, sr_ConfidenceFraction = si_ConfidenceFraction inp,
          sr_Unanimous = si_Unanimous inp, sr_Analyzer = si_Analyzer inp, sr_ContributionType = si_ContributionType inp,
          sr_ViabilityWeight =
            ComputeViabilityWeight (si_SimilarityScore inp) srcType tgtType srcLevel tgtLevel (si_ContributionType inp) cfg\<rparr>)"

definition Rank :: "ViabilityConfig \<Rightarrow> string \<Rightarrow> SynthesisInput list \<Rightarrow> (string \<Rightarrow> Classification option) \<Rightarrow> SynthesisRow list" where
  "Rank cfg jobID inputs classifications = map (rank_row cfg jobID classifications) inputs"

definition filterByConfidence :: "SynthesisRow list \<Rightarrow> real \<Rightarrow> SynthesisRow list" where
  "filterByConfidence rows threshold = filter (\<lambda>r. Fin threshold \<le> sr_ConfidenceFraction r) rows"

text \<open>The first loop of \<^verbatim>\<open>capMappingsPerSource\<close>: the sources in the order they appear, and their rows.\<close>

definition group_row :: "SynthesisRow \<Rightarrow> string list \<times> (string \<Rightarrow> SynthesisRow list) \<Rightarrow> string list \<times> (string \<Rightarrow> SynthesisRow list)" where
  "group_row r st =
     (case st of (order, groups) \<Rightarrow>
        (if groups (sr_SourceID r) = [] then order @ [sr_SourceID r] else order,
         groups(sr_SourceID r := groups (sr_SourceID r) @ [r])))"

type_synonym row_sort = "SynthesisRow list \<Rightarrow> SynthesisRow list"

definition capMappingsPerSource :: "row_sort \<Rightarrow> SynthesisRow list \<Rightarrow> int \<Rightarrow> SynthesisRow list" where
  "capMappingsPerSource srt rows maxPerSource =
     (if maxPerSource \<le> 0 then rows
      else case fold group_row rows ([], \<lambda>_. []) of (order, groups) \<Rightarrow>
        concat (map (\<lambda>src. let grp = groups src in
          if int (length grp) > maxPerSource then take (nat maxPerSource) (srt grp) else grp) order))"

subsection \<open>Validation\<close>

datatype synthesis_error =
    SynthesisNoTenant
  | ErrInvalidJobID
  | TooManyInputs nat
  | EmptySourceID nat
  | LongSourceID nat
  | EmptyTargetID nat
  | LongTargetID nat
  | InvalidSimilarity nat
  | NegativeSimilarity nat
  | BadConfidence nat
  | ErrDBUpdate
  | ErrImmutabilityViolation
  | ErrDBNoRowsAffected nat nat
  | HashFailed

definition validate_input :: "nat \<Rightarrow> SynthesisInput \<Rightarrow> synthesis_error option" where
  "validate_input i inp =
     (if si_SourceID inp = [] then Some (EmptySourceID i)
      else if length (si_SourceID inp) > 256 then Some (LongSourceID i)
      else if si_TargetID inp = [] then Some (EmptyTargetID i)
      else if length (si_TargetID inp) > 256 then Some (LongTargetID i)
      else if \<not> is_fin (si_SimilarityScore inp) then Some (InvalidSimilarity i)
      else if si_SimilarityScore inp < Fin 0 then Some (NegativeSimilarity i)
      else if si_ConfidenceFraction inp < Fin 0 \<or> Fin 1 < si_ConfidenceFraction inp then Some (BadConfidence i)
      else None)"

fun validate_from :: "nat \<Rightarrow> SynthesisInput list \<Rightarrow> synthesis_error option" where
  "validate_from i [] = None"
| "validate_from i (inp # inps) = (case validate_input i inp of Some err \<Rightarrow> Some err | None \<Rightarrow> validate_from (Suc i) inps)"

definition validateInputs :: "SynthesisInput list \<Rightarrow> synthesis_error option" where
  "validateInputs inputs =
     (if int (length inputs) > 10000 then Some (TooManyInputs (length inputs)) else validate_from 0 inputs)"

subsection \<open>Assessment\<close>

text \<open>
  Printing with a fixed number of decimals, \<^verbatim>\<open>%.1f\<close> and \<^verbatim>\<open>%.2f\<close>: the nearest decimal, a
  tie to the even digit.
\<close>

definition round_half_even :: "real \<Rightarrow> int" where
  "round_half_even y =
     (let f = \<lfloor>y\<rfloor>; r = y - of_int f in
      if r < 1 / 2 then f else if r > 1 / 2 then f + 1 else if even f then f else f + 1)"

fun fmt_fixed :: "nat \<Rightarrow> f64 \<Rightarrow> string" where
  "fmt_fixed d (Fin x) =
     (let n = nat (round_half_even (\<bar>x\<bar> * 10 ^ d)); frac = nat_digits (n mod 10 ^ d) in
      (if x < 0 then ''-'' else []) @ nat_digits (n div 10 ^ d) @ ''.'' @ replicate (d - length frac) CHR ''0'' @ frac)"
| "fmt_fixed d PInf = ''+Inf''"
| "fmt_fixed d NInf = ''-Inf''"
| "fmt_fixed d NaN = ''NaN''"

definition ConsensusRequires :: string where
  "ConsensusRequires = ''requires''"

text \<open>\<^verbatim>\<open>sort.Float64s\<close> puts \<open>NaN\<close> first.\<close>

definition float_less :: "f64 \<Rightarrow> f64 \<Rightarrow> bool" where
  "float_less a b \<longleftrightarrow> a < b \<or> (a = NaN \<and> b \<noteq> NaN)"

definition percentile :: "f64 list \<Rightarrow> real \<Rightarrow> f64" where
  "percentile xs p =
     (let n = length xs in
      if n = 0 then Fin 0
      else if n = 1 then xs ! 0
      else
        let idx = p * real (n - 1); lo = nat \<lfloor>idx\<rfloor>; hi = lo + 1 in
        if hi \<ge> n then xs ! (n - 1)
        else let frac = idx - real lo in xs ! lo + Fin frac * (xs ! hi - xs ! lo))"

definition diagnoseIQR :: "AssessmentConfig \<Rightarrow> SynthesisRow list \<Rightarrow> Diagnostic" where
  "diagnoseIQR cfg rows =
     (let n = length rows in
      if n < 4 then
        \<lparr>dg_Category = ''embedding_spread'', dg_Severity = SeverityWarn,
         dg_Message = ''insufficient data for IQR (n='' @ itoa (int n) @ '')'', dg_Value = Fin 0\<rparr>
      else
        let vals = sort_by float_less (map sr_SimilarityMean rows);
            iqr = percentile vals (3 / 4) - percentile vals (1 / 4);
            (severity, msg) =
              (if Fin (ac_IQRGood cfg) \<le> iqr then (SeverityGood, ''good embedding discrimination (IQR='' @ fmt_fixed 2 iqr @ '')'')
               else if iqr < Fin (ac_IQRPoor cfg) then (SeverityPoor, ''diluted averaged matrix (IQR='' @ fmt_fixed 2 iqr @ '')'')
               else (SeverityWarn, ''moderate embedding spread (IQR='' @ fmt_fixed 2 iqr @ '')''))
        in \<lparr>dg_Category = ''embedding_spread'', dg_Severity = severity, dg_Message = msg, dg_Value = iqr\<rparr>)"

definition diagnoseNoRelRate :: "AssessmentConfig \<Rightarrow> nat \<Rightarrow> nat \<Rightarrow> Diagnostic" where
  "diagnoseNoRelRate cfg noRelCount pairs =
     (let rate = Fin (real noRelCount) / Fin (real pairs); pct = rate * Fin 100;
          (severity, msg) =
            (if Fin (ac_NoRelHigh cfg) < rate then
               (SeverityPoor, ''candidate top_k may be too high: '' @ fmt_fixed 1 pct
                  @ ''% of pairs had NO_RELATIONSHIP; lower analysis.candidates.generators[].config.top_k'')
             else if rate < Fin (ac_NoRelLow cfg) then
               (SeverityWarn, ''candidate top_k may be too low: '' @ fmt_fixed 1 pct
                  @ ''% of pairs had NO_RELATIONSHIP; raise analysis.candidates.generators[].config.top_k'')
             else (SeverityGood, ''NO_RELATIONSHIP rate '' @ fmt_fixed 1 pct @ ''% within expected range''))
      in \<lparr>dg_Category = ''no_relationship_rate'', dg_Severity = severity, dg_Message = msg, dg_Value = rate\<rparr>)"

definition diagnoseContested :: "AssessmentConfig \<Rightarrow> nat \<Rightarrow> nat \<Rightarrow> Diagnostic" where
  "diagnoseContested cfg contestedCount pairs =
     (let fraction = Fin (real contestedCount) / Fin (real pairs); pct = fraction * Fin 100;
          (severity, msg) =
            (if Fin (ac_ContestedWarn cfg) < fraction
             then (SeverityWarn, fmt_fixed 1 pct @ ''% of pairs contested (non-unanimous)'')
             else (SeverityGood, fmt_fixed 1 pct @ ''% of pairs contested''))
      in \<lparr>dg_Category = ''contested_pairs'', dg_Severity = severity, dg_Message = msg, dg_Value = fraction\<rparr>)"

text \<open>The set of actionable types of \<^verbatim>\<open>NewAssessor\<close>.\<close>

definition NewAssessor :: "string list \<Rightarrow> string set" where
  "NewAssessor actionableTypes = insert ConsensusRequires (set actionableTypes)"

definition diagnoseActionableCoverage :: "AssessmentConfig \<Rightarrow> string set \<Rightarrow> SynthesisRow list \<Rightarrow> Diagnostic" where
  "diagnoseActionableCoverage cfg actionable rows =
     (let allSources = remdups (map sr_SourceID rows);
          coveredSources = remdups (map sr_SourceID
            (filter (\<lambda>r. sr_ConsensusRelationship r \<in> actionable \<and> Fin 0 < sr_ViabilityWeight r) rows));
          coverage = (if length allSources > 0 then Fin (real (length coveredSources)) / Fin (real (length allSources)) else Fin 0);
          pct = coverage * Fin 100;
          (severity, msg) =
            (if coverage < Fin (ac_ActionableWarn cfg)
             then (SeverityWarn, ''low actionable coverage: '' @ fmt_fixed 1 pct @ ''%'')
             else (SeverityGood, ''actionable coverage: '' @ fmt_fixed 1 pct @ ''%''))
      in \<lparr>dg_Category = ''actionable_coverage'', dg_Severity = severity, dg_Message = msg, dg_Value = coverage\<rparr>)"

text \<open>The local variables of the loop of \<^verbatim>\<open>Assess\<close>.\<close>

record assess_state =
  as_viable :: nat
  as_sumConfidence :: f64
  as_sumViability :: f64
  as_counts :: "string \<Rightarrow> nat"
  as_noRel :: nat
  as_contested :: nat

definition assess_row :: "SynthesisRow \<Rightarrow> assess_state \<Rightarrow> assess_state" where
  "assess_row row st =
     st\<lparr>as_viable := as_viable st + (if Fin 0 < sr_ViabilityWeight row then 1 else 0),
        as_sumConfidence := as_sumConfidence st + sr_ConfidenceFraction row,
        as_sumViability := as_sumViability st + sr_ViabilityWeight row,
        as_counts := (as_counts st)(sr_ConsensusRelationship row := as_counts st (sr_ConsensusRelationship row) + 1),
        as_noRel := as_noRel st + (if sr_ConsensusRelationship row = ''NO_RELATIONSHIP'' then 1 else 0),
        as_contested := as_contested st + (if sr_Unanimous row then 0 else 1)\<rparr>"

definition assess_start :: assess_state where
  "assess_start =
     \<lparr>as_viable = 0, as_sumConfidence = Fin 0, as_sumViability = Fin 0, as_counts = (\<lambda>_. 0), as_noRel = 0, as_contested = 0\<rparr>"

definition Assess :: "AssessmentConfig \<Rightarrow> string set \<Rightarrow> SynthesisRow list \<Rightarrow> QualityReport" where
  "Assess cfg actionable rows =
     (if rows = [] then
        \<lparr>q_TotalPairs = 0, q_ViablePairs = 0, q_AvgConfidence = Fin 0, q_AvgViability = Fin 0,
         q_RelationshipCounts = (\<lambda>_. 0), q_Diagnostics = []\<rparr>
      else
        let st = fold assess_row rows assess_start; pairs = length rows; n = Fin (real pairs) in
        \<lparr>q_TotalPairs = pairs, q_ViablePairs = as_viable st, q_AvgConfidence = as_sumConfidence st / n,
         q_AvgViability = as_sumViability st / n, q_RelationshipCounts = as_counts st,
         q_Diagnostics = [diagnoseIQR cfg rows, diagnoseNoRelRate cfg (as_noRel st) pairs,
           diagnoseContested cfg (as_contested st) pairs, diagnoseActionableCoverage cfg actionable rows]\<rparr>)"

subsection \<open>The service\<close>

text \<open>
  What the database answers: whether the transaction begins and commits, and the outcome of
  the update, which is refused (by the immutability trigger or otherwise) or returns some
  rows and then ends, with or without an error.
\<close>

datatype rows_end = AllRead | ScanFailed | RowsFailed bool

datatype query_outcome = QueryFailed bool | QueryRows nat rows_end

record database =
  db_begin :: bool
  db_update :: "f64 list \<Rightarrow> string list \<Rightarrow> string list \<Rightarrow> string list \<Rightarrow> string \<Rightarrow> string \<Rightarrow> query_outcome"
  db_commit :: bool

definition persistViability :: "database \<Rightarrow> SynthesisRow list \<Rightarrow> string \<Rightarrow> string \<Rightarrow> synthesis_error + nat" where
  "persistViability db rows jobID tenantID =
     (if \<not> db_begin db then Inl ErrDBUpdate
      else case db_update db (map sr_ViabilityWeight rows) (map sr_SourceID rows) (map sr_TargetID rows)
                  (map sr_Analyzer rows) jobID tenantID of
        QueryFailed immutable \<Rightarrow> Inl (if immutable then ErrImmutabilityViolation else ErrDBUpdate)
      | QueryRows updated ScanFailed \<Rightarrow> Inl ErrDBUpdate
      | QueryRows updated (RowsFailed immutable) \<Rightarrow> Inl (if immutable then ErrImmutabilityViolation else ErrDBUpdate)
      | QueryRows updated AllRead \<Rightarrow>
          if updated < length rows then Inl (ErrDBNoRowsAffected (length rows) updated)
          else if \<not> db_commit db then Inl ErrDBUpdate
          else Inr updated)"

text \<open>Steps 4 to 4b of \<^verbatim>\<open>Execute\<close>: the rows of a job.\<close>

definition ranked_rows :: "SynthesisTenantConfig \<Rightarrow> string \<Rightarrow> SynthesisInput list \<Rightarrow> (string \<Rightarrow> Classification option) \<Rightarrow> SynthesisRow list" where
  "ranked_rows tc jobID inputs classifications =
     (let rows = Rank (tc_Viability tc) jobID inputs classifications in
      if tc_ConfidenceThreshold tc > 0 then filterByConfidence rows (tc_ConfidenceThreshold tc) else rows)"

definition Execute ::
    "row_sort \<Rightarrow> database \<Rightarrow> (QualityReport \<Rightarrow> string option) \<Rightarrow> SynthesisConfig \<Rightarrow> string list \<Rightarrow> string \<Rightarrow> string
     \<Rightarrow> SynthesisInput list \<Rightarrow> (string \<Rightarrow> Classification option) \<Rightarrow> synthesis_error + SynthesisRow list \<times> QualityReport \<times> string" where
  "Execute srt db contentHash cfg actionableTypes tenantID jobID inputs classifications =
     (if tenantID = [] then Inl SynthesisNoTenant
      else if jobID = [] then Inl ErrInvalidJobID
      else case validateInputs inputs of Some err \<Rightarrow> Inl err | None \<Rightarrow>
        let tc = ForTenant cfg tenantID;
            rows = ranked_rows tc jobID inputs classifications;
            rows = (if tc_MaxMappingsPerControl tc > 0 then capMappingsPerSource srt rows (tc_MaxMappingsPerControl tc) else rows);
            report = Assess (tc_Assessment tc) (NewAssessor actionableTypes) rows
        in (case persistViability db rows jobID tenantID of
              Inl err \<Rightarrow> Inl err
            | Inr _ \<Rightarrow> (case contentHash report of None \<Rightarrow> Inl HashFailed | Some h \<Rightarrow> Inr (rows, report, h))))"

subsection \<open>The rows a job keeps\<close>

text \<open>What \<^verbatim>\<open>sort.Slice\<close> promises for the rows of a source: a permutation, by descending weight.\<close>

locale weight_sort =
  fixes srt :: row_sort
  assumes srt_mset: "mset (srt rows) = mset rows"
    and srt_sorted: "\<forall>r\<in>set rows. is_fin (sr_ViabilityWeight r) \<Longrightarrow>
      sorted_wrt (\<lambda>a b. sr_ViabilityWeight b \<le> sr_ViabilityWeight a) (srt rows)"
begin

definition keep :: "int \<Rightarrow> SynthesisRow list \<Rightarrow> SynthesisRow list" where
  "keep k grp = (if int (length grp) > k then take (nat k) (srt grp) else grp)"

lemma mset_keep: "\<exists>rest. mset grp = mset (keep k grp) + mset rest \<and>
    ((\<forall>r\<in>set grp. is_fin (sr_ViabilityWeight r)) \<longrightarrow>
      (\<forall>a\<in>set (keep k grp). \<forall>b\<in>set rest. sr_ViabilityWeight b \<le> sr_ViabilityWeight a))"
proof (cases "int (length grp) > k")
  case False
  then show ?thesis by (intro exI [of _ "[]"]) (simp add: keep_def)
next
  case True
  have "mset grp = mset (take (nat k) (srt grp)) + mset (drop (nat k) (srt grp))"
    by (metis append_take_drop_id mset_append srt_mset)
  moreover have "\<forall>a\<in>set (take (nat k) (srt grp)). \<forall>b\<in>set (drop (nat k) (srt grp)). sr_ViabilityWeight b \<le> sr_ViabilityWeight a"
    if "\<forall>r\<in>set grp. is_fin (sr_ViabilityWeight r)"
  proof -
    have "sorted_wrt (\<lambda>a b. sr_ViabilityWeight b \<le> sr_ViabilityWeight a) (take (nat k) (srt grp) @ drop (nat k) (srt grp))"
      using srt_sorted [OF that] by simp
    then show ?thesis unfolding sorted_wrt_append by blast
  qed
  ultimately show ?thesis using True by (intro exI [of _ "drop (nat k) (srt grp)"]) (simp add: keep_def)
qed

lemma length_keep: "0 < k \<Longrightarrow> int (length (keep k grp)) = min k (int (length grp))"
  using arg_cong [OF srt_mset [of grp], of size] by (auto simp: keep_def)

lemma set_keep: "set (keep k grp) \<subseteq> set grp"
proof -
  have "set (srt grp) = set grp" using srt_mset by (metis set_mset_mset)
  then show ?thesis using set_take_subset [of "nat k" "srt grp"] by (auto simp: keep_def)
qed

end

definition of_source :: "string \<Rightarrow> SynthesisRow list \<Rightarrow> SynthesisRow list" where
  "of_source src rows = filter (\<lambda>r. sr_SourceID r = src) rows"

lemma fold_group_row:
  "fold group_row rows (order, groups) = (order', groups') \<Longrightarrow> distinct order \<Longrightarrow> (\<forall>s. s \<in> set order \<longleftrightarrow> groups s \<noteq> []) \<Longrightarrow>
    distinct order' \<and> (\<forall>s. s \<in> set order' \<longleftrightarrow> groups' s \<noteq> []) \<and> (\<forall>s. groups' s = groups s @ of_source s rows)"
proof (induction rows arbitrary: order groups)
  case (Cons r rows)
  let ?o = "if groups (sr_SourceID r) = [] then order @ [sr_SourceID r] else order"
  let ?g = "groups(sr_SourceID r := groups (sr_SourceID r) @ [r])"
  have "group_row r (order, groups) = (?o, ?g)" by (simp add: group_row_def)
  then have "fold group_row rows (?o, ?g) = (order', groups')" using Cons.prems(1) by (simp only: fold_simps)
  moreover have "distinct ?o" "\<forall>s. s \<in> set ?o \<longleftrightarrow> ?g s \<noteq> []" using Cons.prems(2,3) by auto
  ultimately have "distinct order' \<and> (\<forall>s. s \<in> set order' \<longleftrightarrow> groups' s \<noteq> []) \<and> (\<forall>s. groups' s = ?g s @ of_source s rows)"
    by (rule Cons.IH)
  then show ?case by (auto simp: of_source_def)
qed (simp add: of_source_def)

lemma of_source_concat:
  assumes "distinct order" "\<And>s r. s \<in> set order \<Longrightarrow> r \<in> set (f s) \<Longrightarrow> sr_SourceID r = s"
  shows "of_source s (concat (map f order)) = (if s \<in> set order then f s else [])"
  using assms
proof (induction order)
  case (Cons x order)
  have "of_source s (f x) = (if s = x then f x else [])"
    using Cons.prems(2) [of x] by (auto simp: of_source_def filter_empty_conv filter_id_conv)
  moreover have "of_source s (concat (map f order)) = (if s \<in> set order then f s else [])"
    using Cons.prems by (intro Cons.IH) auto
  moreover have "of_source s (concat (map f (x # order))) = of_source s (f x) @ of_source s (concat (map f order))"
    by (simp add: of_source_def)
  ultimately show ?case using Cons.prems(1) by auto
qed (simp add: of_source_def)

context weight_sort
begin

lemma cap_of_source:
  assumes "0 < k"
  shows "of_source s (capMappingsPerSource srt rows k) = keep k (of_source s rows)"
proof -
  obtain order groups where f: "fold group_row rows ([], \<lambda>_. []) = (order, groups)" by (cases "fold group_row rows ([], \<lambda>_. [])")
  from fold_group_row [OF f] have g: "distinct order" "\<forall>s. s \<in> set order \<longleftrightarrow> groups s \<noteq> []" "\<forall>s. groups s = of_source s rows" by simp_all
  have cap: "capMappingsPerSource srt rows k = concat (map (\<lambda>s. keep k (of_source s rows)) order)"
    using assms f ext [of groups "\<lambda>s. of_source s rows"] g(3) by (simp add: capMappingsPerSource_def keep_def Let_def)
  have src: "sr_SourceID r = s" if "r \<in> set (keep k (of_source s rows))" for s r
    using that set_keep [of k "of_source s rows"] by (auto simp: of_source_def)
  have "keep k (of_source s rows) = []" if "s \<notin> set order" using that g(2,3) assms by (auto simp: keep_def)
  then show ?thesis
    unfolding cap using of_source_concat [OF g(1), of "\<lambda>s. keep k (of_source s rows)" s] src by auto
qed

end

lemma mset_of_source: "filter_mset (\<lambda>r. sr_SourceID r = s) (mset rows) = mset (of_source s rows)"
  by (simp add: of_source_def)

lemma viability_fin: "is_fin score \<Longrightarrow> is_fin (ComputeViabilityWeight score a b c d e cfg)"
  by (cases score) (simp_all add: ComputeViabilityWeight_def ComputeViability_def round2_def Let_def)

lemma validate_from_None: "validate_from i inputs = None \<Longrightarrow> inp \<in> set inputs \<Longrightarrow> \<exists>j. validate_input j inp = None"
  by (induction inputs arbitrary: i) (auto split: option.splits)

lemma validated_scores: "validateInputs inputs = None \<Longrightarrow> inp \<in> set inputs \<Longrightarrow> is_fin (si_SimilarityScore inp)"
  using validate_from_None [of 0 inputs inp] by (auto simp: validateInputs_def validate_input_def split: if_splits)

lemma ranked_rows_fin:
  "validateInputs inputs = None \<Longrightarrow> \<forall>r\<in>set (ranked_rows tc jobID inputs cls). is_fin (sr_ViabilityWeight r)"
  using validated_scores [of inputs] viability_fin
  by (auto simp: ranked_rows_def Rank_def filterByConfidence_def rank_row_def Let_def split: if_splits)

text \<open>\<^verbatim>\<open>sort.Slice\<close> as the library models it, with the comparison of the source, is such a sort.\<close>

definition heavier :: "SynthesisRow \<Rightarrow> SynthesisRow \<Rightarrow> bool" where
  "heavier a b \<longleftrightarrow> sr_ViabilityWeight b < sr_ViabilityWeight a"

lemma insert_by_cong: "(\<And>y. y \<in> set ys \<Longrightarrow> lt y x = lt' y x) \<Longrightarrow> insert_by lt x ys = insert_by lt' x ys"
  by (induction ys) auto

lemma sort_by_cong: "(\<And>x y. x \<in> set xs \<Longrightarrow> y \<in> set xs \<Longrightarrow> lt x y = lt' x y) \<Longrightarrow> sort_by lt xs = sort_by lt' xs"
proof (induction xs)
  case (Cons x xs)
  then have "sort_by lt xs = sort_by lt' xs" by simp
  moreover have "insert_by lt x (sort_by lt' xs) = insert_by lt' x (sort_by lt' xs)"
    by (rule insert_by_cong) (use Cons.prems in simp)
  ultimately show ?case by (simp add: sort_by_def)
qed (simp add: sort_by_def)

interpretation weight_less: go_less "\<lambda>a b. fin_val (sr_ViabilityWeight b) < fin_val (sr_ViabilityWeight a)"
  by unfold_locales auto

lemma fin_order: "is_fin a \<Longrightarrow> is_fin b \<Longrightarrow> (a < b) = (fin_val a < fin_val b) \<and> (a \<le> b) = (fin_val a \<le> fin_val b)"
  by (auto simp: is_fin_iff)

interpretation slice_sort: weight_sort "sort_by heavier"
proof
  show "mset (sort_by heavier rows) = mset rows" for rows by simp
  fix rows :: "SynthesisRow list"
  assume fin: "\<forall>r\<in>set rows. is_fin (sr_ViabilityWeight r)"
  then have eq: "sort_by heavier rows = sort_by (\<lambda>a b. fin_val (sr_ViabilityWeight b) < fin_val (sr_ViabilityWeight a)) rows"
    by (intro sort_by_cong) (simp add: heavier_def fin_order)
  show "sorted_wrt (\<lambda>a b. sr_ViabilityWeight b \<le> sr_ViabilityWeight a) (sort_by heavier rows)"
    unfolding eq
    by (rule sorted_wrt_mono_rel [OF _ weight_less.sort_by_sorted]) (use fin fin_order in \<open>auto simp: not_less\<close>)
qed

lemma fold_assess_row:
  "as_viable (fold assess_row rows st) = as_viable st + length (filter (\<lambda>r. Fin 0 < sr_ViabilityWeight r) rows)"
  "as_counts (fold assess_row rows st) k = as_counts st k + length (filter (\<lambda>r. sr_ConsensusRelationship r = k) rows)"
  by (induction rows arbitrary: st) (simp_all add: assess_row_def)

lemma Assess_counts:
  "q_TotalPairs (Assess cfg act rows) = length rows"
  "q_ViablePairs (Assess cfg act rows) = length (filter (\<lambda>r. Fin 0 < sr_ViabilityWeight r) rows)"
  "q_RelationshipCounts (Assess cfg act rows) k = length (filter (\<lambda>r. sr_ConsensusRelationship r = k) rows)"
  by (simp_all add: Assess_def Let_def fold_assess_row assess_start_def)

lemma persistViability_Inr:
  "persistViability db rows jobID tenantID = Inr n \<Longrightarrow>
    db_update db (map sr_ViabilityWeight rows) (map sr_SourceID rows) (map sr_TargetID rows) (map sr_Analyzer rows) jobID tenantID
      = QueryRows n AllRead \<and> length rows \<le> n"
  by (auto simp: persistViability_def split: if_splits query_outcome.splits rows_end.splits)

lemma Execute_Inr:
  assumes "Execute srt db hash cfg types tenantID jobID inputs cls = Inr (rows, report, h)"
  defines "tc \<equiv> ForTenant cfg tenantID"
  shows "validateInputs inputs = None" "\<exists>n. persistViability db rows jobID tenantID = Inr n"
    and "rows = (if tc_MaxMappingsPerControl tc > 0
      then capMappingsPerSource srt (ranked_rows tc jobID inputs cls) (tc_MaxMappingsPerControl tc) else ranked_rows tc jobID inputs cls)"
    and "report = Assess (tc_Assessment tc) (NewAssessor types) rows"
  using assms(1) unfolding Execute_def tc_def [symmetric]
  by (auto simp: Let_def split: if_splits option.splits sum.splits)

text \<open>
  C26. A synthesis that succeeds keeps the best rows. For every source its rows are the
  confident ones of that source, all of them or as many as the configured limit, and no row
  it dropped for the limit is heavier than one it kept. Every row meets the confidence
  threshold, the report counts exactly the rows that are kept, and the database has
  confirmed an update for each of them. This holds for any sort that orders by weight.
\<close>

theorem synthesis_execute_sound:
  assumes "\<And>xs. mset (srt xs) = mset xs"
    and "\<And>xs. \<forall>r\<in>set xs. is_fin (sr_ViabilityWeight r) \<Longrightarrow>
      sorted_wrt (\<lambda>a b. sr_ViabilityWeight b \<le> sr_ViabilityWeight a) (srt xs)"
    and "Execute srt db hash cfg types tenantID jobID inputs cls = Inr (rows, report, h)" "tc = ForTenant cfg tenantID"
  shows "(\<forall>s. \<exists>dropped. mset (of_source s (ranked_rows tc jobID inputs cls)) = mset (of_source s rows) + mset dropped
        \<and> (\<forall>a\<in>set (of_source s rows). \<forall>b\<in>set dropped. sr_ViabilityWeight b \<le> sr_ViabilityWeight a)
        \<and> int (length (of_source s rows)) =
            (let n = int (length (of_source s (ranked_rows tc jobID inputs cls))) in
             if tc_MaxMappingsPerControl tc > 0 then min (tc_MaxMappingsPerControl tc) n else n))
    \<and> (tc_ConfidenceThreshold tc > 0 \<longrightarrow> (\<forall>r\<in>set rows. Fin (tc_ConfidenceThreshold tc) \<le> sr_ConfidenceFraction r))
    \<and> q_TotalPairs report = length rows
    \<and> q_ViablePairs report = length (filter (\<lambda>r. Fin 0 < sr_ViabilityWeight r) rows)
    \<and> (\<forall>k. q_RelationshipCounts report k = length (filter (\<lambda>r. sr_ConsensusRelationship r = k) rows))
    \<and> (\<exists>n. db_update db (map sr_ViabilityWeight rows) (map sr_SourceID rows) (map sr_TargetID rows) (map sr_Analyzer rows) jobID tenantID
          = QueryRows n AllRead \<and> length rows \<le> n)"
proof -
  have ws: "weight_sort srt" using assms(1,2) by (rule weight_sort.intro)
  note e = Execute_Inr [OF assms(3), folded assms(4)]
  let ?all = "ranked_rows tc jobID inputs cls" and ?k = "tc_MaxMappingsPerControl tc"
  have fin: "\<forall>r\<in>set (of_source s ?all). is_fin (sr_ViabilityWeight r)" for s
    using ranked_rows_fin [OF e(1)] by (auto simp: of_source_def)
  have src: "\<exists>dropped. mset (of_source s ?all) = mset (of_source s rows) + mset dropped
        \<and> (\<forall>a\<in>set (of_source s rows). \<forall>b\<in>set dropped. sr_ViabilityWeight b \<le> sr_ViabilityWeight a)
        \<and> int (length (of_source s rows)) = (let n = int (length (of_source s ?all)) in if ?k > 0 then min ?k n else n)" for s
  proof (cases "?k > 0")
    case True
    then have "of_source s rows = weight_sort.keep srt ?k (of_source s ?all)" using e(3) weight_sort.cap_of_source [OF ws True] by simp
    then show ?thesis
      using weight_sort.mset_keep [OF ws, of "of_source s ?all" ?k] fin [of s] weight_sort.length_keep [OF ws True] True by auto
  next
    case False
    then show ?thesis using e(3) by (intro exI [of _ "[]"]) simp
  qed
  have "set (of_source s rows) \<subseteq> set (of_source s ?all)" for s
  proof -
    obtain d where "mset (of_source s ?all) = mset (of_source s rows) + mset d" using src [of s] by blast
    then show ?thesis by (metis mset_subset_eq_add_left set_mset_mono set_mset_mset)
  qed
  then have sub: "set rows \<subseteq> set ?all" by (auto simp: of_source_def)
  have conf: "Fin (tc_ConfidenceThreshold tc) \<le> sr_ConfidenceFraction r" if "tc_ConfidenceThreshold tc > 0" "r \<in> set rows" for r
    using that sub by (auto simp: ranked_rows_def filterByConfidence_def Let_def)
  show ?thesis
    using src conf e(2) persistViability_Inr [of db rows jobID tenantID] unfolding e(4) Assess_counts by blast
qed

text \<open>
  Rounding can lift a weight above its score, and a confidence that is not a number passes
  the validation.
\<close>

lemma viability_exceeds_score: "ComputeViabilityWeight (Fin (3 / 8)) ty ty lv lv [] cfg = Fin (19 / 50)"
  by (simp add: ComputeViabilityWeight_def ComputeViability_def typeFactor_def levelFactor_def intAbs_def round2_def go_round_def)

lemma nan_confidence_accepted:
  "validate_input i inp = None \<Longrightarrow> validate_input i (inp\<lparr>si_ConfidenceFraction := NaN\<rparr>) = None"
  by (simp add: validate_input_def split: if_splits)

text \<open>Concrete data for the witness: two targets of one source, of which one may stay.\<close>

definition sample_input :: "string \<Rightarrow> real \<Rightarrow> SynthesisInput" where
  "sample_input tgt score =
     \<lparr>si_SourceID = ''AC-2'', si_TargetID = tgt, si_SimilarityScore = Fin score, si_SimilarityMedian = Fin score,
      si_SimilarityVar = Fin 0, si_SimilarityCount = 1, si_ConsensusRelationship = ''EQUIVALENT'', si_Analyzer = ''relationship'',
      si_ContributionType = [], si_ConfidenceFraction = Fin 1, si_Unanimous = True\<rparr>"

definition sample_config :: SynthesisConfig where
  "sample_config =
     \<lparr>tc_Viability = \<lparr>vc_TypeMismatchFactor = 4 / 5, vc_SkipLevelFactor = 7 / 10, vc_IntegralToFactor = 11 / 10\<rparr>,
      tc_Assessment = \<lparr>ac_IQRGood = 20, ac_IQRPoor = 10, ac_NoRelHigh = 97 / 100, ac_NoRelLow = 4 / 5, ac_ContestedWarn = 1 / 5,
                       ac_ActionableWarn = 3 / 10\<rparr>,
      tc_ConfidenceThreshold = 1 / 2, tc_MaxMappingsPerControl = 1, sc_TenantOverrides = (\<lambda>_. None)\<rparr>"

definition sample_db :: database where
  "sample_db = \<lparr>db_begin = True, db_update = (\<lambda>ws _ _ _ _ _. QueryRows (length ws) AllRead), db_commit = True\<rparr>"

theorem synthesis_execute_sound_witness:
  "\<exists>rows report. Execute (sort_by heavier) sample_db (\<lambda>_. Some ''h'') sample_config [] ''acme'' ''job-1''
      [sample_input ''A.5'' (1 / 2), sample_input ''A.6'' (3 / 4)] (\<lambda>_. None) = Inr (rows, report, ''h'')
    \<and> length (of_source ''AC-2'' rows) = 1 \<and> q_TotalPairs report = length rows"
proof -
  let ?inps = "[sample_input ''A.5'' (1 / 2), sample_input ''A.6'' (3 / 4)]"
  let ?tc = "ForTenant sample_config ''acme''"
  have "validateInputs ?inps = None" by (simp add: validateInputs_def validate_input_def sample_input_def)
  then obtain rows report where ex: "Execute (sort_by heavier) sample_db (\<lambda>_. Some ''h'') sample_config [] ''acme'' ''job-1'' ?inps (\<lambda>_. None)
      = Inr (rows, report, ''h'')"
    by (simp add: Execute_def persistViability_def sample_db_def Let_def)
  have tc: "tc_MaxMappingsPerControl ?tc = 1" "tc_ConfidenceThreshold ?tc = 1 / 2"
    by (simp_all add: ForTenant_def sample_config_def SynthesisTenantConfig.defs)
  have len: "length (of_source ''AC-2'' (ranked_rows ?tc ''job-1'' ?inps (\<lambda>_. None))) = 2"
    by (simp add: ranked_rows_def tc of_source_def Rank_def filterByConfidence_def rank_row_def sample_input_def Let_def)
  note sound = synthesis_execute_sound [OF slice_sort.srt_mset slice_sort.srt_sorted ex refl]
  have "int (length (of_source ''AC-2'' rows)) =
      (let n = int (length (of_source ''AC-2'' (ranked_rows ?tc ''job-1'' ?inps (\<lambda>_. None)))) in
       if tc_MaxMappingsPerControl ?tc > 0 then min (tc_MaxMappingsPerControl ?tc) n else n)" "q_TotalPairs report = length rows"
    using sound by blast+
  then show ?thesis using ex tc len by (simp add: Let_def)
qed

end
