(* ===== verification/Go_Time.thy ===== *)
theory Go_Time
  imports Go_Prelude
begin

text \<open>
  Package \<^verbatim>\<open>time\<close> as the graph store uses it, and \<^verbatim>\<open>pkg/graphdb/timefmt.go\<close>.

  A \<^verbatim>\<open>time.Time\<close> is the number of nanoseconds since its zero value, the first instant of
  year 1 in UTC; the location never matters, because every time is formatted in UTC and
  compared as an instant. The calendar is the proleptic Gregorian one. \<open>parseRFC3339\<close> is
  the parser \<^verbatim>\<open>time.Parse\<close> tries first for the layout \<^verbatim>\<open>time.RFC3339Nano\<close>; the stored
  strings it is applied to are all written by \<open>FormatTime\<close>, and the more lenient general
  parser behind it accepts no further string of that shape.

  The theory shows that a formatted time parses back to itself and that the order of the
  formatted strings is the order of the times, for the years 0 to 9999.
\<close>

type_synonym time = int

definition IsZero :: "time \<Rightarrow> bool" where
  "IsZero t \<longleftrightarrow> t = 0"

subsection \<open>The calendar\<close>

definition leap :: "int \<Rightarrow> bool" where
  "leap y \<longleftrightarrow> y mod 4 = 0 \<and> (y mod 100 \<noteq> 0 \<or> y mod 400 = 0)"

definition month_lens :: "int \<Rightarrow> int list" where
  "month_lens y = [31, if leap y then 29 else 28, 31, 30, 31, 30, 31, 31, 30, 31, 30, 31]"

definition year_len :: "int \<Rightarrow> int" where
  "year_len y = (if leap y then 366 else 365)"

text \<open>Year and day of the year (from 0), for a number of days since the first day of year 1.\<close>

definition year_day :: "int \<Rightarrow> int \<times> int" where
  "year_day d =
     (let n400 = d div 146097; d1 = d mod 146097;
          n100 = min 3 (d1 div 36524); d2 = d1 - 36524 * n100;
          n4 = d2 div 1461; d3 = d2 mod 1461;
          n1 = min 3 (d3 div 365)
      in (1 + 400 * n400 + 100 * n100 + 4 * n4 + n1, d3 - 365 * n1))"

text \<open>Month and day of the month, both from 0, for a day of the year.\<close>

fun month_day :: "int list \<Rightarrow> int \<Rightarrow> int \<times> int" where
  "month_day [] d = (0, d)"
| "month_day (l # ls) d =
     (if d < l then (0, d) else (case month_day ls (d - l) of (m, r) \<Rightarrow> (m + 1, r)))"

definition days_before_year :: "int \<Rightarrow> int" where
  "days_before_year y = 365 * (y - 1) + (y - 1) div 4 - (y - 1) div 100 + (y - 1) div 400"

definition days_before_month :: "int list \<Rightarrow> int \<Rightarrow> int" where
  "days_before_month ls m = sum_list (take (nat m) ls)"

definition Year :: "time \<Rightarrow> int" where
  "Year t = fst (year_day (t div 86400000000000))"

definition Date :: "int \<Rightarrow> int \<Rightarrow> int \<Rightarrow> int \<Rightarrow> int \<Rightarrow> int \<Rightarrow> int \<Rightarrow> time" where
  "Date y mo d h mi s ns =
     (((days_before_year y + days_before_month (month_lens y) (mo - 1) + (d - 1)) * 24 + h) * 60 + mi) * 60000000000
       + s * 1000000000 + ns"

subsection \<open>Formatting\<close>

text \<open>Zero-padded decimal of at least \<open>w\<close> digits, \<^verbatim>\<open>appendInt\<close>.\<close>

definition pad :: "nat \<Rightarrow> nat \<Rightarrow> string" where
  "pad w n = replicate (w - length (nat_digits n)) (CHR ''0'') @ nat_digits n"

definition appendInt :: "int \<Rightarrow> nat \<Rightarrow> string" where
  "appendInt x w = (if x < 0 then CHR ''-'' # pad w (nat (- x)) else pad w (nat x))"

definition FormatTime :: "time \<Rightarrow> string" where
  "FormatTime t =
     (let day = t div 86400000000000; ns = t mod 86400000000000; (y, yd) = year_day day;
          (m, d) = month_day (month_lens y) yd
      in appendInt y 4 @ ''-'' @ appendInt (m + 1) 2 @ ''-'' @ appendInt (d + 1) 2 @ ''T''
         @ appendInt (ns div 3600000000000) 2 @ '':'' @ appendInt (ns div 60000000000 mod 60) 2 @ '':''
         @ appendInt (ns div 1000000000 mod 60) 2 @ ''.'' @ appendInt (ns mod 1000000000) 9 @ ''Z'')"

subsection \<open>Parsing\<close>

definition digit_char :: "char \<Rightarrow> bool" where
  "digit_char c \<longleftrightarrow> CHR ''0'' \<le> c \<and> c \<le> CHR ''9''"

definition digit_val :: "char \<Rightarrow> int" where
  "digit_val c = int (of_char c) - 48"

definition digits_val :: "string \<Rightarrow> int" where
  "digits_val s = foldl (\<lambda>x c. x * 10 + digit_val c) 0 s"

text \<open>The closure \<^verbatim>\<open>parseUint\<close> of \<^verbatim>\<open>parseRFC3339\<close>.\<close>

definition parseUint :: "string \<Rightarrow> int \<Rightarrow> int \<Rightarrow> int option" where
  "parseUint s lo hi =
     (if list_all digit_char s \<and> lo \<le> digits_val s \<and> digits_val s \<le> hi then Some (digits_val s) else None)"

text \<open>The fraction: at most nine digits count, fewer are scaled up.\<close>

definition parseNanoseconds :: "string \<Rightarrow> int" where
  "parseNanoseconds ds = digits_val (take 9 ds) * 10 ^ (9 - length (take 9 ds))"

text \<open>The zone: \<^verbatim>\<open>Z\<close> or a signed offset; the result is the offset in seconds.\<close>

definition parse_zone :: "string \<Rightarrow> int option" where
  "parse_zone s =
     (if s = ''Z'' then Some 0
      else if length s \<noteq> 6 then None
      else (case (parseUint (take 2 (drop 1 s)) 0 23, parseUint (drop 4 s) 0 59) of
              (Some hr, Some mm) \<Rightarrow>
                if (s ! 0 = CHR ''-'' \<or> s ! 0 = CHR ''+'') \<and> s ! 3 = CHR '':''
                then Some ((if s ! 0 = CHR ''-'' then -1 else 1) * ((hr * 60 + mm) * 60))
                else None
            | _ \<Rightarrow> None))"

definition parse_frac :: "string \<Rightarrow> int \<times> string" where
  "parse_frac s =
     (case s of c # d # r \<Rightarrow>
        if c = CHR ''.'' \<and> digit_char d
        then (parseNanoseconds (takeWhile digit_char (d # r)), dropWhile digit_char (d # r))
        else (0, s)
      | _ \<Rightarrow> (0, s))"

definition parseRFC3339 :: "string \<Rightarrow> time option" where
  "parseRFC3339 s =
     (if length s < 19 then None
      else (case (parseUint (take 4 s) 0 9999, parseUint (take 2 (drop 5 s)) 1 12) of
        (Some y, Some mo) \<Rightarrow>
          (case (parseUint (take 2 (drop 8 s)) 1 (month_lens y ! nat (mo - 1)),
                 parseUint (take 2 (drop 11 s)) 0 23,
                 parseUint (take 2 (drop 14 s)) 0 59,
                 parseUint (take 2 (drop 17 s)) 0 59) of
            (Some d, Some h, Some mi, Some sec) \<Rightarrow>
              if s ! 4 = CHR ''-'' \<and> s ! 7 = CHR ''-'' \<and> s ! 10 = CHR ''T'' \<and> s ! 13 = CHR '':'' \<and> s ! 16 = CHR '':''
              then (case parse_frac (drop 19 s) of (ns, z) \<Rightarrow>
                      map_option (\<lambda>off. Date y mo d h mi sec ns - off * 1000000000) (parse_zone z))
              else None
          | _ \<Rightarrow> None)
      | _ \<Rightarrow> None))"

subsection \<open>The calendar is a bijection between days and dates\<close>

lemma div_mod_decompose:
  fixes a b c e :: int
  assumes "0 \<le> b" "b \<le> 3" "0 \<le> c" "c \<le> 24" "0 \<le> e" "e \<le> 3"
  shows "(400 * a + 100 * b + 4 * c + e) div 4 = 100 * a + 25 * b + c"
    and "(400 * a + 100 * b + 4 * c + e) div 100 = 4 * a + b"
    and "(400 * a + 100 * b + 4 * c + e) div 400 = a"
  using assms by linarith+

lemma days_before_year_parts:
  fixes a b c e :: int
  assumes "0 \<le> b" "b \<le> 3" "0 \<le> c" "c \<le> 24" "0 \<le> e" "e \<le> 3"
  shows "days_before_year (1 + 400 * a + 100 * b + 4 * c + e) = 146097 * a + 36524 * b + 1461 * c + 365 * e"
proof -
  have "1 + 400 * a + 100 * b + 4 * c + e - 1 = 400 * a + 100 * b + 4 * c + e" by simp
  then show ?thesis
    unfolding days_before_year_def by (simp only: div_mod_decompose [OF assms, of a]) simp
qed

lemma mod_eq_0_top: "1 \<le> r \<Longrightarrow> r \<le> k \<Longrightarrow> (k * q + r) mod k = 0 \<longleftrightarrow> r = k" for k q r :: int
  by (cases "r = k") simp_all

lemma leap_parts:
  fixes a b c e :: int
  assumes "0 \<le> b" "b \<le> 3" "0 \<le> c" "c \<le> 24" "0 \<le> e" "e \<le> 3"
  shows "leap (1 + 400 * a + 100 * b + 4 * c + e) \<longleftrightarrow> e = 3 \<and> (c \<noteq> 24 \<or> b = 3)"
proof -
  define y where "y = 1 + 400 * a + 100 * b + 4 * c + e"
  have 4: "y = 4 * (100 * a + 25 * b + c) + (e + 1)" and 100: "y = 100 * (4 * a + b) + (4 * c + e + 1)"
    and 400: "y = 400 * a + (100 * b + 4 * c + e + 1)"
    by (simp_all add: y_def)
  have "y mod 4 = 0 \<longleftrightarrow> e + 1 = 4"
    unfolding 4 by (rule mod_eq_0_top) (use assms in simp_all)
  moreover have "y mod 100 = 0 \<longleftrightarrow> 4 * c + e + 1 = 100"
    unfolding 100 by (rule mod_eq_0_top) (use assms in simp_all)
  moreover have "y mod 400 = 0 \<longleftrightarrow> 100 * b + 4 * c + e + 1 = 400"
    unfolding 400 by (rule mod_eq_0_top) (use assms in simp_all)
  ultimately show ?thesis using assms unfolding leap_def y_def [symmetric] by auto
qed

lemma clamped_div:
  fixes k d :: int
  assumes "0 < k" "0 \<le> d"
  shows "0 \<le> min 3 (d div k)" and "min 3 (d div k) \<le> 3" and "0 \<le> d - k * min 3 (d div k)"
    and "min 3 (d div k) < 3 \<Longrightarrow> d - k * min 3 (d div k) < k"
proof -
  have n: "0 \<le> d div k" using assms by (simp add: pos_imp_zdiv_nonneg_iff)
  have d: "d = k * (d div k) + d mod k" "0 \<le> d mod k" "d mod k < k" using assms by simp_all
  have "k * min 3 (d div k) \<le> k * (d div k)" using assms by (intro mult_left_mono) simp_all
  then show "0 \<le> d - k * min 3 (d div k)" using d by linarith
  show "0 \<le> min 3 (d div k)" and "min 3 (d div k) \<le> 3" using n by simp_all
  show "d - k * min 3 (d div k) < k" if "min 3 (d div k) < 3"
  proof -
    from that have "min 3 (d div k) = d div k" by simp
    with d show ?thesis by (simp only:)
  qed
qed

lemma year_day_correct:
  assumes "year_day d = (y, yd)"
  shows "d = days_before_year y + yd" and "0 \<le> yd" and "yd < year_len y"
proof -
  define a where "a = d div 146097"
  define d1 where "d1 = d mod 146097"
  define b where "b = min 3 (d1 div 36524)"
  define d2 where "d2 = d1 - 36524 * b"
  define c where "c = d2 div 1461"
  define d3 where "d3 = d2 mod 1461"
  define e where "e = min 3 (d3 div 365)"
  have "year_day d = (1 + 400 * a + 100 * b + 4 * c + e, d3 - 365 * e)"
    unfolding year_day_def Let_def a_def d1_def b_def d2_def c_def d3_def e_def by (rule refl)
  with assms have y: "y = 1 + 400 * a + 100 * b + 4 * c + e" and yd: "yd = d3 - 365 * e" by simp_all
  have d1: "0 \<le> d1" "d1 < 146097" "d = 146097 * a + d1" by (simp_all add: d1_def a_def)
  note b0 = clamped_div [of 36524 d1, folded b_def, folded d2_def]
  have b: "0 \<le> b" "b \<le> 3" "0 \<le> d2" "b < 3 \<Longrightarrow> d2 < 36524" using b0 d1 by simp_all
  have d2: "d2 < 36525" using b d1 unfolding d2_def by linarith
  have c: "0 \<le> c" "c \<le> 24" "0 \<le> d3" "d3 < 1461" "d2 = 1461 * c + d3"
    using b d2 unfolding c_def d3_def by (simp_all add: pos_imp_zdiv_nonneg_iff)
  note e0 = clamped_div [of 365 d3, folded e_def, folded yd]
  have e: "0 \<le> e" "e \<le> 3" "0 \<le> yd" "e < 3 \<Longrightarrow> yd < 365" using e0 c by simp_all
  have yd366: "yd < 366" using e c unfolding yd by linarith
  have short: "yd < 365" if "\<not> (e = 3 \<and> (c \<noteq> 24 \<or> b = 3))"
  proof (cases "e < 3")
    case False
    with that e b have "c = 24" "d2 < 36524" "e = 3" by auto
    with c yd show ?thesis by linarith
  qed (simp add: e)
  show "d = days_before_year y + yd"
    using d1 c unfolding y days_before_year_parts [OF b(1,2) c(1,2) e(1,2)] yd d2_def by simp
  show "0 \<le> yd" by (fact e)
  show "yd < year_len y"
    using short yd366 unfolding year_len_def y leap_parts [OF b(1,2) c(1,2) e(1,2)] by auto
qed

lemma div_pred:
  fixes k y :: int
  assumes "0 < k"
  shows "y div k = (y - 1) div k + (if y mod k = 0 then 1 else 0)"
proof -
  define q r where "q = (y - 1) div k" and "r = (y - 1) mod k"
  have r: "0 \<le> r" "r < k" and y: "y = k * q + (r + 1)" 
    using assms unfolding q_def r_def by (simp_all add: algebra_simps)
  show ?thesis
  proof (cases "r + 1 = k")
    case True
    then have "y = k * (q + 1)" using y by (simp add: algebra_simps)
    then show ?thesis using assms unfolding q_def [symmetric] by simp
  next
    case False
    then have "y div k = q \<and> y mod k = r + 1"
      using r y by (metis add.commute div_pos_pos_trivial mod_pos_pos_trivial assms add_0
          div_mult_self2 mod_mult_self2 zle_add1_eq_le order_le_imp_less_or_eq add_nonneg_nonneg zero_le_one
          less_le not_less_iff_gr_or_eq)
    then show ?thesis using r unfolding q_def [symmetric] by simp
  qed
qed

lemma leap_len:
  "(C \<Longrightarrow> B) \<Longrightarrow> (B \<Longrightarrow> A) \<Longrightarrow>
   (if A \<and> (\<not> B \<or> C) then 366 else 365) =
     365 + (if A then 1 else 0) - (if B then 1 else 0) + (if C then 1 else 0 :: int)"
  by (cases A; cases B; cases C) simp_all

lemma days_before_year_Suc: "days_before_year (y + 1) = days_before_year y + year_len y"
proof -
  have dvd: "y mod 400 = 0 \<Longrightarrow> y mod 100 = 0" "y mod 100 = 0 \<Longrightarrow> y mod 4 = 0"
    using dvd_trans [of "100 :: int" 400 y] dvd_trans [of "4 :: int" 100 y] by (simp_all add: mod_eq_0_iff_dvd)
  define a4 a100 a400 :: int where "a4 = (if y mod 4 = 0 then 1 else 0)"
    and "a100 = (if y mod 100 = 0 then 1 else 0)" and "a400 = (if y mod 400 = 0 then 1 else 0)"
  define q4 q100 q400 where "q4 = (y - 1) div 4" and "q100 = (y - 1) div 100" and "q400 = (y - 1) div 400"
  have len: "year_len y = 365 + a4 - a100 + a400"
    unfolding year_len_def leap_def a4_def a100_def a400_def by (rule leap_len) (fact dvd)+
  have "y div 4 = q4 + a4" and "y div 100 = q100 + a100" and "y div 400 = q400 + a400"
    unfolding a4_def a100_def a400_def q4_def q100_def q400_def by (rule div_pred; simp)+
  then have suc: "days_before_year (y + 1) = 365 * y + (q4 + a4) - (q100 + a100) + (q400 + a400)"
    by (simp add: days_before_year_def)
  have "days_before_year y = 365 * (y - 1) + q4 - q100 + q400"
    unfolding days_before_year_def q4_def q100_def q400_def by (rule refl)
  then show ?thesis unfolding suc len by (simp add: algebra_simps)
qed

lemma days_before_year_mono: "y < z \<Longrightarrow> days_before_year y + year_len y \<le> days_before_year z"
proof (induction "nat (z - y)" arbitrary: y)
  case (Suc n)
  show ?case
  proof (cases "z = y + 1")
    case False
    with Suc have "days_before_year (y + 1) + year_len (y + 1) \<le> days_before_year z" by simp
    moreover have "0 \<le> year_len (y + 1)" by (simp add: year_len_def)
    ultimately show ?thesis by (simp only: days_before_year_Suc)
  qed (simp only: days_before_year_Suc)
qed simp

lemma year_day_less:
  assumes "d < d'" and y: "year_day d = (y, yd)" and z: "year_day d' = (z, zd)"
  shows "y < z \<or> y = z \<and> yd < zd"
proof (rule ccontr)
  assume "\<not> ?thesis"
  then consider "z < y" | "y = z" "zd \<le> yd" by linarith
  then show False
  proof cases
    case 1
    then show False
      using days_before_year_mono [OF 1] year_day_correct [OF y] year_day_correct [OF z] assms(1) by linarith
  next
    case 2
    then show False
      using year_day_correct(1) [OF y] year_day_correct(1) [OF z] assms(1) by simp
  qed
qed

lemma month_day_correct:
  assumes "month_day ls yd = (m, d)" "0 \<le> yd" "yd < sum_list ls" "\<forall>l\<in>set ls. 0 < l"
  shows "0 \<le> m \<and> m < int (length ls) \<and> yd = days_before_month ls m + d \<and> 0 \<le> d \<and> d < ls ! nat m"
  using assms
proof (induction ls yd arbitrary: m d rule: month_day.induct)
  case (2 l ls yd)
  show ?case
  proof (cases "yd < l")
    case False
    obtain m' where m': "month_day ls (yd - l) = (m', d)" "m = m' + 1"
      using 2(2) False by (auto split: prod.splits)
    have "0 \<le> m' \<and> m' < int (length ls) \<and> yd - l = days_before_month ls m' + d \<and> 0 \<le> d \<and> d < ls ! nat m'"
      using 2(1) [OF False m'(1)] False 2(3-5) by simp
    then show ?thesis
      by (simp add: m'(2) days_before_month_def nat_add_distrib)
  qed (use 2 in \<open>simp add: days_before_month_def\<close>)
qed simp

lemma month_day_less:
  assumes "yd < zd" "month_day ls yd = (m, d)" "month_day ls zd = (n, e)"
    "\<forall>l\<in>set ls. 0 < l"
  shows "m < n \<or> m = n \<and> d < e"
  using assms
proof (induction ls yd arbitrary: m d n zd rule: month_day.induct)
  case (2 l ls yd)
  have nn: "0 \<le> fst (month_day ls x)" for x
    by (induction ls x rule: month_day.induct) (auto split: prod.splits)
  show ?case
  proof (cases "zd < l")
    case True
    then show ?thesis using 2 by simp
  next
    case zd: False
    obtain n' where n': "month_day ls (zd - l) = (n', e)" "n = n' + 1"
      using 2(4) zd by (auto split: prod.splits)
    show ?thesis
    proof (cases "yd < l")
      case True
      then show ?thesis using 2(3) n' nn [of "zd - l"] by simp
    next
      case False
      obtain m' where m': "month_day ls (yd - l) = (m', d)" "m = m' + 1"
        using 2(3) False by (auto split: prod.splits)
      have "m' < n' \<or> m' = n' \<and> d < e"
        using 2(1) [OF False _ m'(1) n'(1)] 2(2,5) by simp
      then show ?thesis by (auto simp: m' n')
    qed
  qed
qed simp

lemma month_lens_sum: "sum_list (month_lens y) = year_len y" "\<forall>l\<in>set (month_lens y). 0 < l"
  "length (month_lens y) = 12" "\<forall>l\<in>set (month_lens y). l \<le> 31"
  by (simp_all add: month_lens_def year_len_def)

subsection \<open>Fixed-width decimals\<close>

lemma of_char_digit: "d < 10 \<Longrightarrow> (of_char (char_of (48 + d :: nat)) :: nat) = 48 + d"
  by simp

lemma pad_step:
  assumes "1 \<le> w"
  shows "pad (Suc w) n = pad w (n div 10) @ [char_of (48 + n mod 10)]"
proof (cases "n < 10")
  case True
  then have ds: "nat_digits n = [char_of (48 + n)]" "n mod 10 = n" "n div 10 = 0"
    by (simp_all add: nat_digits.simps)
  have "nat_digits 0 = [CHR ''0'']" by code_simp
  moreover have "replicate w (CHR ''0'') = replicate (w - 1) (CHR ''0'') @ [CHR ''0'']"
    using assms by (cases w) (simp_all add: replicate_append_same)
  ultimately show ?thesis using ds by (simp add: pad_def)
next
  case False
  then have "nat_digits n = nat_digits (n div 10) @ [char_of (48 + n mod 10)]"
    by (simp add: nat_digits.simps [of n])
  then show ?thesis by (simp add: pad_def)
qed

lemma pad_one: "n < 10 \<Longrightarrow> pad 1 n = [char_of (48 + n)]"
  by (simp add: pad_def nat_digits.simps)

lemma length_pad: "1 \<le> w \<Longrightarrow> n < 10 ^ w \<Longrightarrow> length (pad w n) = w"
proof (induction w arbitrary: n rule: nat_induct_at_least)
  case (Suc w)
  have "n div 10 < 10 ^ w" using Suc.prems by (simp add: less_mult_imp_div_less mult.commute)
  with Suc show ?case by (simp add: pad_step)
qed (simp add: pad_one del: One_nat_def)

lemma less_append_same_length:
  fixes xs ys us vs :: "'a :: linorder list"
  assumes "length xs = length ys"
  shows "xs @ us < ys @ vs \<longleftrightarrow> xs < ys \<or> xs = ys \<and> us < vs"
  using assms by (induction xs ys rule: list_induct2) auto

lemma div_less_cases:
  fixes a b k :: int
  assumes "0 < k" "a < b"
  shows "a div k < b div k \<or> a div k = b div k \<and> a mod k < b mod k"
proof -
  have "a div k \<le> b div k" using assms by (simp add: zdiv_mono1)
  moreover have "a mod k < b mod k" if "a div k = b div k"
    using assms(2) mult_div_mod_eq [of k a, unfolded that] mult_div_mod_eq [of k b] by linarith
  ultimately show ?thesis by linarith
qed

lemma digit_less: "m < n \<Longrightarrow> n < 10 \<Longrightarrow> (char_of (48 + m :: nat) :: char) < char_of (48 + n :: nat)"
  unfolding less_char_def using of_char_digit [of m] of_char_digit [of n] by linarith

lemma pad_less: "1 \<le> w \<Longrightarrow> m < n \<Longrightarrow> n < 10 ^ w \<Longrightarrow> pad w m < pad w n"
proof (induction w arbitrary: m n rule: nat_induct_at_least)
  case base
  then have "pad 1 m = [char_of (48 + m)]" "pad 1 n = [char_of (48 + n)]"
    and "(char_of (48 + m) :: char) < char_of (48 + n)"
    using pad_one [of m] pad_one [of n] digit_less [of m n] by simp_all
  then show ?case by (simp only: Cons_less_Cons simp_thms)
next
  case (Suc w)
  have "m div 10 \<le> n div 10" using Suc.prems by (simp add: div_le_mono)
  moreover have "m mod 10 < n mod 10" if "m div 10 = n div 10"
    using Suc.prems mult_div_mod_eq [of 10 m, unfolded that] mult_div_mod_eq [of 10 n] by linarith
  ultimately have cases: "m div 10 < n div 10 \<or> m div 10 = n div 10 \<and> m mod 10 < n mod 10"
    by linarith
  have n: "n div 10 < 10 ^ w" "m div 10 < 10 ^ w"
    using Suc.prems by (simp_all add: less_mult_imp_div_less mult.commute)
  have len: "length (pad w (m div 10)) = length (pad w (n div 10))"
    using n Suc.hyps by (simp add: length_pad)
  from cases show ?case
  proof
    assume "m div 10 < n div 10"
    with Suc.IH n have "pad w (m div 10) < pad w (n div 10)" by blast
    then show ?thesis by (simp only: pad_step [OF Suc.hyps] less_append_same_length [OF len] simp_thms)
  next
    assume eq: "m div 10 = n div 10 \<and> m mod 10 < n mod 10"
    then have "(char_of (48 + m mod 10) :: char) < char_of (48 + n mod 10)" by (simp add: digit_less)
    with eq show ?thesis
      by (simp only: pad_step [OF Suc.hyps] less_append_same_length [OF refl] Cons_less_Cons simp_thms)
  qed
qed

lemma digits_val_append: "digits_val (s @ [c]) = digits_val s * 10 + digit_val c"
  by (simp add: digits_val_def)

lemma digit_val_digit: "d < 10 \<Longrightarrow> digit_val (char_of (48 + d :: nat)) = int d"
  and digit_char_digit: "d < 10 \<Longrightarrow> digit_char (char_of (48 + d :: nat))"
proof -
  assume d: "d < 10"
  show "digit_val (char_of (48 + d :: nat)) = int d"
    using of_char_digit [OF d] by (simp add: digit_val_def)
  show "digit_char (char_of (48 + d :: nat))"
    using of_char_digit [OF d] d by (simp add: digit_char_def less_eq_char_def)
qed

lemma nat_digits_val: "digits_val (nat_digits n) = int n \<and> list_all digit_char (nat_digits n)"
proof (induction n rule: nat_digits.induct)
  case (1 n)
  show ?case
  proof (cases "n < 10")
    case True
    then have "nat_digits n = [char_of (48 + n)]" by (simp add: nat_digits.simps)
    then show ?thesis using True by (simp add: digits_val_def digit_val_digit digit_char_digit)
  next
    case False
    then have "nat_digits n = nat_digits (n div 10) @ [char_of (48 + n mod 10)]"
      by (simp add: nat_digits.simps [of n])
    moreover have "int (n div 10) * 10 + int (n mod 10) = int n"
      by (metis div_mult_mod_eq of_nat_add of_nat_mult of_nat_numeral)
    ultimately show ?thesis using 1 [OF False]
      by (simp add: digits_val_append digit_val_digit digit_char_digit)
  qed
qed

lemma pad_val: "digits_val (pad w n) = int n \<and> list_all digit_char (pad w n)"
proof -
  have "digits_val (replicate k (CHR ''0'') @ s) = digits_val s" for k s
    by (induction k) (simp_all add: digits_val_def digit_val_def)
  moreover have "digit_char (CHR ''0'')" by (simp add: digit_char_def less_eq_char_def)
  ultimately show ?thesis
    using nat_digits_val [of n] unfolding pad_def list_all_iff set_append by (auto dest: in_set_replicate [THEN iffD1])
qed

subsection \<open>Formatted times are ordered like the times\<close>

text \<open>A layout: fields of a given width, each followed by literal text.\<close>

definition layout :: "(nat \<times> int \<times> string) list \<Rightarrow> string" where
  "layout fs = concat (map (\<lambda>(w, x, sep). appendInt x w @ sep) fs)"

definition fits :: "nat \<times> int \<times> string \<Rightarrow> bool" where
  "fits f \<longleftrightarrow> (case f of (w, x, _) \<Rightarrow> 1 \<le> w \<and> 0 \<le> x \<and> x < 10 ^ w)"

lemma appendInt_less: "1 \<le> w \<Longrightarrow> 0 \<le> x \<Longrightarrow> x < y \<Longrightarrow> y < 10 ^ w \<Longrightarrow> appendInt x w < appendInt y w"
  using pad_less [of w "nat x" "nat y"] by (simp add: appendInt_def nat_less_iff)

lemma length_appendInt: "1 \<le> w \<Longrightarrow> 0 \<le> x \<Longrightarrow> x < 10 ^ w \<Longrightarrow> length (appendInt x w) = w"
  using length_pad [of w "nat x"] by (simp add: appendInt_def nat_less_iff)

lemma layout_less:
  assumes "list_all2 (\<lambda>(w, _, sep) (w', _, sep'). w = w' \<and> sep = sep') fs gs"
    and "\<forall>f\<in>set fs. fits f" and "\<forall>f\<in>set gs. fits f"
    and "map (\<lambda>f. fst (snd f)) fs < map (\<lambda>f. fst (snd f)) gs"
  shows "layout fs < layout gs"
  using assms
proof (induction rule: list_all2_induct)
  case (Cons f fs g gs)
  obtain w x sep where f: "f = (w, x, sep)" by (cases f)
  obtain y where g: "g = (w, y, sep)" using Cons.hyps f by (cases g) auto
  have fit: "1 \<le> w" "0 \<le> x" "x < 10 ^ w" "0 \<le> y" "y < 10 ^ w"
    using Cons.prems by (auto simp: f g fits_def)
  have len: "length (appendInt x w) = length (appendInt y w)"
    using fit by (simp add: length_appendInt)
  have split: "layout (f # fs) = appendInt x w @ sep @ layout fs" "layout (g # gs) = appendInt y w @ sep @ layout gs"
    by (simp_all add: layout_def f g)
  have "x < y \<or> x = y \<and> map (\<lambda>f. fst (snd f)) fs < map (\<lambda>f. fst (snd f)) gs"
    using Cons.prems by (simp add: f g)
  then show ?case
  proof
    assume "x < y"
    then have "appendInt x w < appendInt y w" using fit by (simp add: appendInt_less)
    then show ?thesis by (simp only: split less_append_same_length [OF len] simp_thms)
  next
    assume xy: "x = y \<and> map (\<lambda>f. fst (snd f)) fs < map (\<lambda>f. fst (snd f)) gs"
    then have "layout fs < layout gs" using Cons by simp
    with xy show ?thesis by (simp only: split less_append_same_length [OF refl] simp_thms)
  qed
qed simp

text \<open>The fields of a time.\<close>

definition date_fields :: "int \<Rightarrow> int list" where
  "date_fields day = (let (y, yd) = year_day day; (m, d) = month_day (month_lens y) yd in [y, m + 1, d + 1])"

definition clock_fields :: "int \<Rightarrow> int list" where
  "clock_fields ns = [ns div 3600000000000, ns div 60000000000 mod 60, ns div 1000000000 mod 60, ns mod 1000000000]"

definition time_fields :: "time \<Rightarrow> int list" where
  "time_fields t = date_fields (t div 86400000000000) @ clock_fields (t mod 86400000000000)"

definition time_layout :: "int list \<Rightarrow> (nat \<times> int \<times> string) list" where
  "time_layout xs =
     zip [4, 2, 2, 2, 2, 2, 9] (zip xs [''-'', ''-'', ''T'', '':'', '':'', ''.'', ''Z''])"

lemma FormatTime_layout: "FormatTime t = layout (time_layout (time_fields t))"
  by (simp add: FormatTime_def layout_def time_layout_def time_fields_def date_fields_def clock_fields_def
      Let_def split: prod.splits)

lemma date_fields_less: "d < d' \<Longrightarrow> date_fields d < date_fields d'"
proof -
  assume less: "d < d'"
  obtain y yd where y: "year_day d = (y, yd)" by (cases "year_day d")
  obtain z zd where z: "year_day d' = (z, zd)" by (cases "year_day d'")
  obtain m n where m: "month_day (month_lens y) yd = (m, n)" by (cases "month_day (month_lens y) yd")
  obtain m' n' where m': "month_day (month_lens z) zd = (m', n')" by (cases "month_day (month_lens z) zd")
  have "y < z \<or> y = z \<and> (m < m' \<or> m = m' \<and> n < n')"
    using year_day_less [OF less y z] month_day_less [of yd zd "month_lens y" m n m' n'] m m' month_lens_sum(2)
    by auto
  then show ?thesis by (auto simp: date_fields_def y z m m')
qed

lemma clock_div:
  fixes ns :: int
  shows "ns div 60000000000 = ns div 1000000000 div 60" "ns div 3600000000000 = ns div 1000000000 div 60 div 60"
  by (simp_all flip: zdiv_zmult2_eq)

lemma clock_fields_less:
  assumes "ns < ns'"
  shows "clock_fields ns < clock_fields ns'"
proof -
  define s s' m m' where "s = ns div 1000000000" and "s' = ns' div 1000000000" and "m = s div 60" and "m' = s' div 60"
  have "s < s' \<or> s = s' \<and> ns mod 1000000000 < ns' mod 1000000000"
    unfolding s_def s'_def by (rule div_less_cases) (use assms in simp_all)
  moreover have "s < s' \<Longrightarrow> m < m' \<or> m = m' \<and> s mod 60 < s' mod 60"
    unfolding m_def m'_def by (rule div_less_cases) simp_all
  moreover have "m < m' \<Longrightarrow> m div 60 < m' div 60 \<or> m div 60 = m' div 60 \<and> m mod 60 < m' mod 60"
    by (rule div_less_cases) simp_all
  moreover have "s = s' \<Longrightarrow> m = m'" by (simp add: m_def m'_def)
  ultimately have "m div 60 < m' div 60 \<or> m div 60 = m' div 60 \<and> (m mod 60 < m' mod 60 \<or> m mod 60 = m' mod 60 \<and>
      (s mod 60 < s' mod 60 \<or> s mod 60 = s' mod 60 \<and> ns mod 1000000000 < ns' mod 1000000000))"
    by blast
  then show ?thesis
    unfolding clock_fields_def clock_div s_def [symmetric] s'_def [symmetric] m_def [symmetric] m'_def [symmetric]
    by (simp only: Cons_less_Cons not_less_Nil simp_thms)
qed

lemma time_fields_less:
  assumes "t < u"
  shows "time_fields t < time_fields u"
proof -
  have len: "length (date_fields d) = 3" for d by (simp add: date_fields_def split: prod.splits)
  have "t div 86400000000000 < u div 86400000000000 \<or>
      t div 86400000000000 = u div 86400000000000 \<and> t mod 86400000000000 < u mod 86400000000000"
    using assms by (simp add: div_less_cases)
  then have "date_fields (t div 86400000000000) < date_fields (u div 86400000000000) \<or>
      date_fields (t div 86400000000000) = date_fields (u div 86400000000000) \<and>
      clock_fields (t mod 86400000000000) < clock_fields (u mod 86400000000000)"
    using date_fields_less clock_fields_less by metis
  then show ?thesis
    unfolding time_fields_def by (subst less_append_same_length) (simp_all add: len)
qed

lemma date_fields_obtain:
  obtains y m d where "date_fields day = [y, m, d]" and "y = fst (year_day day)"
    and "1 \<le> m" "m \<le> 12" and "1 \<le> d" "d \<le> month_lens y ! nat (m - 1)" "d \<le> 31"
    and "day = days_before_year y + days_before_month (month_lens y) (m - 1) + (d - 1)"
proof -
  obtain y yd where y: "year_day day = (y, yd)" by (cases "year_day day")
  obtain m d where m: "month_day (month_lens y) yd = (m, d)" by (cases "month_day (month_lens y) yd")
  note yd = year_day_correct [OF y]
  have md: "0 \<le> m \<and> m < int (length (month_lens y)) \<and> yd = days_before_month (month_lens y) m + d \<and> 0 \<le> d
      \<and> d < month_lens y ! nat m"
    by (rule month_day_correct [OF m yd(2)]) (use yd(3) month_lens_sum [of y] in simp_all)
  have m12: "m < 12" using md by (simp only: month_lens_sum(3)) simp
  have "month_lens y ! nat m \<le> 31"
    using md month_lens_sum(3,4) [of y] by (metis nth_mem nat_less_iff)
  then have d31: "d + 1 \<le> 31" using md by linarith
  have df: "date_fields day = [y, m + 1, d + 1]" and fy: "y = fst (year_day day)"
    by (simp_all add: date_fields_def y m)
  have "1 \<le> m + 1" "m + 1 \<le> 12" "1 \<le> d + 1" using md m12 by linarith+
  moreover have "d + 1 \<le> month_lens y ! nat (m + 1 - 1)" using md by simp
  moreover have "day = days_before_year y + days_before_month (month_lens y) (m + 1 - 1) + (d + 1 - 1)"
    using md yd(1) by simp
  ultimately show thesis using that [OF df fy] d31 by blast
qed

lemma clock_bounds:
  fixes ns :: int
  assumes "0 \<le> ns" "ns < 86400000000000"
  shows "0 \<le> ns div 3600000000000" "ns div 3600000000000 \<le> 23"
    and "((ns div 3600000000000) * 60 + ns div 60000000000 mod 60) * 60000000000
      + (ns div 1000000000 mod 60) * 1000000000 + ns mod 1000000000 = ns"
proof -
  define s m where "s = ns div 1000000000" and "m = s div 60"
  have m: "(m div 60) * 60 + m mod 60 = m" and ns: "s * 1000000000 + ns mod 1000000000 = ns"
    unfolding s_def by (rule div_mult_mod_eq)+
  have s: "m * 60000000000 + s mod 60 * 1000000000 = s * 1000000000"
  proof -
    have "m * 60000000000 + s mod 60 * 1000000000 = (m * 60 + s mod 60) * 1000000000"
      by (simp add: algebra_simps)
    then show ?thesis unfolding m_def by (simp only: div_mult_mod_eq)
  qed
  show "((ns div 3600000000000) * 60 + ns div 60000000000 mod 60) * 60000000000
      + (ns div 1000000000 mod 60) * 1000000000 + ns mod 1000000000 = ns"
    unfolding clock_div s_def [symmetric] m_def [symmetric] m s ns by (rule refl)
  show "0 \<le> ns div 3600000000000" "ns div 3600000000000 \<le> 23"
    using assms by (simp_all add: pos_imp_zdiv_nonneg_iff)
qed

lemma clock_fields_obtain:
  obtains h mi s n where "clock_fields (t mod 86400000000000) = [h, mi, s, n]"
    and "0 \<le> h" "h \<le> 23" "0 \<le> mi" "mi \<le> 59" "0 \<le> s" "s \<le> 59" "0 \<le> n" "n < 1000000000"
    and "(h * 60 + mi) * 60000000000 + s * 1000000000 + n = t mod 86400000000000"
proof -
  define ns where "ns = t mod 86400000000000"
  have "0 \<le> ns" "ns < 86400000000000" by (simp_all add: ns_def)
  note b = clock_bounds [OF this]
  have sixty: "0 \<le> x mod 60" "x mod 60 \<le> 59" "0 \<le> x mod 1000000000" "x mod 1000000000 < 1000000000" for x :: int
    by simp_all
  show thesis
    by (rule that [unfolded ns_def [symmetric], OF clock_fields_def b(1,2) sixty(1,2) sixty(1,2) sixty(3,4) b(3)])
qed

lemma time_layout_fits:
  assumes "0 \<le> Year t" "Year t \<le> 9999"
  shows "\<forall>f\<in>set (time_layout (time_fields t)). fits f"
proof -
  obtain y m d where df: "date_fields (t div 86400000000000) = [y, m, d]" "y = Year t"
      and "1 \<le> m" "m \<le> 12" "1 \<le> d" "d \<le> 31"
    unfolding Year_def by (rule date_fields_obtain)
  moreover obtain h mi s n where cf: "clock_fields (t mod 86400000000000) = [h, mi, s, n]"
      and "0 \<le> h" "h \<le> 23" "0 \<le> mi" "mi \<le> 59" "0 \<le> s" "s \<le> 59" "0 \<le> n" "n < 1000000000"
    by (rule clock_fields_obtain)
  ultimately show ?thesis
    using assms unfolding time_fields_def df(1) cf by (simp add: time_layout_def fits_def)
qed

lemma length_time_fields: "length (time_fields t) = 7"
  by (simp add: time_fields_def date_fields_def clock_fields_def split: prod.splits)

lemma time_layout_same:
  assumes "length xs = 7" "length ys = 7"
  shows "map (\<lambda>f. fst (snd f)) (time_layout xs) = xs"
    and "list_all2 (\<lambda>(w, _, sep) (w', _, sep'). w = w' \<and> sep = sep') (time_layout xs) (time_layout ys)"
proof -
  have "map (\<lambda>f. fst (snd f)) (time_layout xs) = map fst (map snd (time_layout xs))" by simp
  then show "map (\<lambda>f. fst (snd f)) (time_layout xs) = xs"
    using assms by (simp add: time_layout_def)
  show "list_all2 (\<lambda>(w, _, sep) (w', _, sep'). w = w' \<and> sep = sep') (time_layout xs) (time_layout ys)"
    using assms unfolding time_layout_def list_all2_conv_all_nth by (auto simp: nth_zip)
qed

lemma FormatTime_less:
  assumes "t < u" "\<forall>f\<in>set (time_layout (time_fields t)). fits f" "\<forall>f\<in>set (time_layout (time_fields u)). fits f"
  shows "FormatTime t < FormatTime u"
  unfolding FormatTime_layout
  using time_layout_same(2) assms(2,3)
proof (rule layout_less)
  show "map (\<lambda>f. fst (snd f)) (time_layout (time_fields t)) < map (\<lambda>f. fst (snd f)) (time_layout (time_fields u))"
    unfolding time_layout_same(1) [OF length_time_fields length_time_fields] by (rule time_fields_less [OF assms(1)])
qed (simp_all add: length_time_fields)

subsection \<open>Parsing undoes formatting\<close>

lemma parseUint_appendInt:
  "0 \<le> x \<Longrightarrow> lo \<le> x \<Longrightarrow> x \<le> hi \<Longrightarrow> parseUint (appendInt x w) lo hi = Some x"
  using pad_val [of w "nat x"] by (simp add: parseUint_def appendInt_def)

lemma two_chars: "length s = 2 \<Longrightarrow> \<exists>a b. s = [a, b]"
  by (cases s; cases "tl s") auto

lemma four_chars: "length s = 4 \<Longrightarrow> \<exists>a b c d. s = [a, b, c, d]"
  using two_chars [of "take 2 s"] two_chars [of "drop 2 s"]
  by (metis append_Cons append_Nil append_take_drop_id diff_numeral_Suc length_drop length_take min_absorb2
      numeral_Bit0 add_diff_cancel_left' le_add1)

lemma parse_frac_nanos:
  assumes "0 \<le> n" "n < 1000000000"
  shows "parse_frac (CHR ''.'' # appendInt n 9 @ ''Z'') = (n, ''Z'')"
proof -
  define ds where "ds = appendInt n 9"
  have ds: "length ds = 9" "list_all digit_char ds" "digits_val ds = n"
    using length_appendInt [of 9 n] pad_val [of 9 "nat n"] assms by (simp_all add: ds_def appendInt_def)
  obtain c r where c: "ds = c # r" using ds(1) by (cases ds) auto
  have "takeWhile digit_char (ds @ ''Z'') = ds" "dropWhile digit_char (ds @ ''Z'') = ''Z''"
    using ds(2) by (simp_all add: list_all_iff takeWhile_append2 dropWhile_append2 digit_char_def less_eq_char_def)
  with ds c show ?thesis
    unfolding ds_def [symmetric] by (simp add: parse_frac_def parseNanoseconds_def)
qed

lemma parseRFC3339_assemble:
  assumes "length Y = 4" "length M = 2" "length D = 2" "length H = 2" "length I = 2" "length S = 2"
    and "parseUint Y 0 9999 = Some y" "parseUint M 1 12 = Some mo"
    and "parseUint D 1 (month_lens y ! nat (mo - 1)) = Some d" "parseUint H 0 23 = Some h"
    and "parseUint I 0 59 = Some mi" "parseUint S 0 59 = Some sec"
    and "parse_frac rest = (ns, ''Z'')"
  shows "parseRFC3339 (Y @ ''-'' @ M @ ''-'' @ D @ ''T'' @ H @ '':'' @ I @ '':'' @ S @ rest) = Some (Date y mo d h mi sec ns)"
proof -
  obtain a b c e where Y: "Y = [a, b, c, e]" using four_chars [OF assms(1)] by blast
  obtain m1 m2 d1 d2 h1 h2 i1 i2 s1 s2 where MD: "M = [m1, m2]" "D = [d1, d2]" "H = [h1, h2]" "I = [i1, i2]" "S = [s1, s2]"
    using assms(2-6) [THEN two_chars] by blast
  show ?thesis
    using assms(7-) unfolding Y MD parseRFC3339_def by (simp add: parse_zone_def)
qed

lemma parse_format:
  assumes "0 \<le> Year t" "Year t \<le> 9999"
  shows "parseRFC3339 (FormatTime t) = Some t"
proof -
  obtain y m d where df: "date_fields (t div 86400000000000) = [y, m, d]" "y = Year t"
      and md: "1 \<le> m" "m \<le> 12" "1 \<le> d" "d \<le> month_lens y ! nat (m - 1)" "d \<le> 31"
      and day: "t div 86400000000000 = days_before_year y + days_before_month (month_lens y) (m - 1) + (d - 1)"
    unfolding Year_def by (rule date_fields_obtain)
  obtain h mi s n where cf: "clock_fields (t mod 86400000000000) = [h, mi, s, n]"
      and c: "0 \<le> h" "h \<le> 23" "0 \<le> mi" "mi \<le> 59" "0 \<le> s" "s \<le> 59" "0 \<le> n" "n < 1000000000"
      and ns: "(h * 60 + mi) * 60000000000 + s * 1000000000 + n = t mod 86400000000000"
    by (rule clock_fields_obtain)
  have "FormatTime t = appendInt y 4 @ ''-'' @ appendInt m 2 @ ''-'' @ appendInt d 2 @ ''T'' @ appendInt h 2 @ '':''
      @ appendInt mi 2 @ '':'' @ appendInt s 2 @ (CHR ''.'' # appendInt n 9 @ ''Z'')"
    unfolding FormatTime_layout time_fields_def df(1) cf by (simp add: layout_def time_layout_def)
  moreover have "Date y m d h mi s n = t"
  proof -
    have "Date y m d h mi s n = (t div 86400000000000) * 86400000000000 + ((h * 60 + mi) * 60000000000 + s * 1000000000 + n)"
      unfolding Date_def day by (simp add: algebra_simps)
    then show ?thesis unfolding ns by (simp only: div_mult_mod_eq)
  qed
  ultimately show ?thesis
    using parseRFC3339_assemble [of "appendInt y 4" "appendInt m 2" "appendInt d 2" "appendInt h 2" "appendInt mi 2"
        "appendInt s 2" y m d h mi s "CHR ''.'' # appendInt n 9 @ ''Z''" n]
      parse_frac_nanos [of n] c md assms df(2)
    by (simp add: parseUint_appendInt length_appendInt)
qed

text \<open>
  C37. For times whose year is between 0 and 9999, the stored string form orders exactly as
  the times do, so a backend that compares the strings orders sub-second timestamps right.
\<close>

theorem format_time_order:
  assumes "0 \<le> Year t" "Year t \<le> 9999" "0 \<le> Year u" "Year u \<le> 9999"
  shows "FormatTime t < FormatTime u \<longleftrightarrow> t < u"
proof -
  consider "t < u" | "t = u" | "u < t" by linarith
  then show ?thesis
  proof cases
    case 1
    with FormatTime_less [OF 1] time_layout_fits assms show ?thesis by blast
  next
    case 3
    then have "FormatTime u < FormatTime t" using FormatTime_less [OF 3] time_layout_fits assms by blast
    with 3 show ?thesis by (meson less_asym)
  qed simp
qed

theorem format_time_order_witness:
  "FormatTime 62135596800000000001 < FormatTime 62135596800500000000"
proof -
  have "Year 62135596800000000001 = 1970" and "Year 62135596800500000000 = 1970" by code_simp+
  then show ?thesis
    using format_time_order [of 62135596800000000001 62135596800500000000] by simp
qed

end
