(* ===== verification/Graph_Model.thy ===== *)
theory Graph_Model
  imports Subjects Go_Time "HOL-Library.AList"
begin

text \<open>
  \<^verbatim>\<open>pkg/graphdb\<close>: the data of the graph store (\<^verbatim>\<open>types.go\<close>, \<^verbatim>\<open>edges.go\<close>), its errors
  (\<^verbatim>\<open>errors.go\<close>), the checks every driver applies before it writes or queries
  (\<^verbatim>\<open>identifier.go\<close>) and the derived identifiers of nodes and edges (\<^verbatim>\<open>edges.go\<close>).

  A property map is an association list read with \<open>map_of\<close>. A dynamic value keeps the
  type the code dispatches on: a \<^verbatim>\<open>float32\<close> is represented by its shortest decimal,
  which identifies it, and a value of a type the code does not name by its \<^verbatim>\<open>%v\<close> text,
  the only thing the code observes of it.

  The theory shows that derived identifiers determine their parts, and what passing the
  checks means for labels and property keys.
\<close>

named_theorems graph_simps

subsection \<open>Data\<close>

datatype any_val =
    VString string
  | VBool bool
  | VFloat f64
  | VFloat32 f64
  | VInt int
  | VInt64 int
  | VList "string list"
  | VOther string
  | VNil

type_synonym props = "(string \<times> any_val) list"

record Node =
  n_ID :: string
  n_Label :: string
  n_Properties :: props
  n_ValidFrom :: time
  n_ValidTo :: "time option"
  n_CreatedBy :: string
  n_CreationMethod :: string

record Edge =
  e_ID :: string
  e_Label :: string
  e_Properties :: props
  e_ValidFrom :: time
  e_ValidTo :: "time option"
  e_DeterminedBy :: string
  e_DeterminationType :: string
  e_Confidence :: f64
  e_Supersedes :: string

record Relationship =
  r_Source :: Node
  r_Edge :: Edge
  r_Target :: Node

record RelationshipQuery =
  q_SourceLabel :: string
  q_TargetLabel :: string
  q_EdgeLabel :: string
  q_Properties :: props

record TraversalQuery =
  t_StartNode :: string
  t_Direction :: string
  t_EdgeLabels :: "string list"
  t_MaxDepth :: int
  t_AsOf :: "time option"

record Path =
  p_Nodes :: "Node list"
  p_Edges :: "Edge list"

record EdgeWithEndpoints =
  we_Edge :: Edge
  we_SourceID :: string
  we_TargetID :: string

record BulkEdge =
  be_SourceID :: string
  be_TargetID :: string
  be_Edge :: Edge

record SupersedeRequest =
  s_NodeID :: string
  s_EdgeID :: string
  s_SupersededAt :: time
  s_SupersededByJobID :: string

record RequiresEdge =
  req_SourceID :: string
  req_TargetID :: string
  req_Confidence :: f64
  req_Unanimous :: bool
  req_ValidVotes :: int
  req_TotalVotes :: int
  req_VoteWeight :: f64
  req_Models :: "string list"
  req_SamplesPerModel :: int
  req_PromptVersion :: string
  req_AnalyzedAt :: time
  req_TenantID :: string
  req_JobID :: string

text \<open>The validity window of one fact, and \<^verbatim>\<open>Path.ValidAt\<close>.\<close>

definition in_window :: "time \<Rightarrow> time option \<Rightarrow> time \<Rightarrow> bool" where
  "in_window from to t \<longleftrightarrow> \<not> (from > t \<or> (case to of None \<Rightarrow> False | Some u \<Rightarrow> \<not> u > t))"

definition ValidAt :: "Path \<Rightarrow> time \<Rightarrow> bool" where
  "ValidAt p t \<longleftrightarrow>
     list_all (\<lambda>n. in_window (n_ValidFrom n) (n_ValidTo n) t) (p_Nodes p) \<and>
     list_all (\<lambda>e. in_window (e_ValidFrom e) (e_ValidTo e) t) (p_Edges p)"

subsection \<open>Errors\<close>

text \<open>
  The sentinel and structured errors; \<open>Wrapped\<close> is \<^verbatim>\<open>fmt.Errorf("...: %w", err)\<close> with the
  text in front, \<open>FieldRequired\<close> the plain \<^verbatim>\<open>errors.New\<close> of a missing or contradictory field.
\<close>

datatype graph_error =
    InvalidIdentifier string string
  | ReservedLabel string string
  | LabelTooLong string string nat
  | ReservedPropertyError string string
  | FieldRequired string
  | ErrTenantRequired
  | InvalidTenantError tenant_error
  | ErrGraphNotFound string
  | LabelKindConflictError string string string
  | NodeIDConflictError string string string
  | ErrNodeExists string string
  | ErrNodeNotFound string
  | ErrEdgeExists string
  | ErrEdgeNotFound string
  | ErrNotSupported
  | BulkEdgeError nat graph_error
  | Wrapped string graph_error

subsection \<open>Checks\<close>

definition ident_start :: "char \<Rightarrow> bool" where
  "ident_start c \<longleftrightarrow> (CHR ''A'' \<le> c \<and> c \<le> CHR ''Z'') \<or> (CHR ''a'' \<le> c \<and> c \<le> CHR ''z'') \<or> c = CHR ''_''"

definition identifierPattern :: "string \<Rightarrow> bool" where
  "identifierPattern s \<longleftrightarrow>
     (case s of [] \<Rightarrow> False | c # cs \<Rightarrow> ident_start c \<and> list_all (\<lambda>d. ident_start d \<or> digit_char d) cs)"

definition CheckIdentifier :: "string \<Rightarrow> string \<Rightarrow> graph_error option" where
  "CheckIdentifier kind s = (if identifierPattern s then None else Some (InvalidIdentifier kind s))"

definition MaxLabelBytes :: nat where
  "MaxLabelBytes = 63"

definition reservedLabelPrefix :: string where
  "reservedLabelPrefix = ''_ag_''"

definition CheckLabel :: "string \<Rightarrow> string \<Rightarrow> graph_error option" where
  "CheckLabel kind s =
     (case CheckIdentifier kind s of Some err \<Rightarrow> Some err | None \<Rightarrow>
      if has_prefix s reservedLabelPrefix then Some (ReservedLabel kind s)
      else if length s > MaxLabelBytes then Some (LabelTooLong kind s (length s))
      else None)"

text \<open>The first error in a list of checks, the shape of the loops below.\<close>

fun first_error :: "('a \<Rightarrow> graph_error option) \<Rightarrow> 'a list \<Rightarrow> graph_error option" where
  "first_error chk [] = None"
| "first_error chk (x # xs) = (case chk x of Some err \<Rightarrow> Some err | None \<Rightarrow> first_error chk xs)"

definition CheckPropertyKeys :: "props \<Rightarrow> graph_error option" where
  "CheckPropertyKeys ps = first_error (CheckIdentifier ''property key'') (sort (map fst ps))"

definition CheckRelationshipQuery :: "RelationshipQuery \<Rightarrow> graph_error option" where
  "CheckRelationshipQuery q =
     (case first_error (\<lambda>(kind, l). if l = [] then None else CheckLabel kind l)
            [(''source label'', q_SourceLabel q), (''target label'', q_TargetLabel q), (''edge label'', q_EdgeLabel q)] of
        Some err \<Rightarrow> Some err
      | None \<Rightarrow> CheckPropertyKeys (q_Properties q))"

definition supersedeField :: string where
  "supersedeField = ''SupersedeRequest.SupersededByJobID (via SupersedeFact)''"

definition reservedNodeKeys :: "(string \<times> string) list" where
  "reservedNodeKeys =
     [(''id'', ''Node.ID''), (''valid_from'', ''Node.ValidFrom''), (''valid_to'', ''Node.ValidTo''),
      (''created_by'', ''Node.CreatedBy''), (''creation_method'', ''Node.CreationMethod''),
      (''superseded_by'', supersedeField)]"

definition reservedEdgeKeys :: "(string \<times> string) list" where
  "reservedEdgeKeys =
     [(''id'', ''Edge.ID''), (''valid_from'', ''Edge.ValidFrom''), (''valid_to'', ''Edge.ValidTo''),
      (''determined_by'', ''Edge.DeterminedBy''), (''determination_type'', ''Edge.DeterminationType''),
      (''confidence'', ''Edge.Confidence''), (''supersedes'', ''Edge.Supersedes''),
      (''superseded_by'', supersedeField)]"

definition checkWrittenProperties :: "props \<Rightarrow> (string \<times> string) list \<Rightarrow> graph_error option" where
  "checkWrittenProperties ps reserved =
     (case CheckPropertyKeys ps of Some err \<Rightarrow> Some err | None \<Rightarrow>
      first_error (\<lambda>k. map_option (ReservedPropertyError k) (map_of reserved k)) (sort (map fst ps)))"

definition CheckNodeProperties :: "props \<Rightarrow> graph_error option" where
  "CheckNodeProperties ps = checkWrittenProperties ps reservedNodeKeys"

definition CheckEdgeProperties :: "props \<Rightarrow> graph_error option" where
  "CheckEdgeProperties ps = checkWrittenProperties ps reservedEdgeKeys"

definition CheckNode :: "Node \<Rightarrow> graph_error option" where
  "CheckNode n =
     (if n_ID n = [] then Some (FieldRequired ''id is required'')
      else if n_Label n = [] then Some (FieldRequired ''label is required'')
      else case CheckLabel ''label'' (n_Label n) of Some err \<Rightarrow> Some err | None \<Rightarrow>
        case CheckNodeProperties (n_Properties n) of Some err \<Rightarrow> Some err | None \<Rightarrow>
          if IsZero (n_ValidFrom n) then Some (FieldRequired ''valid_from is required'') else None)"

definition CheckEdge :: "string \<Rightarrow> string \<Rightarrow> Edge \<Rightarrow> graph_error option" where
  "CheckEdge sourceID targetID e =
     (if e_Label e = [] then Some (FieldRequired ''label is required'')
      else case CheckLabel ''label'' (e_Label e) of Some err \<Rightarrow> Some err | None \<Rightarrow>
        case CheckEdgeProperties (e_Properties e) of Some err \<Rightarrow> Some err | None \<Rightarrow>
          if sourceID = [] \<or> targetID = [] then Some (FieldRequired ''source and target are required'')
          else if IsZero (e_ValidFrom e) then Some (FieldRequired ''valid_from is required'') else None)"

definition CheckSupersedeRequest :: "SupersedeRequest \<Rightarrow> graph_error option" where
  "CheckSupersedeRequest req =
     (if s_NodeID req = [] \<and> s_EdgeID req = [] then Some (FieldRequired ''node_id or edge_id is required'')
      else if s_NodeID req \<noteq> [] \<and> s_EdgeID req \<noteq> [] then Some (FieldRequired ''set node_id or edge_id, not both'')
      else if IsZero (s_SupersededAt req) then Some (FieldRequired ''superseded_at is required'') else None)"

definition CheckRequiresEdge :: "RequiresEdge \<Rightarrow> graph_error option" where
  "CheckRequiresEdge e =
     (if req_SourceID e = [] then Some (FieldRequired ''source_id is required'')
      else if req_TargetID e = [] then Some (FieldRequired ''target_id is required'')
      else if IsZero (req_AnalyzedAt e) then Some (FieldRequired ''analyzed_at is required'') else None)"

definition CheckTenant :: "string \<Rightarrow> graph_error option" where
  "CheckTenant i =
     (if i = [] then Some ErrTenantRequired else map_option InvalidTenantError (ValidateTenantID i))"

subsection \<open>Derived identifiers\<close>

text \<open>\<^verbatim>\<open>derivedIDEscaper.Replace\<close>: both replacements happen in one pass over the bytes.\<close>

definition derivedIDEscaper :: "string \<Rightarrow> string" where
  "derivedIDEscaper s =
     concat (map (\<lambda>c. if c = CHR ''%'' then ''%25'' else if c = CHR ''_'' then ''%5F'' else [c]) s)"

definition DerivedID :: "string list \<Rightarrow> string" where
  "DerivedID parts = join_with ''_'' (map derivedIDEscaper parts)"

definition EdgeID :: "RequiresEdge \<Rightarrow> string" where
  "EdgeID r = DerivedID [''requires'', req_JobID r, req_SourceID r, req_TargetID r]"

lemma escaper_Cons:
  "derivedIDEscaper (c # s) =
     (if c = CHR ''%'' then ''%25'' else if c = CHR ''_'' then ''%5F'' else [c]) @ derivedIDEscaper s"
  by (simp add: derivedIDEscaper_def)

lemma escaper_Nil [simp]: "derivedIDEscaper [] = []"
  by (simp add: derivedIDEscaper_def)

lemma escaper_no_separator: "CHR ''_'' \<notin> set (derivedIDEscaper s)"
  by (induction s) (simp_all add: escaper_Cons)

lemma escaper_inj: "derivedIDEscaper s = derivedIDEscaper t \<Longrightarrow> s = t"
proof (induction s arbitrary: t)
  case Nil
  then show ?case by (cases t) (simp_all add: escaper_Cons split: if_splits)
next
  case (Cons c s)
  then show ?case by (cases t) (simp_all add: escaper_Cons split: if_splits)
qed

lemma DerivedID_inj:
  assumes "ps \<noteq> []" "qs \<noteq> []" "DerivedID ps = DerivedID qs"
  shows "ps = qs"
proof -
  have split: "split_on (CHR ''_'') (DerivedID rs) = map derivedIDEscaper rs" if "rs \<noteq> []" for rs
    unfolding DerivedID_def by (rule split_on_join_with) (use that escaper_no_separator in auto)
  have "map derivedIDEscaper ps = map derivedIDEscaper qs"
    using split [OF assms(1)] split [OF assms(2)] assms(3) by simp
  then show ?thesis by (rule map_injective) (simp add: inj_on_def escaper_inj)
qed

text \<open>
  C36. Distinct non-empty part lists have distinct derived identifiers, whatever bytes the
  parts hold; so the identifiers of two REQUIRES edges agree exactly when job, source and
  target do, and a derived identifier is never empty.
\<close>

theorem derived_id_injective:
  "(ps \<noteq> [] \<longrightarrow> qs \<noteq> [] \<longrightarrow> (DerivedID ps = DerivedID qs) = (ps = qs))
   \<and> (EdgeID r = EdgeID r') =
       (req_JobID r = req_JobID r' \<and> req_SourceID r = req_SourceID r' \<and> req_TargetID r = req_TargetID r')
   \<and> EdgeID r \<noteq> []"
proof (intro conjI impI)
  show "(DerivedID ps = DerivedID qs) = (ps = qs)" if "ps \<noteq> []" "qs \<noteq> []"
    using DerivedID_inj that by blast
  show "(EdgeID r = EdgeID r') =
      (req_JobID r = req_JobID r' \<and> req_SourceID r = req_SourceID r' \<and> req_TargetID r = req_TargetID r')"
    unfolding EdgeID_def by (auto dest: DerivedID_inj [rotated 2])
  show "EdgeID r \<noteq> []"
    by (simp add: EdgeID_def DerivedID_def escaper_Cons)
qed

theorem derived_id_injective_witness:
  "DerivedID [''a_b'', ''c''] \<noteq> DerivedID [''a'', ''b_c''] \<and> DerivedID [''%5F''] \<noteq> DerivedID [''_'']"
  using derived_id_injective [of "[''a_b'', ''c'']" "[''a'', ''b_c'']"] derived_id_injective [of "[''%5F'']" "[''_'']"]
  by simp

subsection \<open>What the checks guarantee\<close>

lemma first_error_None [simp]: "first_error chk xs = None \<longleftrightarrow> (\<forall>x\<in>set xs. chk x = None)"
  by (induction xs) (auto split: option.splits)

lemma CheckIdentifier_None [simp]: "CheckIdentifier kind s = None \<longleftrightarrow> identifierPattern s"
  by (simp add: CheckIdentifier_def)

definition safe_label :: "string \<Rightarrow> bool" where
  "safe_label s \<longleftrightarrow> identifierPattern s \<and> \<not> has_prefix s reservedLabelPrefix \<and> length s \<le> MaxLabelBytes"

lemma CheckLabel_None: "CheckLabel kind s = None \<longleftrightarrow> safe_label s"
  by (auto simp: CheckLabel_def CheckIdentifier_def safe_label_def)

lemma CheckPropertyKeys_None: "CheckPropertyKeys ps = None \<longleftrightarrow> (\<forall>k\<in>fst ` set ps. identifierPattern k)"
  by (simp add: CheckPropertyKeys_def)

lemma checkWrittenProperties_None:
  "checkWrittenProperties ps reserved = None \<longleftrightarrow>
     (\<forall>k\<in>fst ` set ps. identifierPattern k \<and> k \<notin> fst ` set reserved)"
proof (cases "CheckPropertyKeys ps")
  case None
  then have "\<forall>k\<in>fst ` set ps. identifierPattern k" by (rule CheckPropertyKeys_None [THEN iffD1])
  with None show ?thesis by (simp add: checkWrittenProperties_def map_of_eq_None_iff)
next
  case (Some err)
  then have "\<not> (\<forall>k\<in>fst ` set ps. identifierPattern k)"
    using CheckPropertyKeys_None [of ps] by simp
  with Some show ?thesis by (auto simp: checkWrittenProperties_def)
qed

lemma CheckNode_None:
  "CheckNode n = None \<longleftrightarrow> n_ID n \<noteq> [] \<and> safe_label (n_Label n) \<and> n_ValidFrom n \<noteq> 0 \<and>
     (\<forall>k\<in>fst ` set (n_Properties n). identifierPattern k \<and> k \<notin> fst ` set reservedNodeKeys)"
proof -
  have "n_Label n \<noteq> []" if "safe_label (n_Label n)"
    using that by (auto simp: safe_label_def identifierPattern_def)
  then show ?thesis
    unfolding CheckNode_def CheckNodeProperties_def IsZero_def checkWrittenProperties_None [symmetric]
      CheckLabel_None [of "''label''", symmetric]
    by (auto split: option.splits)
qed

lemma CheckEdge_None:
  "CheckEdge src tgt e = None \<longleftrightarrow> safe_label (e_Label e) \<and> src \<noteq> [] \<and> tgt \<noteq> [] \<and> e_ValidFrom e \<noteq> 0 \<and>
     (\<forall>k\<in>fst ` set (e_Properties e). identifierPattern k \<and> k \<notin> fst ` set reservedEdgeKeys)"
proof -
  have "e_Label e \<noteq> []" if "safe_label (e_Label e)"
    using that by (auto simp: safe_label_def identifierPattern_def)
  then show ?thesis
    unfolding CheckEdge_def CheckEdgeProperties_def IsZero_def checkWrittenProperties_None [symmetric]
      CheckLabel_None [of "''label''", symmetric]
    by (auto split: option.splits)
qed

end
