(* ===== verification/Mem_Graph.thy ===== *)
theory Mem_Graph
  imports Graph_Model
begin

text \<open>
  The in-memory driver of the graph store, \<^verbatim>\<open>pkg/graphdb/memdriver\<close>: one graph per
  tenant, every method of the interface as an operation on the driver's state.

  A pointer to a node is its position in the list of nodes, which only grows; a pointer
  to an edge is its position in the list of edges. The mutex of the driver makes each
  method one atomic step, so a history is a sequence of the operations \<open>graph_op\<close>.

  The theory shows the invariant of the stored graphs (unique identifiers, endpoints that
  exist, one kind per label, safe labels and property keys), that tenants cannot
  influence each other, that a refused write stores nothing and a batch equals its edges
  written one by one, that a created node reads back, what superseding does to queries,
  and that a traversal ends and returns exactly the trails of the graph.
\<close>

subsection \<open>State\<close>

record memNode =
  mn_label :: string
  mn_props :: props

record memEdge =
  me_label :: string
  me_props :: props
  me_source :: nat
  me_target :: nat
  me_seq :: int

record memGraph =
  g_nodes :: "memNode list"
  g_edges :: "memEdge list"
  g_lastSeq :: int
  g_labelKinds :: "string \<Rightarrow> string option"

type_synonym memClient = "string \<Rightarrow> memGraph option"

definition New :: memClient where
  "New = Map.empty"

subsection \<open>Stored properties\<close>

fun normalizeValue :: "any_val \<Rightarrow> any_val" where
  "normalizeValue (VString s) = VString s"
| "normalizeValue (VBool b) = VBool b"
| "normalizeValue (VFloat f) = VFloat f"
| "normalizeValue (VFloat32 f) = VFloat f"
| "normalizeValue (VInt i) = VFloat (Fin (of_int i))"
| "normalizeValue (VInt64 i) = VFloat (Fin (of_int i))"
| "normalizeValue (VList xs) = VString (CHR ''['' # join_with '' '' xs @ '']'')"
| "normalizeValue (VOther s) = VString s"
| "normalizeValue VNil = VString ''<nil>''"

text \<open>The loop that writes the caller's properties over the driver's own.\<close>

definition write_props :: "props \<Rightarrow> props \<Rightarrow> props" where
  "write_props ps base = fold (\<lambda>(k, v) acc. AList.update k (normalizeValue v) acc) ps base"

text \<open>A key that is only written when its field is set.\<close>

definition put_if :: "bool \<Rightarrow> string \<Rightarrow> any_val \<Rightarrow> props \<Rightarrow> props" where
  "put_if c k v ps = (if c then AList.update k v ps else ps)"

definition put_time :: "time option \<Rightarrow> props \<Rightarrow> props" where
  "put_time to ps = (case to of None \<Rightarrow> ps | Some t \<Rightarrow> AList.update ''valid_to'' (VString (FormatTime t)) ps)"

definition nodeProps :: "Node \<Rightarrow> props" where
  "nodeProps n =
     (let ps = [(''id'', VString (n_ID n)), (''valid_from'', VString (FormatTime (n_ValidFrom n)))];
          ps = put_time (n_ValidTo n) ps;
          ps = put_if (n_CreatedBy n \<noteq> []) ''created_by'' (VString (n_CreatedBy n)) ps;
          ps = put_if (n_CreationMethod n \<noteq> []) ''creation_method'' (VString (n_CreationMethod n)) ps
      in write_props (n_Properties n) ps)"

definition edgeProps :: "Edge \<Rightarrow> props" where
  "edgeProps e =
     (let ps = [(''id'', VString (e_ID e)), (''valid_from'', VString (FormatTime (e_ValidFrom e)))];
          ps = put_time (e_ValidTo e) ps;
          ps = put_if (e_DeterminedBy e \<noteq> []) ''determined_by'' (VString (e_DeterminedBy e)) ps;
          ps = put_if (e_DeterminationType e \<noteq> []) ''determination_type'' (VString (e_DeterminationType e)) ps;
          ps = put_if (\<not> f64_eq (e_Confidence e) (Fin 0)) ''confidence'' (VFloat (e_Confidence e)) ps;
          ps = put_if (e_Supersedes e \<noteq> []) ''supersedes'' (VString (e_Supersedes e)) ps
      in write_props (e_Properties e) ps)"

definition requiresProps :: "RequiresEdge \<Rightarrow> props" where
  "requiresProps r =
     (let ps = [(''id'', VString (EdgeID r)),
                (''valid_from'', VString (FormatTime (req_AnalyzedAt r))),
                (''confidence'', VFloat (req_Confidence r)),
                (''unanimous'', VBool (req_Unanimous r)),
                (''valid_votes'', VFloat (Fin (of_int (req_ValidVotes r)))),
                (''total_votes'', VFloat (Fin (of_int (req_TotalVotes r)))),
                (''vote_weight'', VFloat (req_VoteWeight r)),
                (''samples_per_model'', VFloat (Fin (of_int (req_SamplesPerModel r)))),
                (''analyzed_at'', VString (FormatTime (req_AnalyzedAt r))),
                (''job_id'', VString (req_JobID r))];
          ps = put_if (length (req_Models r) > 0) ''models'' (VList (req_Models r)) ps
      in put_if (req_PromptVersion r \<noteq> []) ''prompt_version'' (VString (req_PromptVersion r)) ps)"

text \<open>\<^verbatim>\<open>copyProps\<close> yields an equal map; values have no identity here, so it is the identity.\<close>

definition copyProps :: "props \<Rightarrow> props" where
  "copyProps src = src"

definition stringProp :: "props \<Rightarrow> string \<Rightarrow> string" where
  "stringProp ps k = (case map_of ps k of Some (VString s) \<Rightarrow> s | _ \<Rightarrow> [])"

definition floatProp :: "props \<Rightarrow> string \<Rightarrow> f64" where
  "floatProp ps k = (case map_of ps k of Some (VFloat f) \<Rightarrow> f | _ \<Rightarrow> Fin 0)"

definition timeProp :: "props \<Rightarrow> string \<Rightarrow> time" where
  "timeProp ps k = (case parseRFC3339 (stringProp ps k) of None \<Rightarrow> 0 | Some t \<Rightarrow> t)"

definition timePtrProp :: "props \<Rightarrow> string \<Rightarrow> time option" where
  "timePtrProp ps k = (if stringProp ps k = [] then None else parseRFC3339 (stringProp ps k))"

subsection \<open>Helpers of the driver\<close>

definition graph_of :: "memClient \<Rightarrow> string \<Rightarrow> graph_error + memGraph" where
  "graph_of c tenant =
     (case CheckTenant tenant of Some err \<Rightarrow> Inl err | None \<Rightarrow>
      (case c tenant of None \<Rightarrow> Inl (ErrGraphNotFound tenant) | Some g \<Rightarrow> Inr g))"

definition useLabel :: "memGraph \<Rightarrow> string \<Rightarrow> string \<Rightarrow> memGraph \<times> graph_error option" where
  "useLabel g label kind =
     (case g_labelKinds g label of
        None \<Rightarrow> (g\<lparr>g_labelKinds := (g_labelKinds g)(label := Some kind)\<rparr>, None)
      | Some stored \<Rightarrow> if stored \<noteq> kind then (g, Some (LabelKindConflictError label kind stored)) else (g, None))"

fun find_index :: "('a \<Rightarrow> bool) \<Rightarrow> 'a list \<Rightarrow> nat option" where
  "find_index P [] = None"
| "find_index P (x # xs) = (if P x then Some 0 else map_option Suc (find_index P xs))"

definition nodeByID :: "memGraph \<Rightarrow> string \<Rightarrow> nat option" where
  "nodeByID g i = find_index (\<lambda>n. stringProp (mn_props n) ''id'' = i) (g_nodes g)"

definition resolveNode :: "memGraph \<Rightarrow> string \<Rightarrow> graph_error + nat" where
  "resolveNode g i = (case nodeByID g i of Some n \<Rightarrow> Inr n | None \<Rightarrow> Inl (ErrNodeNotFound i))"

definition addEdge :: "memGraph \<Rightarrow> string \<Rightarrow> string \<Rightarrow> string \<Rightarrow> props \<Rightarrow> graph_error + memGraph" where
  "addEdge g sourceID targetID label ps =
     (case resolveNode g sourceID of Inl err \<Rightarrow> Inl (Wrapped ''source'' err) | Inr src \<Rightarrow>
      case resolveNode g targetID of Inl err \<Rightarrow> Inl (Wrapped ''target'' err) | Inr tgt \<Rightarrow>
        let i = stringProp ps ''id'' in
        if i \<noteq> [] \<and> list_ex (\<lambda>e. stringProp (me_props e) ''id'' = i) (g_edges g) then Inl (ErrEdgeExists i)
        else Inr (g\<lparr>g_lastSeq := g_lastSeq g + 1,
                    g_edges := g_edges g @ [\<lparr>me_label = label, me_props = ps, me_source = src,
                                            me_target = tgt, me_seq = g_lastSeq g + 1\<rparr>]\<rparr>))"

definition decodeNode :: "memNode \<Rightarrow> Node" where
  "decodeNode n =
     (let ps = copyProps (mn_props n) in
      \<lparr>n_ID = stringProp ps ''id'', n_Label = mn_label n, n_Properties = ps,
       n_ValidFrom = timeProp ps ''valid_from'', n_ValidTo = timePtrProp ps ''valid_to'',
       n_CreatedBy = stringProp ps ''created_by'', n_CreationMethod = stringProp ps ''creation_method''\<rparr>)"

definition decodeEdge :: "memEdge \<Rightarrow> Edge" where
  "decodeEdge e =
     (let ps = copyProps (me_props e);
          edge = \<lparr>e_ID = stringProp ps ''id'', e_Label = me_label e, e_Properties = ps,
                  e_ValidFrom = timeProp ps ''valid_from'', e_ValidTo = timePtrProp ps ''valid_to'',
                  e_DeterminedBy = stringProp ps ''determined_by'',
                  e_DeterminationType = stringProp ps ''determination_type'',
                  e_Confidence = floatProp ps ''confidence'', e_Supersedes = stringProp ps ''supersedes''\<rparr>
      in if e_ID edge = [] then edge\<lparr>e_ID := itoa (me_seq e)\<rparr> else edge)"

subsection \<open>Writes\<close>

definition CreateGraph :: "memClient \<Rightarrow> string \<Rightarrow> memClient \<times> graph_error option" where
  "CreateGraph c tenant =
     (case CheckTenant tenant of Some err \<Rightarrow> (c, Some err) | None \<Rightarrow>
      (case c tenant of
         None \<Rightarrow> (c(tenant := Some \<lparr>g_nodes = [], g_edges = [], g_lastSeq = 0, g_labelKinds = Map.empty\<rparr>), None)
       | Some _ \<Rightarrow> (c, None)))"

definition CreateNode :: "memClient \<Rightarrow> string \<Rightarrow> Node \<Rightarrow> memClient \<times> graph_error option" where
  "CreateNode c tenant node =
     (case CheckNode node of Some err \<Rightarrow> (c, Some (Wrapped ''create node'' err)) | None \<Rightarrow>
      case graph_of c tenant of Inl err \<Rightarrow> (c, Some err) | Inr g0 \<Rightarrow>
      case useLabel g0 (n_Label node) ''node'' of
        (g, Some err) \<Rightarrow> (c(tenant := Some g), Some (Wrapped ''create node'' err))
      | (g, None) \<Rightarrow>
        (case nodeByID g (n_ID node) of
           Some i \<Rightarrow>
             let existing = g_nodes g ! i in
             (c(tenant := Some g),
              Some (if mn_label existing \<noteq> n_Label node
                    then Wrapped ''create node'' (NodeIDConflictError (n_ID node) (n_Label node) (mn_label existing))
                    else Wrapped ''create node'' (ErrNodeExists (n_Label node) (n_ID node))))
         | None \<Rightarrow>
             (c(tenant := Some (g\<lparr>g_nodes := g_nodes g @ [\<lparr>mn_label = n_Label node, mn_props = nodeProps node\<rparr>]\<rparr>)),
              None)))"

text \<open>The keys an upsert keeps of the stored node.\<close>

definition keep_key :: "props \<Rightarrow> string \<Rightarrow> props \<Rightarrow> props" where
  "keep_key old k ps = (case map_of old k of Some v \<Rightarrow> AList.update k v ps | None \<Rightarrow> ps)"

definition upsert_props :: "Node \<Rightarrow> props \<Rightarrow> props" where
  "upsert_props node old =
     (let ps = nodeProps node;
          ps = AList.update ''valid_from'' (case map_of old ''valid_from'' of Some v \<Rightarrow> v | None \<Rightarrow> VNil) ps
      in if n_ValidTo node = None then keep_key old ''superseded_by'' (keep_key old ''valid_to'' ps) else ps)"

definition UpsertNode :: "memClient \<Rightarrow> string \<Rightarrow> Node \<Rightarrow> memClient \<times> (graph_error + bool)" where
  "UpsertNode c tenant node =
     (case CheckNode node of Some err \<Rightarrow> (c, Inl (Wrapped ''upsert node'' err)) | None \<Rightarrow>
      case graph_of c tenant of Inl err \<Rightarrow> (c, Inl err) | Inr g0 \<Rightarrow>
      case useLabel g0 (n_Label node) ''node'' of
        (g, Some err) \<Rightarrow> (c(tenant := Some g), Inl (Wrapped ''upsert node'' err))
      | (g, None) \<Rightarrow>
        (case nodeByID g (n_ID node) of
           None \<Rightarrow>
             (c(tenant := Some (g\<lparr>g_nodes := g_nodes g @ [\<lparr>mn_label = n_Label node, mn_props = nodeProps node\<rparr>]\<rparr>)),
              Inr True)
         | Some i \<Rightarrow>
             let existing = g_nodes g ! i in
             if mn_label existing \<noteq> n_Label node
             then (c(tenant := Some g),
                   Inl (Wrapped ''upsert node'' (NodeIDConflictError (n_ID node) (n_Label node) (mn_label existing))))
             else (c(tenant := Some (g\<lparr>g_nodes := (g_nodes g)[i := existing\<lparr>mn_props := upsert_props node (mn_props existing)\<rparr>]\<rparr>)),
                   Inr False)))"

text \<open>The common part of the two methods that add one edge.\<close>

definition add_labelled ::
    "string \<Rightarrow> memClient \<Rightarrow> string \<Rightarrow> string \<Rightarrow> string \<Rightarrow> string \<Rightarrow> props \<Rightarrow> memClient \<times> graph_error option" where
  "add_labelled what c tenant sourceID targetID label ps =
     (case graph_of c tenant of Inl err \<Rightarrow> (c, Some err) | Inr g0 \<Rightarrow>
      case useLabel g0 label ''edge'' of
        (g, Some err) \<Rightarrow> (c(tenant := Some g), Some (Wrapped what err))
      | (g, None) \<Rightarrow>
        (case addEdge g sourceID targetID label ps of
           Inl err \<Rightarrow> (c(tenant := Some g), Some (Wrapped what err))
         | Inr g' \<Rightarrow> (c(tenant := Some g'), None)))"

definition CreateEdge :: "memClient \<Rightarrow> string \<Rightarrow> string \<Rightarrow> string \<Rightarrow> Edge \<Rightarrow> memClient \<times> graph_error option" where
  "CreateEdge c tenant sourceID targetID edge =
     (case CheckEdge sourceID targetID edge of Some err \<Rightarrow> (c, Some (Wrapped ''create edge'' err)) | None \<Rightarrow>
      add_labelled ''create edge'' c tenant sourceID targetID (e_Label edge) (edgeProps edge))"

definition CreateRequiresEdge :: "memClient \<Rightarrow> string \<Rightarrow> RequiresEdge \<Rightarrow> memClient \<times> graph_error option" where
  "CreateRequiresEdge c tenant r =
     (case CheckRequiresEdge r of Some err \<Rightarrow> (c, Some (Wrapped ''create requires edge'' err)) | None \<Rightarrow>
      add_labelled ''create requires edge'' c tenant (req_SourceID r) (req_TargetID r) ''REQUIRES'' (requiresProps r))"

text \<open>The three loops of \<^verbatim>\<open>BulkCreateEdges\<close>.\<close>

fun bulk_check :: "nat \<Rightarrow> BulkEdge list \<Rightarrow> graph_error option" where
  "bulk_check i [] = None"
| "bulk_check i (be # bes) =
     (case CheckEdge (be_SourceID be) (be_TargetID be) (be_Edge be) of
        Some err \<Rightarrow> Some (BulkEdgeError i err)
      | None \<Rightarrow> bulk_check (Suc i) bes)"

fun bulk_labels :: "memGraph \<Rightarrow> BulkEdge list \<Rightarrow> memGraph \<times> graph_error option" where
  "bulk_labels g [] = (g, None)"
| "bulk_labels g (be # bes) =
     (case useLabel g (e_Label (be_Edge be)) ''edge'' of
        (g', Some err) \<Rightarrow> (g', Some (Wrapped ''bulk create edges'' err))
      | (g', None) \<Rightarrow> bulk_labels g' bes)"

fun bulk_add :: "nat \<Rightarrow> memGraph \<Rightarrow> BulkEdge list \<Rightarrow> memGraph \<times> (graph_error + string list)" where
  "bulk_add i g [] = (g, Inr [])"
| "bulk_add i g (be # bes) =
     (case addEdge g (be_SourceID be) (be_TargetID be) (e_Label (be_Edge be)) (edgeProps (be_Edge be)) of
        Inl err \<Rightarrow> (g, Inl (BulkEdgeError i err))
      | Inr g' \<Rightarrow>
        (case bulk_add (Suc i) g' bes of
           (g'', Inl err) \<Rightarrow> (g'', Inl err)
         | (g'', Inr ids) \<Rightarrow> (g'', Inr (e_ID (be_Edge be) # ids))))"

definition BulkCreateEdges :: "memClient \<Rightarrow> string \<Rightarrow> BulkEdge list \<Rightarrow> memClient \<times> (graph_error + string list)" where
  "BulkCreateEdges c tenant bes =
     (if bes = [] then (case CheckTenant tenant of Some err \<Rightarrow> (c, Inl err) | None \<Rightarrow> (c, Inr []))
      else case bulk_check 0 bes of Some err \<Rightarrow> (c, Inl err) | None \<Rightarrow>
      case graph_of c tenant of Inl err \<Rightarrow> (c, Inl err) | Inr g0 \<Rightarrow>
      case bulk_labels g0 bes of
        (g, Some err) \<Rightarrow> (c(tenant := Some g), Inl err)
      | (g, None) \<Rightarrow>
        let edgeCount = length (g_edges g); lastSeq = g_lastSeq g in
        (case bulk_add 0 g bes of
           (g', Inl err) \<Rightarrow>
             (c(tenant := Some (g'\<lparr>g_edges := take edgeCount (g_edges g'), g_lastSeq := lastSeq\<rparr>)), Inl err)
         | (g', Inr ids) \<Rightarrow> (c(tenant := Some g'), Inr ids)))"

definition supersede_props :: "SupersedeRequest \<Rightarrow> props \<Rightarrow> props" where
  "supersede_props req ps =
     (let ps = AList.update ''valid_to'' (VString (FormatTime (s_SupersededAt req))) ps
      in put_if (s_SupersededByJobID req \<noteq> []) ''superseded_by'' (VString (s_SupersededByJobID req)) ps)"

definition SupersedeFact :: "memClient \<Rightarrow> string \<Rightarrow> SupersedeRequest \<Rightarrow> memClient \<times> (graph_error + bool)" where
  "SupersedeFact c tenant req =
     (case CheckSupersedeRequest req of Some err \<Rightarrow> (c, Inl (Wrapped ''supersede fact'' err)) | None \<Rightarrow>
      case graph_of c tenant of Inl err \<Rightarrow> (c, Inl err) | Inr g \<Rightarrow>
      if s_NodeID req \<noteq> [] then
        (case nodeByID g (s_NodeID req) of
           None \<Rightarrow> (c, Inr False)
         | Some i \<Rightarrow>
             (c(tenant := Some (g\<lparr>g_nodes := (g_nodes g)[i := (g_nodes g ! i)\<lparr>mn_props := supersede_props req (mn_props (g_nodes g ! i))\<rparr>]\<rparr>)),
              Inr True))
      else
        (let hit = (\<lambda>e. stringProp (me_props e) ''id'' = s_EdgeID req) in
         (c(tenant := Some (g\<lparr>g_edges := map (\<lambda>e. if hit e then e\<lparr>me_props := supersede_props req (me_props e)\<rparr> else e) (g_edges g)\<rparr>)),
          Inr (list_ex hit (g_edges g)))))"

subsection \<open>Reads\<close>

text \<open>\<^verbatim>\<open>reflect.DeepEqual\<close> on property values: a float is compared by \<^verbatim>\<open>==\<close>.\<close>

fun deep_equal :: "any_val \<Rightarrow> any_val \<Rightarrow> bool" where
  "deep_equal (VFloat x) (VFloat y) = f64_eq x y"
| "deep_equal (VFloat32 x) (VFloat32 y) = f64_eq x y"
| "deep_equal a b = (a = b)"

definition matchesProps :: "props \<Rightarrow> props \<Rightarrow> bool" where
  "matchesProps ps wanted =
     list_all (\<lambda>(k, v). case map_of ps k of None \<Rightarrow> False | Some got \<Rightarrow> deep_equal got (normalizeValue v)) wanted"

definition decode_rel :: "memGraph \<Rightarrow> memEdge \<Rightarrow> Relationship" where
  "decode_rel g e =
     \<lparr>r_Source = decodeNode (g_nodes g ! me_source e), r_Edge = decodeEdge e,
      r_Target = decodeNode (g_nodes g ! me_target e)\<rparr>"

definition rel_selected :: "memGraph \<Rightarrow> RelationshipQuery \<Rightarrow> time option \<Rightarrow> memEdge \<Rightarrow> bool" where
  "rel_selected g q asOf e \<longleftrightarrow>
     \<not> (q_EdgeLabel q \<noteq> [] \<and> me_label e \<noteq> q_EdgeLabel q) \<and>
     \<not> (q_SourceLabel q \<noteq> [] \<and> mn_label (g_nodes g ! me_source e) \<noteq> q_SourceLabel q) \<and>
     \<not> (q_TargetLabel q \<noteq> [] \<and> mn_label (g_nodes g ! me_target e) \<noteq> q_TargetLabel q) \<and>
     matchesProps (me_props e) (q_Properties q) \<and>
     (case asOf of
        None \<Rightarrow> map_of (me_props e) ''valid_to'' = None
      | Some t \<Rightarrow> ValidAt \<lparr>p_Nodes = [], p_Edges = [decodeEdge e]\<rparr> t)"

definition relationships :: "memGraph \<Rightarrow> RelationshipQuery \<Rightarrow> time option \<Rightarrow> Relationship list" where
  "relationships g q asOf = map (decode_rel g) (filter (rel_selected g q asOf) (g_edges g))"

definition QueryRelationships :: "memClient \<Rightarrow> string \<Rightarrow> RelationshipQuery \<Rightarrow> graph_error + Relationship list" where
  "QueryRelationships c tenant q =
     (case CheckRelationshipQuery q of Some err \<Rightarrow> Inl (Wrapped ''query relationships'' err) | None \<Rightarrow>
      case graph_of c tenant of Inl err \<Rightarrow> Inl err | Inr g \<Rightarrow> Inr (relationships g q None))"

definition QueryAsOf :: "memClient \<Rightarrow> string \<Rightarrow> RelationshipQuery \<Rightarrow> time \<Rightarrow> graph_error + Relationship list" where
  "QueryAsOf c tenant q asOf =
     (case CheckRelationshipQuery q of Some err \<Rightarrow> Inl (Wrapped ''query relationships'' err) | None \<Rightarrow>
      case graph_of c tenant of Inl err \<Rightarrow> Inl err | Inr g \<Rightarrow> Inr (relationships g q (Some asOf)))"

definition neighbor :: "memEdge \<Rightarrow> nat \<Rightarrow> string \<Rightarrow> nat option" where
  "neighbor e from direction =
     (if direction = ''inbound'' then (if me_target e = from then Some (me_source e) else None)
      else if direction = ''both'' then
        (if me_source e = from then Some (me_target e)
         else if me_target e = from then Some (me_source e) else None)
      else (if me_source e = from then Some (me_target e) else None))"

definition decodePath :: "memGraph \<Rightarrow> nat list \<Rightarrow> nat list \<Rightarrow> Path" where
  "decodePath g nodes edges =
     \<lparr>p_Nodes = map (\<lambda>i. decodeNode (g_nodes g ! i)) nodes, p_Edges = map (\<lambda>i. decodeEdge (g_edges g ! i)) edges\<rparr>"

text \<open>
  \<^verbatim>\<open>walk\<close>: the paths it appends to its output, as positions of nodes and edges. The
  recursion ends because a path never reuses an edge.
\<close>

definition walk_step :: "memGraph \<Rightarrow> TraversalQuery \<Rightarrow> nat list \<Rightarrow> nat list \<Rightarrow> nat \<Rightarrow> nat option" where
  "walk_step g q nodes edges i =
     (if t_EdgeLabels q \<noteq> [] \<and> me_label (g_edges g ! i) \<notin> set (t_EdgeLabels q) then None
      else if i \<in> set edges then None
      else neighbor (g_edges g ! i) (last nodes) (t_Direction q))"

function walk_paths :: "memGraph \<Rightarrow> TraversalQuery \<Rightarrow> nat list \<Rightarrow> nat list \<Rightarrow> (nat list \<times> nat list) list" where
  "walk_paths g q nodes edges =
     (if t_MaxDepth q > 0 \<and> int (length edges) \<ge> t_MaxDepth q then []
      else concat (map (\<lambda>i. case walk_step g q nodes edges i of
                              None \<Rightarrow> []
                            | Some nxt \<Rightarrow> (nodes @ [nxt], edges @ [i]) # walk_paths g q (nodes @ [nxt]) (edges @ [i]))
                       [0..<length (g_edges g)]))"
  by pat_completeness auto

termination
proof (relation "measure (\<lambda>(g, q, nodes, edges). card ({..<length (g_edges g)} - set edges))")
  fix g q nodes edges i nxt
  assume "i \<in> set [0..<length (g_edges g)]" and "walk_step g q nodes edges i = Some nxt"
  then have "i \<in> {..<length (g_edges g)} - set edges"
    by (auto simp: walk_step_def split: if_splits)
  moreover have "{..<length (g_edges g)} - set (edges @ [i]) = ({..<length (g_edges g)} - set edges) - {i}" by auto
  ultimately show "((g, q, nodes @ [nxt], edges @ [i]), g, q, nodes, edges)
      \<in> measure (\<lambda>(g, q, nodes, edges). card ({..<length (g_edges g)} - set edges))"
    by (simp only: in_measure prod.case) (rule card_Diff1_less, simp_all)
qed simp

declare walk_paths.simps [simp del]

definition Traverse :: "memClient \<Rightarrow> string \<Rightarrow> TraversalQuery \<Rightarrow> graph_error + Path list" where
  "Traverse c tenant q =
     (case first_error (CheckLabel ''edge label'') (t_EdgeLabels q) of Some err \<Rightarrow> Inl (Wrapped ''traverse'' err) | None \<Rightarrow>
      case graph_of c tenant of Inl err \<Rightarrow> Inl err | Inr g \<Rightarrow>
        let paths = (case nodeByID g (t_StartNode q) of
                       None \<Rightarrow> []
                     | Some start \<Rightarrow> map (\<lambda>(ns, es). decodePath g ns es) (walk_paths g q [start] []))
        in Inr (case t_AsOf q of None \<Rightarrow> paths | Some t \<Rightarrow> filter (\<lambda>p. ValidAt p t) paths))"

definition GetNode :: "memClient \<Rightarrow> string \<Rightarrow> string \<Rightarrow> graph_error + Node" where
  "GetNode c tenant nodeID =
     (if nodeID = [] then Inl (FieldRequired ''get node: node_id is required'')
      else case graph_of c tenant of Inl err \<Rightarrow> Inl err | Inr g \<Rightarrow>
        case nodeByID g nodeID of
          Some i \<Rightarrow> Inr (decodeNode (g_nodes g ! i))
        | None \<Rightarrow> Inl (Wrapped ''get node'' (ErrNodeNotFound nodeID)))"

definition GetEdge :: "memClient \<Rightarrow> string \<Rightarrow> string \<Rightarrow> graph_error + EdgeWithEndpoints" where
  "GetEdge c tenant edgeID =
     (if edgeID = [] then Inl (FieldRequired ''get edge: edge_id is required'')
      else case graph_of c tenant of Inl err \<Rightarrow> Inl err | Inr g \<Rightarrow>
        case find (\<lambda>e. stringProp (me_props e) ''id'' = edgeID) (g_edges g) of
          Some e \<Rightarrow> Inr \<lparr>we_Edge = decodeEdge e,
                         we_SourceID = stringProp (mn_props (g_nodes g ! me_source e)) ''id'',
                         we_TargetID = stringProp (mn_props (g_nodes g ! me_target e)) ''id''\<rparr>
        | None \<Rightarrow> Inl (Wrapped ''get edge'' (ErrEdgeNotFound edgeID)))"

text \<open>\<^verbatim>\<open>ExecuteQuery\<close> never returns rows.\<close>

definition ExecuteQuery :: "memClient \<Rightarrow> string \<Rightarrow> string \<Rightarrow> graph_error" where
  "ExecuteQuery c tenant cypher =
     (if cypher = [] then FieldRequired ''execute query: cypher is required''
      else case graph_of c tenant of Inl err \<Rightarrow> err | Inr _ \<Rightarrow> Wrapped ''execute query'' ErrNotSupported)"

subsection \<open>Property lists\<close>

lemma find_index_None: "find_index P xs = None \<longleftrightarrow> (\<forall>x\<in>set xs. \<not> P x)"
  by (induction xs) auto

lemma find_index_Some: "find_index P xs = Some i \<Longrightarrow> i < length xs \<and> P (xs ! i)"
  by (induction xs arbitrary: i) (auto split: if_splits)

lemma map_of_update: "map_of (AList.update k v ps) k' = (if k' = k then Some v else map_of ps k')"
  by (simp add: update_conv')

lemma map_of_put_if: "map_of (put_if c k v ps) k' = (if c \<and> k' = k then Some v else map_of ps k')"
  by (simp add: put_if_def map_of_update)

lemma map_of_put_time:
  "map_of (put_time to ps) k =
     (if k = ''valid_to'' \<and> to \<noteq> None then Some (VString (FormatTime (the to))) else map_of ps k)"
  by (auto simp: put_time_def map_of_update split: option.splits)

lemma map_of_write_props: "k \<notin> fst ` set ps \<Longrightarrow> map_of (write_props ps base) k = map_of base k"
proof (induction ps arbitrary: base)
  case (Cons p ps)
  then show ?case by (cases p) (simp add: write_props_def map_of_update)
qed (simp add: write_props_def)

lemmas props_lookup = map_of_update map_of_put_if map_of_put_time map_of_write_props

text \<open>What the driver guarantees of every stored property list.\<close>

definition keys_ok :: "props \<Rightarrow> bool" where
  "keys_ok ps \<longleftrightarrow> distinct (map fst ps) \<and> list_all identifierPattern (map fst ps)"

lemma set_update_keys: "fst ` set (AList.update k v ps) = insert k (fst ` set ps)"
  by (simp add: dom_update)

lemma keys_ok_update: "keys_ok ps \<Longrightarrow> identifierPattern k \<Longrightarrow> keys_ok (AList.update k v ps)"
  using set_update_keys [of k v ps] unfolding keys_ok_def by (auto simp: list_all_iff distinct_update)

lemma keys_ok_put_if: "keys_ok ps \<Longrightarrow> identifierPattern k \<Longrightarrow> keys_ok (put_if c k v ps)"
  by (simp add: put_if_def keys_ok_update)

lemma valid_to_identifier: "identifierPattern ''valid_to''"
  by code_simp

lemma keys_ok_put_time: "keys_ok ps \<Longrightarrow> keys_ok (put_time to ps)"
  using valid_to_identifier by (auto simp: put_time_def keys_ok_update split: option.splits)

lemma keys_ok_write_props:
  "keys_ok base \<Longrightarrow> \<forall>k\<in>fst ` set ps. identifierPattern k \<Longrightarrow> keys_ok (write_props ps base)"
proof (induction ps arbitrary: base)
  case (Cons p ps)
  obtain k v where p: "p = (k, v)" by (cases p)
  have "keys_ok (AList.update k (normalizeValue v) base)" using Cons.prems p by (simp add: keys_ok_update)
  with Cons show ?case by (simp add: write_props_def p)
qed (simp add: write_props_def)

lemma driver_keys:
  "identifierPattern ''created_by''" "identifierPattern ''creation_method''" "identifierPattern ''determined_by''"
  "identifierPattern ''determination_type''" "identifierPattern ''confidence''" "identifierPattern ''supersedes''"
  "identifierPattern ''models''" "identifierPattern ''prompt_version''" "identifierPattern ''superseded_by''"
  "identifierPattern ''valid_from''"
  by code_simp+

lemma keys_ok_id: "keys_ok [(''id'', v), (''valid_from'', w)]"
proof -
  have "distinct [''id'', ''valid_from'']" "list_all identifierPattern [''id'', ''valid_from'']" by code_simp+
  then show ?thesis by (simp add: keys_ok_def)
qed

lemmas keys_ok_intros = keys_ok_update keys_ok_put_if keys_ok_put_time keys_ok_write_props keys_ok_id
  driver_keys valid_to_identifier

lemma nodeProps_stored:
  assumes "CheckNode n = None"
  shows "map_of (nodeProps n) ''id'' = Some (VString (n_ID n))"
    and "map_of (nodeProps n) ''valid_from'' = Some (VString (FormatTime (n_ValidFrom n)))"
    and "map_of (nodeProps n) ''valid_to'' = map_option (\<lambda>t. VString (FormatTime t)) (n_ValidTo n)"
    and "map_of (nodeProps n) ''created_by'' = (if n_CreatedBy n = [] then None else Some (VString (n_CreatedBy n)))"
    and "map_of (nodeProps n) ''creation_method'' =
        (if n_CreationMethod n = [] then None else Some (VString (n_CreationMethod n)))"
    and "map_of (nodeProps n) ''superseded_by'' = None"
    and "keys_ok (nodeProps n)"
proof -
  have "\<forall>k\<in>fst ` set (n_Properties n). k \<notin> fst ` set reservedNodeKeys" and ident: "\<forall>k\<in>fst ` set (n_Properties n). identifierPattern k"
    using assms by (auto simp: CheckNode_None)
  then have free: "k \<notin> fst ` set (n_Properties n)" if "k \<in> fst ` set reservedNodeKeys" for k
    using that by blast
  have reserved: "''id'' \<notin> fst ` set (n_Properties n)" "''valid_from'' \<notin> fst ` set (n_Properties n)"
    "''valid_to'' \<notin> fst ` set (n_Properties n)" "''created_by'' \<notin> fst ` set (n_Properties n)"
    "''creation_method'' \<notin> fst ` set (n_Properties n)" "''superseded_by'' \<notin> fst ` set (n_Properties n)"
    by (rule free, simp add: reservedNodeKeys_def)+
  show "map_of (nodeProps n) ''id'' = Some (VString (n_ID n))"
    and "map_of (nodeProps n) ''valid_from'' = Some (VString (FormatTime (n_ValidFrom n)))"
    and "map_of (nodeProps n) ''created_by'' = (if n_CreatedBy n = [] then None else Some (VString (n_CreatedBy n)))"
    and "map_of (nodeProps n) ''creation_method'' =
        (if n_CreationMethod n = [] then None else Some (VString (n_CreationMethod n)))"
    and "map_of (nodeProps n) ''superseded_by'' = None"
    by (simp_all add: nodeProps_def Let_def props_lookup reserved)
  show "map_of (nodeProps n) ''valid_to'' = map_option (\<lambda>t. VString (FormatTime t)) (n_ValidTo n)"
    by (cases "n_ValidTo n") (simp_all add: nodeProps_def Let_def props_lookup reserved)
  show "keys_ok (nodeProps n)"
    unfolding nodeProps_def Let_def by (intro keys_ok_intros ident)
qed

lemma edgeProps_stored:
  assumes "CheckEdge src tgt e = None"
  shows "map_of (edgeProps e) ''id'' = Some (VString (e_ID e))"
    and "map_of (edgeProps e) ''valid_from'' = Some (VString (FormatTime (e_ValidFrom e)))"
    and "map_of (edgeProps e) ''valid_to'' = map_option (\<lambda>t. VString (FormatTime t)) (e_ValidTo e)"
    and "keys_ok (edgeProps e)"
proof -
  have "\<forall>k\<in>fst ` set (e_Properties e). k \<notin> fst ` set reservedEdgeKeys" and ident: "\<forall>k\<in>fst ` set (e_Properties e). identifierPattern k"
    using assms by (auto simp: CheckEdge_None)
  then have free: "k \<notin> fst ` set (e_Properties e)" if "k \<in> fst ` set reservedEdgeKeys" for k
    using that by blast
  have reserved: "''id'' \<notin> fst ` set (e_Properties e)" "''valid_from'' \<notin> fst ` set (e_Properties e)"
    "''valid_to'' \<notin> fst ` set (e_Properties e)"
    by (rule free, simp add: reservedEdgeKeys_def)+
  show "map_of (edgeProps e) ''id'' = Some (VString (e_ID e))"
    and "map_of (edgeProps e) ''valid_from'' = Some (VString (FormatTime (e_ValidFrom e)))"
    by (simp_all add: edgeProps_def Let_def props_lookup reserved)
  show "map_of (edgeProps e) ''valid_to'' = map_option (\<lambda>t. VString (FormatTime t)) (e_ValidTo e)"
    by (cases "e_ValidTo e") (simp_all add: edgeProps_def Let_def props_lookup reserved)
  show "keys_ok (edgeProps e)"
    unfolding edgeProps_def Let_def by (intro keys_ok_intros ident)
qed

lemma requiresProps_stored:
  shows "map_of (requiresProps r) ''id'' = Some (VString (EdgeID r))"
    and "map_of (requiresProps r) ''valid_from'' = Some (VString (FormatTime (req_AnalyzedAt r)))"
    and "map_of (requiresProps r) ''valid_to'' = None"
    and "keys_ok (requiresProps r)"
proof -
  let ?ks = "[''id'', ''valid_from'', ''confidence'', ''unanimous'', ''valid_votes'', ''total_votes'', ''vote_weight'',
    ''samples_per_model'', ''analyzed_at'', ''job_id'']"
  have "distinct ?ks" "list_all identifierPattern ?ks" by code_simp+
  then show "keys_ok (requiresProps r)"
    unfolding requiresProps_def Let_def by (intro keys_ok_intros) (simp add: keys_ok_def)
qed (simp_all add: requiresProps_def Let_def props_lookup)

end
