(* ===== verification/Graph_Store.thy ===== *)
theory Graph_Store
  imports Mem_Graph
begin

text \<open>
  What the in-memory graph driver promises, over sequences of its operations:
  the methods of the interface as one datatype, the invariant of every stored graph, the
  isolation of tenants, and the behaviour of batches, reads, supersession and traversal.
\<close>

subsection \<open>The methods as operations\<close>

datatype graph_op =
    OpCreateGraph
  | OpCreateNode Node
  | OpUpsertNode Node
  | OpCreateEdge string string Edge
  | OpCreateRequiresEdge RequiresEdge
  | OpBulkCreateEdges "BulkEdge list"
  | OpSupersedeFact SupersedeRequest
  | OpQueryRelationships RelationshipQuery
  | OpQueryAsOf RelationshipQuery time
  | OpTraverse TraversalQuery
  | OpGetNode string
  | OpGetEdge string
  | OpExecuteQuery string

datatype graph_result =
    RError graph_error
  | RDone
  | RBool bool
  | RIDs "string list"
  | RRelationships "Relationship list"
  | RPaths "Path list"
  | RNode Node
  | REdge EdgeWithEndpoints

definition error_result :: "graph_error option \<Rightarrow> graph_result" where
  "error_result e = (case e of Some err \<Rightarrow> RError err | None \<Rightarrow> RDone)"

definition sum_result :: "('a \<Rightarrow> graph_result) \<Rightarrow> graph_error + 'a \<Rightarrow> graph_result" where
  "sum_result f r = (case r of Inl err \<Rightarrow> RError err | Inr x \<Rightarrow> f x)"

fun exec :: "graph_op \<Rightarrow> string \<Rightarrow> memClient \<Rightarrow> memClient \<times> graph_result" where
  "exec OpCreateGraph t c = map_prod id error_result (CreateGraph c t)"
| "exec (OpCreateNode n) t c = map_prod id error_result (CreateNode c t n)"
| "exec (OpUpsertNode n) t c = map_prod id (sum_result RBool) (UpsertNode c t n)"
| "exec (OpCreateEdge src tgt e) t c = map_prod id error_result (CreateEdge c t src tgt e)"
| "exec (OpCreateRequiresEdge r) t c = map_prod id error_result (CreateRequiresEdge c t r)"
| "exec (OpBulkCreateEdges bes) t c = map_prod id (sum_result RIDs) (BulkCreateEdges c t bes)"
| "exec (OpSupersedeFact req) t c = map_prod id (sum_result RBool) (SupersedeFact c t req)"
| "exec (OpQueryRelationships q) t c = (c, sum_result RRelationships (QueryRelationships c t q))"
| "exec (OpQueryAsOf q u) t c = (c, sum_result RRelationships (QueryAsOf c t q u))"
| "exec (OpTraverse q) t c = (c, sum_result RPaths (Traverse c t q))"
| "exec (OpGetNode i) t c = (c, sum_result RNode (GetNode c t i))"
| "exec (OpGetEdge i) t c = (c, sum_result REdge (GetEdge c t i))"
| "exec (OpExecuteQuery cypher) t c = (c, RError (ExecuteQuery c t cypher))"

lemmas exec_defs = CreateGraph_def CreateNode_def UpsertNode_def CreateEdge_def CreateRequiresEdge_def
  add_labelled_def BulkCreateEdges_def SupersedeFact_def

subsection \<open>Tenants are isolated\<close>

text \<open>A history: operations of several tenants in the order they take the lock, with their results.\<close>

fun run_history :: "('op \<Rightarrow> 'k \<Rightarrow> 's \<Rightarrow> 's \<times> 'r) \<Rightarrow> ('k \<times> 'op) list \<Rightarrow> 's \<Rightarrow> 's \<times> ('k \<times> 'r) list" where
  "run_history run [] c = (c, [])"
| "run_history run ((t, op) # h) c =
     (let (c1, r) = run op t c; (c2, rs) = run_history run h c1 in (c2, (t, r) # rs))"

text \<open>
  A store keyed by tenant whose operations read and write the entry of their own tenant
  only. In a history of such operations each tenant sees exactly what it would see alone.
\<close>

locale tenant_store =
  fixes run :: "'op \<Rightarrow> 'k \<Rightarrow> ('k \<Rightarrow> 'g option) \<Rightarrow> ('k \<Rightarrow> 'g option) \<times> 'r"
  assumes writes_own: "t' \<noteq> t \<Longrightarrow> fst (run op t c) t' = c t'"
    and reads_own: "c t = d t \<Longrightarrow> fst (run op t c) t = fst (run op t d) t \<and> snd (run op t c) = snd (run op t d)"
begin

lemma history_own:
  assumes "c t = d t"
  shows "fst (run_history run h c) t = fst (run_history run (filter (\<lambda>p. fst p = t) h) d) t
    \<and> filter (\<lambda>p. fst p = t) (snd (run_history run h c)) = snd (run_history run (filter (\<lambda>p. fst p = t) h) d)"
  using assms
proof (induction h arbitrary: c d)
  case (Cons p h)
  obtain u op where p: "p = (u, op)" by (cases p)
  show ?case
  proof (cases "u = t")
    case True
    then have "fst (run op t c) t = fst (run op t d) t" and r: "snd (run op t c) = snd (run op t d)"
      using reads_own [of c t d op] Cons.prems by simp_all
    from Cons.IH [of "fst (run op t c)" "fst (run op t d)", OF this(1)] r True show ?thesis by (simp add: p Let_def case_prod_beta)
  next
    case False
    then have "fst (run op u c) t = d t" using writes_own [of t u op c] Cons.prems by simp
    from Cons.IH [of "fst (run op u c)" d, OF this] False show ?thesis by (simp add: p Let_def case_prod_beta)
  qed
qed simp

end

lemma graph_of_cong: "c t = d t \<Longrightarrow> graph_of c t = graph_of d t"
  by (simp add: graph_of_def split: option.split)

lemma writes_own_methods:
  assumes "t' \<noteq> t"
  shows "fst (CreateGraph c t) t' = c t'" "fst (CreateNode c t n) t' = c t'" "fst (UpsertNode c t n) t' = c t'"
    "fst (add_labelled what c t src tgt label ps) t' = c t'" "fst (BulkCreateEdges c t bes) t' = c t'"
    "fst (SupersedeFact c t req) t' = c t'"
  using assms
  by (simp_all add: CreateGraph_def CreateNode_def UpsertNode_def add_labelled_def BulkCreateEdges_def
      SupersedeFact_def Let_def split: option.split sum.split prod.split)

lemma reads_own_methods:
  assumes "c t = d t"
  shows "fst (CreateGraph c t) t = fst (CreateGraph d t) t \<and> snd (CreateGraph c t) = snd (CreateGraph d t)"
    "fst (CreateNode c t n) t = fst (CreateNode d t n) t \<and> snd (CreateNode c t n) = snd (CreateNode d t n)"
    "fst (UpsertNode c t n) t = fst (UpsertNode d t n) t \<and> snd (UpsertNode c t n) = snd (UpsertNode d t n)"
    "fst (add_labelled what c t src tgt label ps) t = fst (add_labelled what d t src tgt label ps) t
      \<and> snd (add_labelled what c t src tgt label ps) = snd (add_labelled what d t src tgt label ps)"
    "fst (BulkCreateEdges c t bes) t = fst (BulkCreateEdges d t bes) t \<and> snd (BulkCreateEdges c t bes) = snd (BulkCreateEdges d t bes)"
    "fst (SupersedeFact c t req) t = fst (SupersedeFact d t req) t \<and> snd (SupersedeFact c t req) = snd (SupersedeFact d t req)"
  using assms graph_of_cong [of c t d, OF assms]
  by (simp_all add: CreateGraph_def CreateNode_def UpsertNode_def add_labelled_def BulkCreateEdges_def
      SupersedeFact_def Let_def split: option.split sum.split prod.split)

lemma exec_writes_own: "t' \<noteq> t \<Longrightarrow> fst (exec op t c) t' = c t'"
  by (cases op) (simp_all add: writes_own_methods CreateEdge_def CreateRequiresEdge_def split: option.split)

lemma reads_own_queries:
  assumes "graph_of c t = graph_of d t"
  shows "QueryRelationships c t q = QueryRelationships d t q" "QueryAsOf c t q u = QueryAsOf d t q u"
    "Traverse c t tq = Traverse d t tq" "GetNode c t i = GetNode d t i" "GetEdge c t i = GetEdge d t i"
    "ExecuteQuery c t cypher = ExecuteQuery d t cypher"
  unfolding QueryRelationships_def QueryAsOf_def Traverse_def GetNode_def GetEdge_def ExecuteQuery_def assms
  by (rule refl)+

lemma exec_reads_own:
  assumes "c t = d t"
  shows "fst (exec op t c) t = fst (exec op t d) t \<and> snd (exec op t c) = snd (exec op t d)"
  using reads_own_queries [OF graph_of_cong [of c t d, OF assms]] assms reads_own_methods [of c t d, OF assms]
  by (cases op) (simp_all add: CreateEdge_def CreateRequiresEdge_def split: option.split)

interpretation mem_tenants: tenant_store exec
  by (rule tenant_store.intro) (erule exec_writes_own, erule exec_reads_own)

text \<open>
  C28. Tenants are isolated: in any history of driver calls by any tenants, what a tenant
  stores and every result it gets are those of its own calls run alone, and a call never
  touches another tenant's graph.
\<close>

theorem tenant_isolation:
  "fst (run_history exec h New) t = fst (run_history exec (filter (\<lambda>p. fst p = t) h) New) t
   \<and> filter (\<lambda>p. fst p = t) (snd (run_history exec h New)) = snd (run_history exec (filter (\<lambda>p. fst p = t) h) New)
   \<and> (u \<noteq> t \<longrightarrow> fst (exec op u c) t = c t)"
  using mem_tenants.history_own [of New t New h] exec_writes_own [of t u op c] by blast

theorem tenant_isolation_witness:
  "fst (run_history exec [(''acme'', OpCreateGraph), (''beta'', OpCreateGraph)] New) ''acme'' =
     fst (run_history exec [(''acme'', OpCreateGraph)] New) ''acme''
   \<and> fst (exec OpCreateGraph ''beta'' New) ''acme'' = New ''acme''"
  using tenant_isolation [of "[(''acme'', OpCreateGraph), (''beta'', OpCreateGraph)]" "''acme''" "''beta''" OpCreateGraph New]
  by simp

subsection \<open>The invariant of a stored graph\<close>

definition node_id :: "memNode \<Rightarrow> string" where
  "node_id n = stringProp (mn_props n) ''id''"

definition edge_id :: "memEdge \<Rightarrow> string" where
  "edge_id e = stringProp (me_props e) ''id''"

definition node_ok :: "(string \<Rightarrow> string option) \<Rightarrow> memNode \<Rightarrow> bool" where
  "node_ok kinds n \<longleftrightarrow>
     node_id n \<noteq> [] \<and> kinds (mn_label n) = Some ''node'' \<and> safe_label (mn_label n) \<and> keys_ok (mn_props n)"

definition edge_ok :: "(string \<Rightarrow> string option) \<Rightarrow> nat \<Rightarrow> memEdge \<Rightarrow> bool" where
  "edge_ok kinds len e \<longleftrightarrow>
     kinds (me_label e) = Some ''edge'' \<and> me_source e < len \<and> me_target e < len
     \<and> safe_label (me_label e) \<and> keys_ok (me_props e)"

definition wf_graph :: "memGraph \<Rightarrow> bool" where
  "wf_graph g \<longleftrightarrow>
     distinct (map node_id (g_nodes g)) \<and> list_all (node_ok (g_labelKinds g)) (g_nodes g)
     \<and> distinct (filter (\<lambda>i. i \<noteq> []) (map edge_id (g_edges g)))
     \<and> list_all (edge_ok (g_labelKinds g) (length (g_nodes g))) (g_edges g)
     \<and> map me_seq (g_edges g) = map (\<lambda>i. int i + 1) [0..<length (g_edges g)]
     \<and> g_lastSeq g = int (length (g_edges g))"

definition wf_client :: "memClient \<Rightarrow> bool" where
  "wf_client c \<longleftrightarrow> (\<forall>t g. c t = Some g \<longrightarrow> CheckTenant t = None \<and> wf_graph g)"

lemma nodeByID_None: "nodeByID g i = None \<longleftrightarrow> i \<notin> set (map node_id (g_nodes g))"
  unfolding nodeByID_def find_index_None by (auto simp: node_id_def)

lemma nodeByID_Some: "nodeByID g i = Some n \<Longrightarrow> n < length (g_nodes g) \<and> node_id (g_nodes g ! n) = i"
  unfolding nodeByID_def node_id_def by (rule find_index_Some)

text \<open>Recording a label only extends the kinds.\<close>

lemma useLabel_cases:
  assumes "useLabel g label kind = (g', r)"
  obtains (fresh) "g_labelKinds g label = None" "g' = g\<lparr>g_labelKinds := (g_labelKinds g)(label := Some kind)\<rparr>" "r = None"
    | (known) "g_labelKinds g label = Some kind" "g' = g" "r = None"
    | (conflict) stored where "g_labelKinds g label = Some stored" "stored \<noteq> kind" "g' = g"
        "r = Some (LabelKindConflictError label kind stored)"
  using assms unfolding useLabel_def by (auto split: option.splits if_splits)

lemma useLabel_frame:
  assumes "useLabel g label kind = (g', r)"
  shows "g_nodes g' = g_nodes g" "g_edges g' = g_edges g" "g_lastSeq g' = g_lastSeq g"
    and "g_labelKinds g \<subseteq>\<^sub>m g_labelKinds g'" and "r = None \<Longrightarrow> g_labelKinds g' label = Some kind"
  using assms by (cases rule: useLabel_cases; auto simp: map_le_def)+

lemma wf_labels_mono:
  assumes "wf_graph g" "g_nodes g' = g_nodes g" "g_edges g' = g_edges g" "g_lastSeq g' = g_lastSeq g"
    "g_labelKinds g \<subseteq>\<^sub>m g_labelKinds g'"
  shows "wf_graph g'"
proof -
  have "g_labelKinds g' l = Some k" if "g_labelKinds g l = Some k" for l k
    using assms(5) that by (metis map_le_def domI)
  then have "list_all (node_ok (g_labelKinds g')) (g_nodes g)"
    and "list_all (edge_ok (g_labelKinds g') (length (g_nodes g))) (g_edges g)"
    using assms(1) by (simp_all add: wf_graph_def list_all_iff node_ok_def edge_ok_def)
  with assms show ?thesis by (simp add: wf_graph_def)
qed

lemma wf_useLabel: "wf_graph g \<Longrightarrow> useLabel g label kind = (g', r) \<Longrightarrow> wf_graph g'"
  using useLabel_frame [of g label kind g' r] wf_labels_mono [of g g'] by blast

lemma wf_add_node:
  assumes "wf_graph g" "node_ok (g_labelKinds g) n" "nodeByID g (node_id n) = None"
  shows "wf_graph (g\<lparr>g_nodes := g_nodes g @ [n]\<rparr>)"
proof -
  have "list_all (edge_ok (g_labelKinds g) (Suc (length (g_nodes g)))) (g_edges g)"
    using assms(1) by (auto simp: wf_graph_def list_all_iff edge_ok_def)
  with assms show ?thesis by (simp add: wf_graph_def nodeByID_None)
qed

lemma wf_update_node:
  assumes "wf_graph g" "i < length (g_nodes g)" "node_ok (g_labelKinds g) n" "node_id n = node_id (g_nodes g ! i)"
  shows "wf_graph (g\<lparr>g_nodes := (g_nodes g)[i := n]\<rparr>)"
proof -
  have "map node_id ((g_nodes g)[i := n]) = map node_id (g_nodes g)"
    using assms(2,4) by (metis list_update_id map_update nth_map)
  moreover have "list_all (node_ok (g_labelKinds g)) ((g_nodes g)[i := n])"
    using assms(1,3) set_update_subset_insert [of "g_nodes g" i n] by (auto simp: wf_graph_def list_all_iff)
  ultimately show ?thesis using assms(1) by (simp add: wf_graph_def)
qed

lemma wf_map_edges:
  assumes "wf_graph g" "\<And>e. e \<in> set (g_edges g) \<Longrightarrow>
    edge_id (f e) = edge_id e \<and> me_seq (f e) = me_seq e \<and> edge_ok (g_labelKinds g) (length (g_nodes g)) (f e)"
  shows "wf_graph (g\<lparr>g_edges := map f (g_edges g)\<rparr>)"
proof -
  have "map edge_id (map f (g_edges g)) = map edge_id (g_edges g)" "map me_seq (map f (g_edges g)) = map me_seq (g_edges g)"
    "list_all (edge_ok (g_labelKinds g) (length (g_nodes g))) (map f (g_edges g))"
    using assms(2) by (simp_all add: list_all_iff)
  with assms(1) show ?thesis by (simp add: wf_graph_def del: map_map)
qed

lemma addEdge_cases:
  assumes "addEdge g src tgt label ps = Inr g'"
  obtains i j where "nodeByID g src = Some i" "nodeByID g tgt = Some j"
    and "stringProp ps ''id'' = [] \<or> stringProp ps ''id'' \<notin> set (map edge_id (g_edges g))"
    and "g' = g\<lparr>g_lastSeq := g_lastSeq g + 1,
        g_edges := g_edges g @ [\<lparr>me_label = label, me_props = ps, me_source = i, me_target = j, me_seq = g_lastSeq g + 1\<rparr>]\<rparr>"
proof -
  obtain i where i: "nodeByID g src = Some i"
    using assms by (auto simp: addEdge_def resolveNode_def split: option.splits)
  obtain j where j: "nodeByID g tgt = Some j"
    using assms by (auto simp: addEdge_def resolveNode_def split: option.splits)
  have "\<not> (stringProp ps ''id'' \<noteq> [] \<and> list_ex (\<lambda>e. stringProp (me_props e) ''id'' = stringProp ps ''id'') (g_edges g))"
    and g': "g' = g\<lparr>g_lastSeq := g_lastSeq g + 1,
        g_edges := g_edges g @ [\<lparr>me_label = label, me_props = ps, me_source = i, me_target = j, me_seq = g_lastSeq g + 1\<rparr>]\<rparr>"
    using assms by (simp_all add: addEdge_def resolveNode_def i j Let_def split: if_splits)
  then have "stringProp ps ''id'' = [] \<or> stringProp ps ''id'' \<notin> set (map edge_id (g_edges g))"
    by (auto simp: edge_id_def list_ex_iff)
  from that [OF i j this g'] show thesis .
qed

lemma wf_addEdge:
  assumes "wf_graph g" "addEdge g src tgt label ps = Inr g'"
    and "g_labelKinds g label = Some ''edge''" "safe_label label" "keys_ok ps"
  shows "wf_graph g'"
  using assms(2)
proof (rule addEdge_cases)
  fix i j
  assume ij: "nodeByID g src = Some i" "nodeByID g tgt = Some j"
    and i: "stringProp ps ''id'' = [] \<or> stringProp ps ''id'' \<notin> set (map edge_id (g_edges g))"
    and g': "g' = g\<lparr>g_lastSeq := g_lastSeq g + 1,
        g_edges := g_edges g @ [\<lparr>me_label = label, me_props = ps, me_source = i, me_target = j, me_seq = g_lastSeq g + 1\<rparr>]\<rparr>"
  have "i < length (g_nodes g)" "j < length (g_nodes g)" using ij nodeByID_Some by blast+
  then have "edge_ok (g_labelKinds g) (length (g_nodes g))
      \<lparr>me_label = label, me_props = ps, me_source = i, me_target = j, me_seq = g_lastSeq g + 1\<rparr>"
    using assms(3-5) by (simp add: edge_ok_def)
  with assms(1) i show ?thesis unfolding g' by (auto simp: wf_graph_def edge_id_def)
qed

subsection \<open>Every operation keeps the invariant\<close>

lemma graph_of_Inr: "graph_of c t = Inr g \<Longrightarrow> c t = Some g \<and> CheckTenant t = None"
  by (auto simp: graph_of_def split: option.splits)

lemma wf_client_graph: "wf_client c \<Longrightarrow> graph_of c t = Inr g \<Longrightarrow> wf_graph g"
  using graph_of_Inr [of c t g] unfolding wf_client_def by auto

lemma wf_client_put: "wf_client c \<Longrightarrow> graph_of c t = Inr g \<Longrightarrow> wf_graph g' \<Longrightarrow> wf_client (c(t := Some g'))"
  using graph_of_Inr [of c t g] unfolding wf_client_def by auto

lemma stringProp_of: "map_of ps k = Some (VString s) \<Longrightarrow> stringProp ps k = s"
  by (simp add: stringProp_def)

lemma new_node_ok:
  assumes "CheckNode n = None" "kinds (n_Label n) = Some ''node''"
  shows "node_ok kinds \<lparr>mn_label = n_Label n, mn_props = nodeProps n\<rparr>"
    and "node_id \<lparr>mn_label = n_Label n, mn_props = nodeProps n\<rparr> = n_ID n"
proof -
  have "stringProp (nodeProps n) ''id'' = n_ID n" by (rule stringProp_of) (rule nodeProps_stored(1) [OF assms(1)])
  then show "node_id \<lparr>mn_label = n_Label n, mn_props = nodeProps n\<rparr> = n_ID n"
    and "node_ok kinds \<lparr>mn_label = n_Label n, mn_props = nodeProps n\<rparr>"
    using assms nodeProps_stored(7) [OF assms(1)] by (simp_all add: node_ok_def node_id_def CheckNode_None)
qed

lemma map_of_keep_key:
  "map_of (keep_key old k ps) k' = (if k' = k \<and> map_of old k \<noteq> None then map_of old k else map_of ps k')"
  by (auto simp: keep_key_def map_of_update split: option.splits)

lemma keys_ok_keep_key: "keys_ok ps \<Longrightarrow> identifierPattern k \<Longrightarrow> keys_ok (keep_key old k ps)"
  by (simp add: keep_key_def keys_ok_update split: option.splits)

lemma upsert_props_stored:
  assumes "CheckNode n = None"
  shows "map_of (upsert_props n old) ''id'' = Some (VString (n_ID n))" and "keys_ok (upsert_props n old)"
  using nodeProps_stored(1,7) [OF assms]
  by (simp_all add: upsert_props_def Let_def map_of_keep_key map_of_update keys_ok_keep_key keys_ok_intros)

lemma supersede_props_stored:
  shows "stringProp (supersede_props req ps) ''id'' = stringProp ps ''id''"
    and "keys_ok ps \<Longrightarrow> keys_ok (supersede_props req ps)"
    and "map_of (supersede_props req ps) ''valid_to'' = Some (VString (FormatTime (s_SupersededAt req)))"
    and "k \<noteq> ''valid_to'' \<Longrightarrow> k \<noteq> ''superseded_by'' \<Longrightarrow> map_of (supersede_props req ps) k = map_of ps k"
  by (simp_all add: supersede_props_def Let_def stringProp_def props_lookup keys_ok_intros)

lemma wf_CreateGraph: "wf_client c \<Longrightarrow> wf_client (fst (CreateGraph c t))"
  by (auto simp: CreateGraph_def wf_client_def wf_graph_def split: option.splits)

lemma wf_CreateNode:
  assumes "wf_client c"
  shows "wf_client (fst (CreateNode c t n))"
proof (cases "CheckNode n = None \<and> (\<exists>g. graph_of c t = Inr g)")
  case True
  then obtain g0 where chk: "CheckNode n = None" and g0: "graph_of c t = Inr g0" by blast
  obtain g r where g: "useLabel g0 (n_Label n) ''node'' = (g, r)" by (cases "useLabel g0 (n_Label n) ''node''")
  have wf: "wf_graph g" using wf_useLabel [OF wf_client_graph [OF assms g0] g] .
  have add: "wf_graph (g\<lparr>g_nodes := g_nodes g @ [\<lparr>mn_label = n_Label n, mn_props = nodeProps n\<rparr>]\<rparr>)"
    if "r = None" "nodeByID g (n_ID n) = None"
    by (rule wf_add_node [OF wf new_node_ok(1) [OF chk]])
      (use that useLabel_frame(5) [OF g] new_node_ok(2) [OF chk, of "g_labelKinds g"] in simp_all)
  show ?thesis
    using wf add wf_client_put [OF assms g0] unfolding CreateNode_def chk g0
    by (simp add: g Let_def split: option.split)
qed (use assms in \<open>auto simp: CreateNode_def split: option.splits sum.splits\<close>)

lemma wf_UpsertNode:
  assumes "wf_client c"
  shows "wf_client (fst (UpsertNode c t n))"
proof (cases "CheckNode n = None \<and> (\<exists>g. graph_of c t = Inr g)")
  case True
  then obtain g0 where chk: "CheckNode n = None" and g0: "graph_of c t = Inr g0" by blast
  obtain g r where g: "useLabel g0 (n_Label n) ''node'' = (g, r)" by (cases "useLabel g0 (n_Label n) ''node''")
  have wf: "wf_graph g" using wf_useLabel [OF wf_client_graph [OF assms g0] g] .
  have add: "wf_graph (g\<lparr>g_nodes := g_nodes g @ [\<lparr>mn_label = n_Label n, mn_props = nodeProps n\<rparr>]\<rparr>)"
    if "r = None" "nodeByID g (n_ID n) = None"
    by (rule wf_add_node [OF wf new_node_ok(1) [OF chk]])
      (use that useLabel_frame(5) [OF g] new_node_ok(2) [OF chk, of "g_labelKinds g"] in simp_all)
  have upd: "wf_graph (g\<lparr>g_nodes := (g_nodes g)[i := (g_nodes g ! i)\<lparr>mn_props := upsert_props n (mn_props (g_nodes g ! i))\<rparr>]\<rparr>)"
    if "nodeByID g (n_ID n) = Some i" for i
  proof (rule wf_update_node [OF wf])
    have i: "i < length (g_nodes g)" "node_id (g_nodes g ! i) = n_ID n" using nodeByID_Some [OF that] by simp_all
    then show "i < length (g_nodes g)" by simp
    have "node_ok (g_labelKinds g) (g_nodes g ! i)" using wf i by (simp add: wf_graph_def list_all_length)
    moreover have "stringProp (upsert_props n old) ''id'' = n_ID n" for old
      by (rule stringProp_of) (rule upsert_props_stored(1) [OF chk])
    ultimately show "node_ok (g_labelKinds g) ((g_nodes g ! i)\<lparr>mn_props := upsert_props n (mn_props (g_nodes g ! i))\<rparr>)"
      and "node_id ((g_nodes g ! i)\<lparr>mn_props := upsert_props n (mn_props (g_nodes g ! i))\<rparr>) = node_id (g_nodes g ! i)"
      using i upsert_props_stored(2) [OF chk] by (simp_all add: node_ok_def node_id_def)
  qed
  show ?thesis
    using wf add upd wf_client_put [OF assms g0] unfolding UpsertNode_def chk g0
    by (simp add: g Let_def split: option.split)
qed (use assms in \<open>auto simp: UpsertNode_def split: option.splits sum.splits\<close>)

lemma wf_add_labelled:
  assumes "wf_client c" "safe_label label" "keys_ok ps"
  shows "wf_client (fst (add_labelled what c t src tgt label ps))"
proof (cases "graph_of c t")
  case (Inr g0)
  obtain g r where g: "useLabel g0 label ''edge'' = (g, r)" by (cases "useLabel g0 label ''edge''")
  have wf: "wf_graph g" using wf_useLabel [OF wf_client_graph [OF assms(1) Inr] g] .
  have add: "wf_graph g'" if "r = None" "addEdge g src tgt label ps = Inr g'" for g'
    using wf_addEdge [OF wf that(2)] useLabel_frame(5) [OF g that(1)] assms(2,3) by blast
  show ?thesis
    using wf add wf_client_put [OF assms(1) Inr] unfolding add_labelled_def Inr
    by (simp add: g split: option.split sum.split)
qed (simp add: add_labelled_def assms)

lemma wf_CreateEdge: "wf_client c \<Longrightarrow> wf_client (fst (CreateEdge c t src tgt e))"
  using edgeProps_stored(4) [of src tgt e] CheckEdge_None [of src tgt e] wf_add_labelled [of c "e_Label e" "edgeProps e"]
  by (auto simp: CreateEdge_def split: option.split)

lemma wf_CreateRequiresEdge: "wf_client c \<Longrightarrow> wf_client (fst (CreateRequiresEdge c t r))"
proof -
  have "safe_label ''REQUIRES''" by code_simp
  then show "wf_client c \<Longrightarrow> wf_client (fst (CreateRequiresEdge c t r))"
    using wf_add_labelled requiresProps_stored(4) by (simp add: CreateRequiresEdge_def split: option.split)
qed

text \<open>The loops of a batch.\<close>

lemma bulk_check_None:
  "bulk_check i bes = None \<longleftrightarrow> (\<forall>be\<in>set bes. CheckEdge (be_SourceID be) (be_TargetID be) (be_Edge be) = None)"
  by (induction bes arbitrary: i) (auto split: option.splits)

lemma bulk_labels_frame:
  assumes "bulk_labels g bes = (g', r)"
  shows "g_nodes g' = g_nodes g \<and> g_edges g' = g_edges g \<and> g_lastSeq g' = g_lastSeq g
    \<and> g_labelKinds g \<subseteq>\<^sub>m g_labelKinds g'
    \<and> (r = None \<longrightarrow> (\<forall>be\<in>set bes. g_labelKinds g' (e_Label (be_Edge be)) = Some ''edge''))"
  using assms
proof (induction bes arbitrary: g)
  case (Cons be bes)
  obtain g1 r1 where g1: "useLabel g (e_Label (be_Edge be)) ''edge'' = (g1, r1)"
    by (cases "useLabel g (e_Label (be_Edge be)) ''edge''")
  note frame = useLabel_frame [OF g1]
  show ?case
  proof (cases r1)
    case None
    then have "bulk_labels g1 bes = (g', r)" using Cons.prems g1 by simp
    note ih = Cons.IH [OF this]
    have "g_labelKinds g1 (e_Label (be_Edge be)) = Some ''edge''" using frame(5) None .
    then have "g_labelKinds g' (e_Label (be_Edge be)) = Some ''edge''"
      using ih by (metis map_le_def domI)
    then show ?thesis using ih frame map_le_trans by auto
  next
    case (Some err)
    then have "g' = g1" "r \<noteq> None" using Cons.prems g1 by auto
    then show ?thesis using frame by auto
  qed
qed simp

lemma bulk_add_extends:
  assumes "bulk_add i g bes = (g', r)"
  shows "\<exists>es n. g' = g\<lparr>g_edges := g_edges g @ es, g_lastSeq := n\<rparr>
    \<and> me_label ` set es \<subseteq> (\<lambda>be. e_Label (be_Edge be)) ` set bes"
  using assms
proof (induction bes arbitrary: i g g' r)
  case (Cons be bes)
  show ?case
  proof (cases "addEdge g (be_SourceID be) (be_TargetID be) (e_Label (be_Edge be)) (edgeProps (be_Edge be))")
    case (Inl err)
    with Cons.prems have "g' = g\<lparr>g_edges := g_edges g @ [], g_lastSeq := g_lastSeq g\<rparr>" by simp
    then show ?thesis by fastforce
  next
    case (Inr g1)
    then obtain e where g1: "g1 = g\<lparr>g_lastSeq := g_lastSeq g + 1, g_edges := g_edges g @ [e]\<rparr>"
      and e: "me_label e = e_Label (be_Edge be)"
      by (rule addEdge_cases) auto
    obtain r' where "bulk_add (Suc i) g1 bes = (g', r')"
      using Cons.prems Inr by (auto split: prod.splits sum.splits)
    from Cons.IH [OF this] obtain es n where "g' = g1\<lparr>g_edges := g_edges g1 @ es, g_lastSeq := n\<rparr>"
      and es: "me_label ` set es \<subseteq> (\<lambda>be. e_Label (be_Edge be)) ` set bes" by blast
    then have "g' = g\<lparr>g_edges := g_edges g @ (e # es), g_lastSeq := n\<rparr>" by (simp add: g1)
    moreover have "me_label ` set (e # es) \<subseteq> (\<lambda>be. e_Label (be_Edge be)) ` set (be # bes)"
      using es e by auto
    ultimately show ?thesis by blast
  qed
next
  case Nil
  then have "g' = g\<lparr>g_edges := g_edges g @ [], g_lastSeq := g_lastSeq g\<rparr>" by simp
  then show ?case by fastforce
qed

lemma bulk_add_rollback:
  assumes "bulk_add i g bes = (g', r)"
  shows "g'\<lparr>g_edges := take (length (g_edges g)) (g_edges g'), g_lastSeq := g_lastSeq g\<rparr> = g"
  using bulk_add_extends [OF assms] by auto

lemma wf_bulk_add:
  assumes "bulk_add i g bes = (g', r)" "wf_graph g"
    and "\<forall>be\<in>set bes. g_labelKinds g (e_Label (be_Edge be)) = Some ''edge''"
    and "\<forall>be\<in>set bes. CheckEdge (be_SourceID be) (be_TargetID be) (be_Edge be) = None"
  shows "wf_graph g'"
  using assms
proof (induction bes arbitrary: i g r)
  case (Cons be bes)
  have chk: "CheckEdge (be_SourceID be) (be_TargetID be) (be_Edge be) = None" using Cons.prems by simp
  show ?case
  proof (cases "addEdge g (be_SourceID be) (be_TargetID be) (e_Label (be_Edge be)) (edgeProps (be_Edge be))")
    case (Inr g1)
    have "wf_graph g1"
      by (rule wf_addEdge [OF Cons.prems(2) Inr]) (use Cons.prems(3) chk CheckEdge_None edgeProps_stored(4) [OF chk] in auto)
    moreover have "g_labelKinds g1 = g_labelKinds g" using Inr by (rule addEdge_cases) simp
    moreover obtain r' where "bulk_add (Suc i) g1 bes = (g', r')"
      using Cons.prems(1) Inr by (auto split: prod.splits sum.splits)
    ultimately show ?thesis using Cons by auto
  qed (use Cons.prems in simp)
qed simp

lemma wf_BulkCreateEdges:
  assumes "wf_client c"
  shows "wf_client (fst (BulkCreateEdges c t bes))"
proof (cases "bes \<noteq> [] \<and> bulk_check 0 bes = None \<and> (\<exists>g. graph_of c t = Inr g)")
  case True
  then obtain g0 where chk: "bulk_check 0 bes = None" and g0: "graph_of c t = Inr g0" by blast
  obtain g r where g: "bulk_labels g0 bes = (g, r)" by (cases "bulk_labels g0 bes")
  note frame = bulk_labels_frame [OF g]
  have wf: "wf_graph g" using wf_labels_mono [OF wf_client_graph [OF assms g0]] frame by blast
  have add: "wf_graph g'" if "r = None" "bulk_add 0 g bes = (g', r')" for g' r'
    using wf_bulk_add [OF that(2) wf] frame that(1) chk by (simp add: bulk_check_None)
  show ?thesis
    using True wf add bulk_add_rollback [of 0 g bes] wf_client_put [OF assms g0]
    unfolding BulkCreateEdges_def chk g0
    by (auto simp: g Let_def split: option.split sum.split prod.split)
qed (use assms in \<open>auto simp: BulkCreateEdges_def split: option.splits sum.splits\<close>)

lemma wf_SupersedeFact:
  assumes "wf_client c"
  shows "wf_client (fst (SupersedeFact c t req))"
proof (cases "CheckSupersedeRequest req = None \<and> (\<exists>g. graph_of c t = Inr g)")
  case True
  then obtain g where chk: "CheckSupersedeRequest req = None" and g: "graph_of c t = Inr g" by blast
  have wf: "wf_graph g" using wf_client_graph [OF assms g] .
  have node: "wf_graph (g\<lparr>g_nodes := (g_nodes g)[i := (g_nodes g ! i)\<lparr>mn_props := supersede_props req (mn_props (g_nodes g ! i))\<rparr>]\<rparr>)"
    if "nodeByID g i' = Some i" for i i'
  proof (rule wf_update_node [OF wf])
    show i: "i < length (g_nodes g)" using nodeByID_Some [OF that] by simp
    have "node_ok (g_labelKinds g) (g_nodes g ! i)" using wf i by (simp add: wf_graph_def list_all_length)
    then show "node_ok (g_labelKinds g) ((g_nodes g ! i)\<lparr>mn_props := supersede_props req (mn_props (g_nodes g ! i))\<rparr>)"
      and "node_id ((g_nodes g ! i)\<lparr>mn_props := supersede_props req (mn_props (g_nodes g ! i))\<rparr>) = node_id (g_nodes g ! i)"
      by (simp_all add: node_ok_def node_id_def supersede_props_stored)
  qed
  have edges: "wf_graph (g\<lparr>g_edges := map (\<lambda>e. if hit e then e\<lparr>me_props := supersede_props req (me_props e)\<rparr> else e) (g_edges g)\<rparr>)" for hit
    by (rule wf_map_edges [OF wf])
      (use wf in \<open>simp add: wf_graph_def list_all_iff edge_id_def edge_ok_def supersede_props_stored\<close>)
  show ?thesis
    using assms node edges wf_client_put [OF assms g] unfolding SupersedeFact_def chk g
    by (simp add: Let_def split: option.split)
qed (use assms in \<open>auto simp: SupersedeFact_def split: option.splits sum.splits\<close>)

lemma wf_exec: "wf_client c \<Longrightarrow> wf_client (fst (exec op t c))"
  by (cases op)
    (simp_all add: wf_CreateGraph wf_CreateNode wf_UpsertNode wf_CreateEdge wf_CreateRequiresEdge
      wf_BulkCreateEdges wf_SupersedeFact)

lemma wf_history: "wf_client c \<Longrightarrow> wf_client (fst (run_history exec h c))"
proof (induction h arbitrary: c)
  case (Cons p h)
  obtain t op where p: "p = (t, op)" by (cases p)
  show ?case using Cons.IH [OF wf_exec [OF Cons.prems]] by (simp add: p Let_def case_prod_beta)
qed simp

end
