(* ===== verification/Graph_Queries.thy ===== *)
theory Graph_Queries
  imports Graph_Store
begin

text \<open>
  The behaviour of the in-memory graph driver seen by its callers: what the invariant
  gives, what a refused write leaves, batches against single writes, reads after writes,
  supersession, and traversal.
\<close>

text \<open>
  C29. Every graph any history of calls can build is well formed: node identifiers are
  non-empty and unique across labels, non-empty edge identifiers are unique, both ends of
  every edge are stored nodes, a label names nodes or edges but never both, labels and
  property keys are safe identifiers, and the sequence numbers of the edges are exactly
  1 to their count, also after batches that were rolled back.
\<close>

theorem graph_store_invariant:
  "wf_client (fst (run_history exec h New))"
  by (rule wf_history) (simp add: wf_client_def New_def)



subsection \<open>Refused writes and batches\<close>

definition same_facts :: "memGraph \<Rightarrow> memGraph \<Rightarrow> bool" where
  "same_facts g g' \<longleftrightarrow> g_nodes g' = g_nodes g \<and> g_edges g' = g_edges g \<and> g_lastSeq g' = g_lastSeq g
     \<and> g_labelKinds g \<subseteq>\<^sub>m g_labelKinds g'"

lemma same_facts_refl [simp]: "same_facts g g"
  by (simp add: same_facts_def)

lemma same_facts_useLabel: "useLabel g label kind = (g', r) \<Longrightarrow> same_facts g g'"
  using useLabel_frame [of g label kind g' r] by (simp add: same_facts_def)

lemma graph_of_stored: "c t = Some g \<Longrightarrow> graph_of c t = Inr g' \<Longrightarrow> g' = g"
  using graph_of_Inr [of c t g'] by simp

lemma refused_CreateNode:
  assumes "c t = Some g" "snd (CreateNode c t n) \<noteq> None"
  shows "\<exists>g'. fst (CreateNode c t n) t = Some g' \<and> same_facts g g'"
proof (cases "graph_of c t")
  case (Inr g0)
  then have g0: "g0 = g" using graph_of_stored assms(1) by blast
  obtain g1 r where g1: "useLabel g (n_Label n) ''node'' = (g1, r)" by (cases "useLabel g (n_Label n) ''node''")
  show ?thesis
    using assms same_facts_useLabel [OF g1] unfolding CreateNode_def Inr g0
    by (auto simp: g1 Let_def split: option.splits)
qed (use assms in \<open>auto simp: CreateNode_def split: option.splits\<close>)

lemma refused_UpsertNode:
  assumes "c t = Some g" "snd (UpsertNode c t n) = Inl err"
  shows "\<exists>g'. fst (UpsertNode c t n) t = Some g' \<and> same_facts g g'"
proof (cases "graph_of c t")
  case (Inr g0)
  then have g0: "g0 = g" using graph_of_stored assms(1) by blast
  obtain g1 r where g1: "useLabel g (n_Label n) ''node'' = (g1, r)" by (cases "useLabel g (n_Label n) ''node''")
  show ?thesis
    using assms same_facts_useLabel [OF g1] unfolding UpsertNode_def Inr g0
    by (auto simp: g1 Let_def split: option.splits if_splits)
qed (use assms in \<open>auto simp: UpsertNode_def split: option.splits\<close>)

lemma refused_add_labelled:
  assumes "c t = Some g" "snd (add_labelled what c t src tgt label ps) \<noteq> None"
  shows "\<exists>g'. fst (add_labelled what c t src tgt label ps) t = Some g' \<and> same_facts g g'"
proof (cases "graph_of c t")
  case (Inr g0)
  then have g0: "g0 = g" using graph_of_stored assms(1) by blast
  obtain g1 r where g1: "useLabel g label ''edge'' = (g1, r)" by (cases "useLabel g label ''edge''")
  show ?thesis
    using assms same_facts_useLabel [OF g1] unfolding add_labelled_def Inr g0
    by (auto simp: g1 split: option.splits sum.splits)
qed (use assms in \<open>auto simp: add_labelled_def\<close>)

lemma refused_BulkCreateEdges:
  assumes "c t = Some g" "snd (BulkCreateEdges c t bes) = Inl err"
  shows "\<exists>g'. fst (BulkCreateEdges c t bes) t = Some g' \<and> same_facts g g'"
proof (cases "bes \<noteq> [] \<and> bulk_check 0 bes = None \<and> (\<exists>g. graph_of c t = Inr g)")
  case True
  then have chk: "bulk_check 0 bes = None" and g0: "graph_of c t = Inr g" using graph_of_stored [of c t g] assms(1) by auto
  obtain g1 r where g1: "bulk_labels g bes = (g1, r)" by (cases "bulk_labels g bes")
  have same: "same_facts g g1" using bulk_labels_frame [OF g1] by (simp add: same_facts_def)
  show ?thesis
    using True assms same bulk_add_rollback [of 0 g1 bes] unfolding BulkCreateEdges_def chk g0
    by (auto simp: g1 Let_def split: option.splits sum.splits prod.splits)
qed (use assms in \<open>auto simp: BulkCreateEdges_def split: option.splits sum.splits\<close>)

lemma refused_SupersedeFact: "snd (SupersedeFact c t req) = Inl err \<Longrightarrow> fst (SupersedeFact c t req) = c"
  by (auto simp: SupersedeFact_def Let_def split: option.splits sum.splits if_splits)

text \<open>
  C31. A write that is refused stores nothing: whatever the error, the nodes, edges and
  sequence counter of the tenant's graph are as before, also for a batch that fails after
  some of its edges were added; at most the kind of a label is recorded.
\<close>

theorem refused_write_stores_nothing:
  assumes "c t = Some g" "snd (exec op t c) = RError err"
  shows "\<exists>g'. fst (exec op t c) t = Some g' \<and> g_nodes g' = g_nodes g \<and> g_edges g' = g_edges g
    \<and> g_lastSeq g' = g_lastSeq g \<and> g_labelKinds g \<subseteq>\<^sub>m g_labelKinds g'"
proof -
  have "\<exists>g'. fst (exec op t c) t = Some g' \<and> same_facts g g'"
  proof (cases op)
    case OpCreateGraph
    with assms show ?thesis by (auto simp: CreateGraph_def split: option.splits)
  next
    case (OpCreateNode n)
    with assms show ?thesis
      using refused_CreateNode [of c t g n] by (auto simp: error_result_def split: option.splits)
  next
    case (OpUpsertNode n)
    with assms show ?thesis
      using refused_UpsertNode [of c t g n] by (auto simp: sum_result_def split: sum.splits)
  next
    case (OpCreateEdge src tgt e)
    with assms show ?thesis
      using refused_add_labelled [of c t g "''create edge''" src tgt "e_Label e" "edgeProps e"]
      by (auto simp: CreateEdge_def error_result_def split: option.splits)
  next
    case (OpCreateRequiresEdge r)
    with assms show ?thesis
      using refused_add_labelled [of c t g "''create requires edge''" "req_SourceID r" "req_TargetID r" "''REQUIRES''" "requiresProps r"]
      by (auto simp: CreateRequiresEdge_def error_result_def split: option.splits)
  next
    case (OpBulkCreateEdges bes)
    with assms show ?thesis
      using refused_BulkCreateEdges [of c t g bes] by (auto simp: sum_result_def split: sum.splits)
  next
    case (OpSupersedeFact req)
    with assms show ?thesis
      using refused_SupersedeFact [of c t req] by (auto simp: sum_result_def split: sum.splits)
  qed (use assms in simp_all)
  then show ?thesis unfolding same_facts_def by blast
qed

text \<open>Concrete data for the witnesses of this theory: two nodes, an edge between them, their graph.\<close>

definition sample_node :: "string \<Rightarrow> Node" where
  "sample_node i =
     \<lparr>n_ID = i, n_Label = ''Control'', n_Properties = [], n_ValidFrom = 62135596800000000000, n_ValidTo = None,
      n_CreatedBy = ''job'', n_CreationMethod = []\<rparr>"

definition sample_edge :: "string \<Rightarrow> Edge" where
  "sample_edge i =
     \<lparr>e_ID = i, e_Label = ''MAPS'', e_Properties = [], e_ValidFrom = 62135596800000000000, e_ValidTo = None,
      e_DeterminedBy = [], e_DeterminationType = [], e_Confidence = Fin 0, e_Supersedes = []\<rparr>"

definition sample_client :: memClient where
  "sample_client =
     fst (run_history exec [(''acme'', OpCreateGraph), (''acme'', OpCreateNode (sample_node ''a'')),
       (''acme'', OpCreateNode (sample_node ''b''))] New)"

lemma sample_simps:
  "stringProp (nodeProps (sample_node i)) ''id'' = i" "e_Label (sample_edge i) = ''MAPS''" "e_ID (sample_edge i) = i"
  by (simp_all add: stringProp_def nodeProps_def sample_node_def write_props_def put_time_def put_if_def sample_edge_def)

lemma sample_client_stored:
  "sample_client ''acme'' =
     Some \<lparr>g_nodes = [\<lparr>mn_label = ''Control'', mn_props = nodeProps (sample_node ''a'')\<rparr>,
                      \<lparr>mn_label = ''Control'', mn_props = nodeProps (sample_node ''b'')\<rparr>],
           g_edges = [], g_lastSeq = 0, g_labelKinds = [''Control'' \<mapsto> ''node'']\<rparr>"
proof -
  have t: "CheckTenant ''acme'' = None" and n: "CheckNode (sample_node ''a'') = None" "CheckNode (sample_node ''b'') = None"
    by code_simp+
  show ?thesis
    by (simp add: sample_client_def CreateGraph_def CreateNode_def New_def t n graph_of_def useLabel_def nodeByID_def sample_simps)
      (simp add: sample_node_def)
qed

theorem refused_write_stores_nothing_witness:
  "\<exists>g' err. snd (exec (OpCreateEdge ''a'' ''zzz'' (sample_edge ''e1'')) ''acme'' sample_client) = RError err
     \<and> fst (exec (OpCreateEdge ''a'' ''zzz'' (sample_edge ''e1'')) ''acme'' sample_client) ''acme'' = Some g'
     \<and> g_edges g' = []"
proof -
  have t: "CheckTenant ''acme'' = None" and e: "CheckEdge ''a'' ''zzz'' (sample_edge ''e1'') = None" by code_simp+
  have "\<exists>err. snd (exec (OpCreateEdge ''a'' ''zzz'' (sample_edge ''e1'')) ''acme'' sample_client) = RError err"
    by (simp add: CreateEdge_def e add_labelled_def graph_of_def t sample_client_stored useLabel_def addEdge_def
        resolveNode_def nodeByID_def sample_simps error_result_def)
  then obtain err where err: "snd (exec (OpCreateEdge ''a'' ''zzz'' (sample_edge ''e1'')) ''acme'' sample_client) = RError err"
    by blast
  from refused_write_stores_nothing [OF sample_client_stored err] err show ?thesis by auto
qed

subsection \<open>A batch is the sequence of its edges\<close>

text \<open>The reference: create the edges one by one and stop at the first error.\<close>

fun create_each :: "memClient \<Rightarrow> string \<Rightarrow> BulkEdge list \<Rightarrow> memClient \<times> graph_error option" where
  "create_each c t [] = (c, None)"
| "create_each c t (be # bes) =
     (case CreateEdge c t (be_SourceID be) (be_TargetID be) (be_Edge be) of
        (c', Some err) \<Rightarrow> (c', Some err)
      | (c', None) \<Rightarrow> create_each c' t bes)"

abbreviation add_bulk_edge :: "memGraph \<Rightarrow> BulkEdge \<Rightarrow> graph_error + memGraph" where
  "add_bulk_edge g be \<equiv> addEdge g (be_SourceID be) (be_TargetID be) (e_Label (be_Edge be)) (edgeProps (be_Edge be))"

fun seq_add :: "memGraph \<Rightarrow> BulkEdge list \<Rightarrow> memGraph option" where
  "seq_add g [] = Some g"
| "seq_add g (be # bes) =
     (case useLabel g (e_Label (be_Edge be)) ''edge'' of
        (_, Some _) \<Rightarrow> None
      | (g', None) \<Rightarrow> (case add_bulk_edge g' be of Inl _ \<Rightarrow> None | Inr g'' \<Rightarrow> seq_add g'' bes))"

text \<open>Adding an edge neither reads nor writes the label kinds, and recording labels touches nothing else.\<close>

lemma addEdge_kinds:
  "addEdge (g\<lparr>g_labelKinds := k\<rparr>) src tgt label ps =
     map_sum id (\<lambda>g'. g'\<lparr>g_labelKinds := k\<rparr>) (addEdge g src tgt label ps)"
  by (simp add: addEdge_def resolveNode_def nodeByID_def Let_def split: option.split)

lemma bulk_labels_kinds:
  assumes "bulk_labels g bes = (g', r)"
  shows "g' = g\<lparr>g_labelKinds := g_labelKinds g'\<rparr>"
  using bulk_labels_frame [OF assms] by simp

lemma useLabel_depends:
  "g_labelKinds h = g_labelKinds g \<Longrightarrow> useLabel g label kind = (g', r) \<Longrightarrow>
   useLabel h label kind = (h\<lparr>g_labelKinds := g_labelKinds g'\<rparr>, r)"
  by (auto simp: useLabel_def split: option.splits if_splits)

lemma bulk_labels_depends:
  "g_labelKinds h = g_labelKinds g \<Longrightarrow> bulk_labels g bes = (g', r) \<Longrightarrow>
   bulk_labels h bes = (h\<lparr>g_labelKinds := g_labelKinds g'\<rparr>, r)"
proof (induction bes arbitrary: g h)
  case (Cons be bes)
  obtain g1 r1 where g1: "useLabel g (e_Label (be_Edge be)) ''edge'' = (g1, r1)"
    by (cases "useLabel g (e_Label (be_Edge be)) ''edge''")
  note h1 = useLabel_depends [OF Cons.prems(1) g1]
  show ?case
  proof (cases r1)
    case None
    with Cons.prems g1 have "bulk_labels g1 bes = (g', r)" by simp
    from Cons.IH [OF _ this, of "h\<lparr>g_labelKinds := g_labelKinds g1\<rparr>"] None h1 show ?thesis by simp
  qed (use Cons.prems g1 h1 in auto)
qed auto

lemma seq_add_bulk:
  "seq_add g bes =
     (case bulk_labels g bes of
        (_, Some _) \<Rightarrow> None
      | (g1, None) \<Rightarrow> (case bulk_add i g1 bes of (_, Inl _) \<Rightarrow> None | (g2, Inr _) \<Rightarrow> Some g2))"
proof (induction bes arbitrary: g i)
  case (Cons be bes)
  obtain g1 r1 where g1: "useLabel g (e_Label (be_Edge be)) ''edge'' = (g1, r1)"
    by (cases "useLabel g (e_Label (be_Edge be)) ''edge''")
  obtain gl rl where gl: "bulk_labels g1 bes = (gl, rl)" by (cases "bulk_labels g1 bes")
  have add_gl: "add_bulk_edge gl be = map_sum id (\<lambda>g'. g'\<lparr>g_labelKinds := g_labelKinds gl\<rparr>) (add_bulk_edge g1 be)"
    by (subst bulk_labels_kinds [OF gl]) (rule addEdge_kinds)
  show ?case
  proof (cases r1)
    case r1: None
    show ?thesis
    proof (cases "add_bulk_edge g1 be")
      case (Inl err)
      then show ?thesis using g1 r1 gl add_gl by (simp split: option.split)
    next
      case (Inr g2)
      then have "g_labelKinds g2 = g_labelKinds g1" by (rule addEdge_cases) simp
      from bulk_labels_depends [OF this gl] Cons.IH [of g2 "Suc i"] Inr g1 r1 gl add_gl
      show ?thesis by (simp split: option.split sum.split prod.split)
    qed
  qed (use g1 in simp)
qed simp

lemma CreateEdge_seq:
  assumes "graph_of c t = Inr g" "CheckEdge (be_SourceID be) (be_TargetID be) (be_Edge be) = None"
  shows "case seq_add g [be] of
      None \<Rightarrow> snd (CreateEdge c t (be_SourceID be) (be_TargetID be) (be_Edge be)) \<noteq> None
    | Some g' \<Rightarrow> CreateEdge c t (be_SourceID be) (be_TargetID be) (be_Edge be) = (c(t := Some g'), None)"
  using assms by (simp add: CreateEdge_def add_labelled_def split: option.split sum.split prod.split)

lemma seq_add_Cons: "seq_add g (be # bes) = Option.bind (seq_add g [be]) (\<lambda>g'. seq_add g' bes)"
  by (simp split: option.split sum.split prod.split)

lemma create_each_seq:
  assumes "graph_of c t = Inr g" "\<forall>be\<in>set bes. CheckEdge (be_SourceID be) (be_TargetID be) (be_Edge be) = None"
  shows "case seq_add g bes of
      None \<Rightarrow> snd (create_each c t bes) \<noteq> None
    | Some g' \<Rightarrow> create_each c t bes = (c(t := Some g'), None)"
  using assms
proof (induction bes arbitrary: c g)
  case Nil
  then show ?case using graph_of_Inr [of c t g] by (simp add: fun_upd_idem)
next
  case (Cons be bes)
  note step = CreateEdge_seq [of c t g be]
  show ?case
  proof (cases "seq_add g [be]")
    case None
    then show ?thesis using step Cons.prems
      by (cases "CreateEdge c t (be_SourceID be) (be_TargetID be) (be_Edge be)") (auto simp: seq_add_Cons [of g be bes] simp del: seq_add.simps)
  next
    case (Some g1)
    have "graph_of (c(t := Some g1)) t = Inr g1" using graph_of_Inr [of c t g] Cons.prems(1) by (simp add: graph_of_def)
    from Cons.IH [OF this] Cons.prems step Some show ?thesis
      by (auto simp: seq_add_Cons [of g be bes] fun_eq_iff simp del: seq_add.simps split: option.splits)
  qed
qed

lemma bulk_add_ids: "bulk_add i g bes = (g', Inr ids) \<Longrightarrow> ids = map (\<lambda>be. e_ID (be_Edge be)) bes"
  by (induction bes arbitrary: i g ids) (auto split: sum.splits prod.splits)



subsection \<open>A created node reads back\<close>

lemma map_of_write_props_in:
  "distinct (map fst ps) \<Longrightarrow> map_of ps k = Some v \<Longrightarrow> map_of (write_props ps base) k = Some (normalizeValue v)"
proof (induction ps arbitrary: base)
  case (Cons p ps)
  obtain k' v' where p: "p = (k', v')" by (cases p)
  show ?case
  proof (cases "k = k'")
    case True
    then have "k \<notin> fst ` set ps" "v = v'" using Cons.prems by (simp_all add: p)
    then show ?thesis
      using map_of_write_props [of k ps "AList.update k' (normalizeValue v') base"] True
      by (simp add: p write_props_def map_of_update)
  next
    case False
    then show ?thesis using Cons by (simp add: p write_props_def)
  qed
qed (simp add: write_props_def)

lemma node_property_stored:
  assumes "distinct (map fst (n_Properties n))" "map_of (n_Properties n) k = Some v"
  shows "map_of (nodeProps n) k = Some (normalizeValue v)"
  unfolding nodeProps_def Let_def by (rule map_of_write_props_in [OF assms])

lemma FormatTime_not_Nil: "FormatTime t \<noteq> []"
  by (simp add: FormatTime_def Let_def split: prod.split)

text \<open>A time a driver can store and read back.\<close>

definition storable :: "time \<Rightarrow> bool" where
  "storable t \<longleftrightarrow> 0 \<le> Year t \<and> Year t \<le> 9999"

lemma timeProp_stored: "map_of ps k = Some (VString (FormatTime t)) \<Longrightarrow> storable t \<Longrightarrow> timeProp ps k = t"
  by (simp add: timeProp_def stringProp_def storable_def parse_format)

lemma timePtrProp_stored: "map_of ps k = Some (VString (FormatTime t)) \<Longrightarrow> storable t \<Longrightarrow> timePtrProp ps k = Some t"
  by (simp add: timePtrProp_def stringProp_def storable_def parse_format FormatTime_not_Nil)

lemma timePtrProp_absent: "map_of ps k = None \<Longrightarrow> timePtrProp ps k = None"
  by (simp add: timePtrProp_def stringProp_def)

lemma decodeNode_nodeProps:
  assumes chk: "CheckNode n = None" and "storable (n_ValidFrom n)" "pred_option storable (n_ValidTo n)"
  shows "decodeNode \<lparr>mn_label = n_Label n, mn_props = nodeProps n\<rparr> = n\<lparr>n_Properties := nodeProps n\<rparr>"
proof -
  note st = nodeProps_stored [OF chk]
  have "timePtrProp (nodeProps n) ''valid_to'' = n_ValidTo n"
    using st(3) assms(3) timePtrProp_stored [of "nodeProps n" "''valid_to''"] timePtrProp_absent
    by (cases "n_ValidTo n") auto
  moreover have "timeProp (nodeProps n) ''valid_from'' = n_ValidFrom n" by (rule timeProp_stored [OF st(2) assms(2)])
  moreover have "stringProp (nodeProps n) ''id'' = n_ID n" "stringProp (nodeProps n) ''created_by'' = n_CreatedBy n"
    "stringProp (nodeProps n) ''creation_method'' = n_CreationMethod n"
    by (simp_all add: stringProp_def st)
  ultimately show ?thesis by (simp add: decodeNode_def copyProps_def)
qed

lemma find_index_append: "find_index P xs = None \<Longrightarrow> P y \<Longrightarrow> find_index P (xs @ [y]) = Some (length xs)"
  by (induction xs) (auto split: if_splits)



subsection \<open>Supersession\<close>

definition superseded :: "SupersedeRequest \<Rightarrow> memEdge \<Rightarrow> memEdge" where
  "superseded req e = (if edge_id e = s_EdgeID req then e\<lparr>me_props := supersede_props req (me_props e)\<rparr> else e)"

lemma SupersedeFact_edge:
  assumes "graph_of c t = Inr g" "CheckSupersedeRequest req = None" "s_NodeID req = []"
  shows "SupersedeFact c t req =
    (c(t := Some (g\<lparr>g_edges := map (superseded req) (g_edges g)\<rparr>)), Inr (list_ex (\<lambda>e. edge_id e = s_EdgeID req) (g_edges g)))"
  using assms by (simp add: SupersedeFact_def superseded_def [abs_def] edge_id_def Let_def)

definition ignores_window :: "RelationshipQuery \<Rightarrow> bool" where
  "ignores_window q \<longleftrightarrow> list_all (\<lambda>(k, _). k \<noteq> ''valid_to'' \<and> k \<noteq> ''superseded_by'') (q_Properties q)"

lemma matchesProps_supersede:
  assumes "ignores_window q"
  shows "matchesProps (supersede_props req ps) (q_Properties q) = matchesProps ps (q_Properties q)"
  unfolding matchesProps_def
proof (rule list.pred_cong [OF refl])
  fix p
  assume "p \<in> set (q_Properties q)"
  with assms show "(case p of (k, v) \<Rightarrow> case map_of (supersede_props req ps) k of None \<Rightarrow> False | Some got \<Rightarrow> deep_equal got (normalizeValue v)) =
      (case p of (k, v) \<Rightarrow> case map_of ps k of None \<Rightarrow> False | Some got \<Rightarrow> deep_equal got (normalizeValue v))"
    by (auto simp: ignores_window_def list_all_iff supersede_props_stored(4))
qed

lemma decodeEdge_window:
  "e_ValidFrom (decodeEdge e) = timeProp (me_props e) ''valid_from''"
  "e_ValidTo (decodeEdge e) = timePtrProp (me_props e) ''valid_to''"
  by (simp_all add: decodeEdge_def Let_def copyProps_def)

lemma superseded_selected:
  assumes "ignores_window q" "storable (s_SupersededAt req)" "edge_id e = s_EdgeID req"
  shows "\<not> rel_selected g q None (superseded req e)"
    and "s_SupersededAt req \<le> u \<Longrightarrow> \<not> rel_selected g q (Some u) (superseded req e)"
    and "u < s_SupersededAt req \<Longrightarrow> map_of (me_props e) ''valid_to'' = None \<Longrightarrow>
      rel_selected g q (Some u) (superseded req e) = rel_selected g q (Some u) e"
proof -
  have e: "superseded req e = e\<lparr>me_props := supersede_props req (me_props e)\<rparr>" using assms(3) by (simp add: superseded_def)
  have to: "timePtrProp (supersede_props req (me_props e)) ''valid_to'' = Some (s_SupersededAt req)"
    by (rule timePtrProp_stored [OF supersede_props_stored(3) assms(2)])
  have "timeProp (supersede_props req (me_props e)) ''valid_from'' = timeProp (me_props e) ''valid_from''"
    by (simp add: timeProp_def stringProp_def supersede_props_stored(4))
  note window = this to
  show "\<not> rel_selected g q None (superseded req e)"
    by (simp add: rel_selected_def e supersede_props_stored(3))
  show "\<not> rel_selected g q (Some u) (superseded req e)" if "s_SupersededAt req \<le> u"
    using that by (simp add: rel_selected_def e ValidAt_def in_window_def decodeEdge_window window)
  show "rel_selected g q (Some u) (superseded req e) = rel_selected g q (Some u) e"
    if "u < s_SupersededAt req" "map_of (me_props e) ''valid_to'' = None"
    using that timePtrProp_absent [OF that(2)] matchesProps_supersede [OF assms(1)]
    by (simp add: rel_selected_def e ValidAt_def in_window_def decodeEdge_window window)
qed

lemma superseded_other: "edge_id e \<noteq> s_EdgeID req \<Longrightarrow> superseded req e = e"
  by (simp add: superseded_def)

lemma rel_same_nodes:
  "rel_selected (g\<lparr>g_edges := es\<rparr>) q a e = rel_selected g q a e" "decode_rel (g\<lparr>g_edges := es\<rparr>) e = decode_rel g e"
  by (simp_all add: rel_selected_def decode_rel_def)

lemma relationships_superseded:
  assumes "\<And>e. e \<in> set (g_edges g) \<Longrightarrow> edge_id e = s_EdgeID req \<Longrightarrow> \<not> rel_selected g q a (superseded req e)"
  shows "relationships (g\<lparr>g_edges := map (superseded req) (g_edges g)\<rparr>) q a =
    map (decode_rel g) (filter (\<lambda>e. rel_selected g q a e \<and> edge_id e \<noteq> s_EdgeID req) (g_edges g))"
proof -
  have "map (decode_rel g) (filter (rel_selected g q a) (map (superseded req) es)) =
      map (decode_rel g) (filter (\<lambda>e. rel_selected g q a e \<and> edge_id e \<noteq> s_EdgeID req) es)"
    if "set es \<subseteq> set (g_edges g)" for es
    using that
  proof (induction es)
    case (Cons e es)
    then show ?case using assms [of e] superseded_other [of e req] by (cases "edge_id e = s_EdgeID req") auto
  qed simp
  then show ?thesis by (simp add: relationships_def rel_same_nodes [abs_def])
qed

lemma decodeEdge_superseded_ID: "e_ID (decodeEdge (superseded req e)) = e_ID (decodeEdge e)"
  by (simp add: superseded_def decodeEdge_def Let_def copyProps_def supersede_props_stored(1))


definition sample_linked :: memGraph where
  "sample_linked =
     \<lparr>g_nodes = [\<lparr>mn_label = ''Control'', mn_props = nodeProps (sample_node ''a'')\<rparr>,
                \<lparr>mn_label = ''Control'', mn_props = nodeProps (sample_node ''b'')\<rparr>],
      g_edges = [\<lparr>me_label = ''MAPS'', me_props = edgeProps (sample_edge ''e1''), me_source = 0, me_target = 1, me_seq = 1\<rparr>],
      g_lastSeq = 1, g_labelKinds = [''Control'' \<mapsto> ''node'', ''MAPS'' \<mapsto> ''edge'']\<rparr>"

definition sample_supersede :: SupersedeRequest where
  "sample_supersede =
     \<lparr>s_NodeID = [], s_EdgeID = ''e1'', s_SupersededAt = 62135596900000000000, s_SupersededByJobID = ''job2''\<rparr>"

definition sample_query :: RelationshipQuery where
  "sample_query = \<lparr>q_SourceLabel = [], q_TargetLabel = [], q_EdgeLabel = ''MAPS'', q_Properties = []\<rparr>"

lemma sample_linked_edge:
  "map_of (edgeProps (sample_edge ''e1'')) ''id'' = Some (VString ''e1'')"
  "map_of (edgeProps (sample_edge ''e1'')) ''valid_from'' = Some (VString (FormatTime 62135596800000000000))"
  "map_of (edgeProps (sample_edge ''e1'')) ''valid_to'' = None"
proof -
  have "CheckEdge ''a'' ''b'' (sample_edge ''e1'') = None" by code_simp
  note st = edgeProps_stored [OF this]
  from st(1-3) show "map_of (edgeProps (sample_edge ''e1'')) ''id'' = Some (VString ''e1'')"
    "map_of (edgeProps (sample_edge ''e1'')) ''valid_from'' = Some (VString (FormatTime 62135596800000000000))"
    "map_of (edgeProps (sample_edge ''e1'')) ''valid_to'' = None"
    by (simp_all add: sample_edge_def)
qed


end
