(* ===== verification/Graph_Traversal.thy ===== *)
theory Graph_Traversal
  imports Graph_Queries
begin

text \<open>
  Traversal of the in-memory graph: the recursion \<open>walk_paths\<close> of the driver against a
  specification of the trails of the graph. A trail follows edges in the direction of
  the query, over allowed labels, and never uses an edge twice.
\<close>

fun trail_from :: "memGraph \<Rightarrow> TraversalQuery \<Rightarrow> nat \<Rightarrow> nat set \<Rightarrow> nat list \<Rightarrow> nat list \<Rightarrow> bool" where
  "trail_from g q cur used [] [] \<longleftrightarrow> True"
| "trail_from g q cur used (m # ms) (j # js) \<longleftrightarrow>
     j < length (g_edges g) \<and> j \<notin> used
     \<and> (t_EdgeLabels q = [] \<or> me_label (g_edges g ! j) \<in> set (t_EdgeLabels q))
     \<and> neighbor (g_edges g ! j) cur (t_Direction q) = Some m
     \<and> trail_from g q m (insert j used) ms js"
| "trail_from g q cur used _ _ \<longleftrightarrow> False"

definition within_depth :: "TraversalQuery \<Rightarrow> nat \<Rightarrow> bool" where
  "within_depth q n \<longleftrightarrow> (t_MaxDepth q > 0 \<longrightarrow> int n \<le> t_MaxDepth q)"

definition trails_from :: "memGraph \<Rightarrow> TraversalQuery \<Rightarrow> nat list \<Rightarrow> nat list \<Rightarrow> (nat list \<times> nat list) set" where
  "trails_from g q ns es =
     {(ns @ ms, es @ js) |ms js. js \<noteq> [] \<and> trail_from g q (last ns) (set es) ms js \<and> within_depth q (length es + length js)}"

lemma walk_step_Some:
  "walk_step g q ns es i = Some m \<longleftrightarrow>
     i \<notin> set es \<and> (t_EdgeLabels q = [] \<or> me_label (g_edges g ! i) \<in> set (t_EdgeLabels q))
     \<and> neighbor (g_edges g ! i) (last ns) (t_Direction q) = Some m"
  by (auto simp: walk_step_def)

lemma trail_from_nonempty:
  "trail_from g q cur used ms js \<Longrightarrow> js \<noteq> [] \<Longrightarrow> \<exists>m ms' j js'. ms = m # ms' \<and> js = j # js'"
  by (cases ms; cases js) auto

lemma trails_from_step:
  "p \<in> trails_from g q ns es \<longleftrightarrow>
     (\<exists>i m. i < length (g_edges g) \<and> walk_step g q ns es i = Some m \<and> within_depth q (Suc (length es))
        \<and> (p = (ns @ [m], es @ [i]) \<or> p \<in> trails_from g q (ns @ [m]) (es @ [i])))"
  (is "_ \<longleftrightarrow> ?R")
proof
  assume "p \<in> trails_from g q ns es"
  then obtain ms js where p: "p = (ns @ ms, es @ js)" and ne: "js \<noteq> []"
    and trail: "trail_from g q (last ns) (set es) ms js" and depth: "within_depth q (length es + length js)"
    by (auto simp: trails_from_def)
  obtain m ms' j js' where mj: "ms = m # ms'" "js = j # js'" using trail_from_nonempty [OF trail ne] by blast
  have step: "j < length (g_edges g)" "walk_step g q ns es j = Some m" and rest: "trail_from g q m (insert j (set es)) ms' js'"
    using trail by (simp_all add: mj walk_step_Some)
  have "within_depth q (Suc (length es))" using depth unfolding mj within_depth_def by auto
  moreover have "p = (ns @ [m], es @ [j]) \<or> p \<in> trails_from g q (ns @ [m]) (es @ [j])"
  proof (cases "js' = []")
    case True
    then show ?thesis using rest p mj by (cases ms') auto
  next
    case False
    then show ?thesis using rest depth p mj by (auto simp: trails_from_def)
  qed
  ultimately show ?R using step by blast
next
  assume ?R
  then obtain i m where step: "i < length (g_edges g)" "walk_step g q ns es i = Some m"
    and depth: "within_depth q (Suc (length es))"
    and p: "p = (ns @ [m], es @ [i]) \<or> p \<in> trails_from g q (ns @ [m]) (es @ [i])" by blast
  from p show "p \<in> trails_from g q ns es"
  proof
    assume "p = (ns @ [m], es @ [i])"
    moreover have "trail_from g q (last ns) (set es) [m] [i]" using step by (simp add: walk_step_Some)
    ultimately show ?thesis using depth unfolding trails_from_def by force
  next
    assume "p \<in> trails_from g q (ns @ [m]) (es @ [i])"
    then obtain ms js where "p = (ns @ (m # ms), es @ (i # js))" "js \<noteq> []"
      and "trail_from g q m (insert i (set es)) ms js" "within_depth q (length es + length (i # js))"
      by (auto simp: trails_from_def)
    moreover from this(3) have "trail_from g q (last ns) (set es) (m # ms) (i # js)"
      using step by (simp add: walk_step_Some)
    ultimately show ?thesis unfolding trails_from_def by blast
  qed
qed

lemma set_walk_paths: "set (walk_paths g q ns es) = trails_from g q ns es"
proof (induction g q ns es rule: walk_paths.induct)
  case (1 g q ns es)
  show ?case
  proof (cases "t_MaxDepth q > 0 \<and> int (length es) \<ge> t_MaxDepth q")
    case True
    then have "\<not> within_depth q (Suc (length es))" by (simp add: within_depth_def)
    then have "trails_from g q ns es = {}" using trails_from_step [of _ g q ns es] by blast
    with True show ?thesis by (simp add: walk_paths.simps [of g q ns es])
  next
    case False
    then have depth: "within_depth q (Suc (length es))" by (auto simp: within_depth_def)
    have "set (walk_paths g q ns es) = (\<Union>i<length (g_edges g). set (case walk_step g q ns es i of
        None \<Rightarrow> [] | Some m \<Rightarrow> (ns @ [m], es @ [i]) # walk_paths g q (ns @ [m]) (es @ [i])))"
      unfolding walk_paths.simps [of g q ns es] using False by (simp only: if_False set_concat set_map set_upt atLeast0LessThan)
        simp
    also have "\<dots> = trails_from g q ns es"
    proof (rule set_eqI)
      fix p
      have ih: "set (walk_paths g q (ns @ [m]) (es @ [i])) = trails_from g q (ns @ [m]) (es @ [i])"
        if "i < length (g_edges g)" "walk_step g q ns es i = Some m" for i m
        using 1 [OF False _ that(2)] that(1) by simp
      have mem: "p \<in> set (case walk_step g q ns es i of
            None \<Rightarrow> [] | Some m \<Rightarrow> (ns @ [m], es @ [i]) # walk_paths g q (ns @ [m]) (es @ [i])) \<longleftrightarrow>
          (\<exists>m. walk_step g q ns es i = Some m \<and> (p = (ns @ [m], es @ [i]) \<or> p \<in> trails_from g q (ns @ [m]) (es @ [i])))"
        if "i < length (g_edges g)" for i
        using ih [OF that] by (cases "walk_step g q ns es i") simp_all
      show "p \<in> (\<Union>i<length (g_edges g). set (case walk_step g q ns es i of
          None \<Rightarrow> [] | Some m \<Rightarrow> (ns @ [m], es @ [i]) # walk_paths g q (ns @ [m]) (es @ [i]))) \<longleftrightarrow> p \<in> trails_from g q ns es"
        unfolding trails_from_step [of p g q ns es] UN_iff Bex_def lessThan_iff using mem depth by blast
    qed
    finally show ?thesis .
  qed
qed

lemma trails_from_prefix:
  "p \<in> trails_from g q ns es \<Longrightarrow> \<exists>r. r \<noteq> [] \<and> snd p = es @ r"
  by (auto simp: trails_from_def)

lemma distinct_concat_map:
  assumes "distinct xs" "\<And>x. x \<in> set xs \<Longrightarrow> distinct (f x)"
    and "\<And>x y. x \<in> set xs \<Longrightarrow> y \<in> set xs \<Longrightarrow> x \<noteq> y \<Longrightarrow> set (f x) \<inter> set (f y) = {}"
  shows "distinct (concat (map f xs))"
  using assms
proof (induction xs)
  case (Cons x xs)
  have "set (f x) \<inter> set (concat (map f xs)) = {}" using Cons.prems(1,3) by fastforce
  with Cons show ?case by simp
qed simp

lemma distinct_walk_paths: "distinct (walk_paths g q ns es)"
proof (induction g q ns es rule: walk_paths.induct)
  case (1 g q ns es)
  let ?f = "\<lambda>i. case walk_step g q ns es i of None \<Rightarrow> []
    | Some m \<Rightarrow> (ns @ [m], es @ [i]) # walk_paths g q (ns @ [m]) (es @ [i])"
  have prefix: "\<exists>r. snd p = es @ i # r" if "p \<in> set (?f i)" for p i
    using that trails_from_prefix [of p g q "ns @ [the (walk_step g q ns es i)]" "es @ [i]"]
    by (cases "walk_step g q ns es i") (auto simp: set_walk_paths)
  show ?case
  proof (cases "t_MaxDepth q > 0 \<and> int (length es) \<ge> t_MaxDepth q")
    case False
    have "distinct (concat (map ?f [0..<length (g_edges g)]))"
    proof (rule distinct_concat_map)
      fix i
      assume i: "i \<in> set [0..<length (g_edges g)]"
      show "distinct (?f i)"
      proof (cases "walk_step g q ns es i")
        case (Some m)
        have "(ns @ [m], es @ [i]) \<notin> set (walk_paths g q (ns @ [m]) (es @ [i]))"
          using trails_from_prefix [of "(ns @ [m], es @ [i])" g q "ns @ [m]" "es @ [i]"] by (auto simp: set_walk_paths)
        with Some 1 [OF False i Some] show ?thesis by simp
      qed simp
    next
      fix i j :: nat
      assume "i \<noteq> j"
      show "set (?f i) \<inter> set (?f j) = {}"
      proof (rule equals0I)
        fix p
        assume "p \<in> set (?f i) \<inter> set (?f j)"
        then obtain r r' where "snd p = es @ i # r" "snd p = es @ j # r'" using prefix by blast
        with \<open>i \<noteq> j\<close> show False by simp
      qed
    qed simp
    with False show ?thesis by (simp only: walk_paths.simps [of g q ns es] if_False)
  qed (simp add: walk_paths.simps [of g q ns es])
qed


definition sample_traversal :: TraversalQuery where
  "sample_traversal =
     \<lparr>t_StartNode = ''a'', t_Direction = ''outbound'', t_EdgeLabels = [''MAPS''], t_MaxDepth = 3, t_AsOf = None\<rparr>"


end
