(* ===== verification/Artifact_Reconcile.thy ===== *)
theory Artifact_Reconcile
  imports Fuzzy_Match Graph_Traversal
begin

text \<open>
  The artifact reconciler, \<^verbatim>\<open>internal/analyzer/artifacts/reconcile.go\<close>: it groups the
  artifact nodes of a tenant's graph by type and normalized name, matches groups with
  overlapping names through an inverted index, and writes what is missing in batches.
  The graph store is the in-memory driver; the verdict store is a database behind an
  interface, so what it answers (the closed pairs, whether an enqueue fails) are
  parameters of the run.

  The theory shows that the indexed matching equals comparing all pairs, that writing in
  chunks always ends, and, in \<open>Reconcile_Runs\<close>, that a repeated run writes nothing.
\<close>

subsection \<open>Data\<close>

record MemberSample =
  ms_Name :: string
  ms_OwnerRole :: string
  ms_Frequency :: string

record artifactGroup =
  ag_id :: string
  ag_name :: string
  ag_typ :: string
  ag_members :: "string list"
  ag_samples :: "MemberSample list"

record groupMatch =
  gm_low :: string
  gm_high :: string
  gm_score :: real

record PairContext =
  pc_Type :: string
  pc_LowName :: string
  pc_HighName :: string
  pc_LowSamples :: "MemberSample list"
  pc_HighSamples :: "MemberSample list"

record PairCandidate =
  pa_LowGroupID :: string
  pa_HighGroupID :: string
  pa_CandidateEdgeID :: string
  pa_SimilarityScore :: real
  pa_Context :: PairContext

record ReconcileOptions =
  ro_DryRun :: bool
  ro_MaxEdges :: int
  ro_ChunkSize :: int
  ro_Now :: time

record ReconcileResult =
  rr_Artifacts :: nat
  rr_Skipped :: nat
  rr_Groups :: nat
  rr_NewGroups :: nat
  rr_NewMemberships :: nat
  rr_Matches :: nat
  rr_Closed :: nat
  rr_NewMatches :: nat

definition ReconcileAlgorithmVersion :: string where
  "ReconcileAlgorithmVersion = ''token-overlap-v1''"

definition reconcileThreshold :: real where
  "reconcileThreshold = 3 / 5"

definition PairKey :: "string \<Rightarrow> string \<Rightarrow> string" where
  "PairKey low high = DerivedID [''artifact-pair'', low, high]"

definition sameAsEdgeID :: "string \<Rightarrow> string \<Rightarrow> string" where
  "sameAsEdgeID low high = DerivedID [''same-as'', ReconcileAlgorithmVersion, low, high]"

subsection \<open>Loading the groups\<close>

text \<open>The local variables of the loop of \<^verbatim>\<open>loadGroups\<close>.\<close>

record load_state =
  ls_byID :: "(string \<times> artifactGroup) list"
  ls_sampleOf :: "string \<Rightarrow> MemberSample option"
  ls_seen :: "string list"
  ls_loaded :: nat
  ls_skipped :: nat

definition load_step :: "Relationship \<Rightarrow> load_state \<Rightarrow> load_state" where
  "load_step r ls =
     (let art = r_Target r in
      if n_ID art \<in> set (ls_seen ls) \<or> n_ValidTo art \<noteq> None then ls
      else
        let ls = ls\<lparr>ls_seen := n_ID art # ls_seen ls\<rparr>;
            rawName = stringProp (n_Properties art) ''name'';
            name = NormalizeArtifactName rawName;
            typ = ToLower (TrimSpace (stringProp (n_Properties art) ''type''))
        in if name = [] \<or> typ = [] then ls\<lparr>ls_skipped := ls_skipped ls + 1\<rparr>
           else
             let i = DerivedID [''artifact-group'', typ, name];
                 gr = (case map_of (ls_byID ls) i of
                         Some gr \<Rightarrow> gr
                       | None \<Rightarrow> \<lparr>ag_id = i, ag_name = name, ag_typ = typ, ag_members = [], ag_samples = []\<rparr>)
             in ls\<lparr>ls_byID := AList.update i (gr\<lparr>ag_members := ag_members gr @ [n_ID art]\<rparr>) (ls_byID ls),
                   ls_sampleOf := (ls_sampleOf ls)(n_ID art \<mapsto>
                     \<lparr>ms_Name = rawName, ms_OwnerRole = stringProp (n_Properties art) ''owner_role'',
                      ms_Frequency = stringProp (n_Properties art) ''frequency''\<rparr>),
                   ls_loaded := ls_loaded ls + 1\<rparr>)"

definition finish_group :: "(string \<Rightarrow> MemberSample option) \<Rightarrow> artifactGroup \<Rightarrow> artifactGroup" where
  "finish_group sampleOf gr =
     (let members = sort (ag_members gr) in
      gr\<lparr>ag_members := members,
         ag_samples := map (\<lambda>i. case sampleOf i of Some s \<Rightarrow> s | None \<Rightarrow> \<lparr>ms_Name = [], ms_OwnerRole = [], ms_Frequency = []\<rparr>)
                           (take 3 members)\<rparr>)"

definition demandsQuery :: RelationshipQuery where
  "demandsQuery =
     \<lparr>q_SourceLabel = ''Control'', q_TargetLabel = ''Artifact'', q_EdgeLabel = ''DEMANDS'', q_Properties = []\<rparr>"

definition groups_of :: "Relationship list \<Rightarrow> artifactGroup list \<times> nat \<times> nat" where
  "groups_of rels =
     (let ls = fold load_step rels
                 \<lparr>ls_byID = [], ls_sampleOf = Map.empty, ls_seen = [], ls_loaded = 0, ls_skipped = 0\<rparr>
      in (map (finish_group (ls_sampleOf ls)) (sort_key ag_id (map snd (ls_byID ls))), ls_loaded ls, ls_skipped ls))"

definition loadGroups :: "memClient \<Rightarrow> string \<Rightarrow> graph_error + artifactGroup list \<times> nat \<times> nat" where
  "loadGroups c tenantID =
     (case QueryRelationships c tenantID demandsQuery of Inl err \<Rightarrow> Inl err | Inr rels \<Rightarrow> Inr (groups_of rels))"

subsection \<open>Matching the groups\<close>

type_synonym token_index = "string \<times> string \<Rightarrow> nat list"

definition index_token :: "nat \<Rightarrow> string \<times> string \<Rightarrow> token_index \<Rightarrow> token_index" where
  "index_token i k idx = (if idx k = [] \<or> last (idx k) \<noteq> i then idx(k := idx k @ [i]) else idx)"

definition index_group :: "nat \<times> artifactGroup \<Rightarrow> token_index \<Rightarrow> token_index" where
  "index_group p idx =
     (case p of (i, gr) \<Rightarrow> fold (\<lambda>tok. index_token i (ag_typ gr, tok)) (Fields (ag_name gr)) idx)"

definition build_index :: "artifactGroup list \<Rightarrow> token_index" where
  "build_index groups = fold index_group (zip [0..<length groups] groups) (\<lambda>_. [])"

definition index_candidates :: "token_index \<Rightarrow> nat \<Rightarrow> artifactGroup \<Rightarrow> nat list" where
  "index_candidates idx i gr =
     sort (remdups (filter (\<lambda>j. j > i) (concat (map (\<lambda>tok. idx (ag_typ gr, tok)) (Fields (ag_name gr))))))"

definition matchGroups :: "artifactGroup list \<Rightarrow> groupMatch list" where
  "matchGroups groups =
     (let idx = build_index groups in
      concat (map (\<lambda>(i, gr).
        map (\<lambda>j. \<lparr>gm_low = ag_id gr, gm_high = ag_id (groups ! j), gm_score = TokenOverlap (ag_name gr) (ag_name (groups ! j))\<rparr>)
            (filter (\<lambda>j. TokenOverlap (ag_name gr) (ag_name (groups ! j)) \<ge> reconcileThreshold)
                    (index_candidates idx i gr)))
        (zip [0..<length groups] groups)))"

subsection \<open>Planning and writing\<close>

definition group_node :: "time \<Rightarrow> artifactGroup \<Rightarrow> Node" where
  "group_node now gr =
     \<lparr>n_ID = ag_id gr, n_Label = ''ArtifactGroup'',
      n_Properties = [(''name'', VString (ag_name gr)), (''type'', VString (ag_typ gr))],
      n_ValidFrom = now, n_ValidTo = None, n_CreatedBy = ''artifact-reconciler'', n_CreationMethod = ''exact_name''\<rparr>"

definition member_edge :: "time \<Rightarrow> artifactGroup \<Rightarrow> string \<Rightarrow> BulkEdge" where
  "member_edge now gr artID =
     \<lparr>be_SourceID = artID, be_TargetID = ag_id gr, be_Edge =
       \<lparr>e_ID = DerivedID [''member-of'', artID, ag_id gr], e_Label = ''MEMBER_OF'', e_Properties = [],
        e_ValidFrom = now, e_ValidTo = None, e_DeterminedBy = ''artifact-reconciler'',
        e_DeterminationType = ''exact_name'', e_Confidence = Fin 1, e_Supersedes = []\<rparr>\<rparr>"

definition same_as_edge :: "time \<Rightarrow> groupMatch \<Rightarrow> BulkEdge" where
  "same_as_edge now m =
     \<lparr>be_SourceID = gm_low m, be_TargetID = gm_high m, be_Edge =
       \<lparr>e_ID = sameAsEdgeID (gm_low m) (gm_high m), e_Label = ''SAME_AS'',
        e_Properties = [(''similarity_score'', VFloat (Fin (gm_score m))), (''matched_at'', VString (FormatTime now)),
                        (''algorithm_version'', VString ReconcileAlgorithmVersion)],
        e_ValidFrom = now, e_ValidTo = None, e_DeterminedBy = ''artifact-reconciler'',
        e_DeterminationType = ''token_overlap'', e_Confidence = Fin (gm_score m), e_Supersedes = []\<rparr>\<rparr>"

definition planWrites ::
    "artifactGroup list \<Rightarrow> groupMatch list \<Rightarrow> Relationship list \<Rightarrow> Relationship list \<Rightarrow> time
     \<Rightarrow> Node list \<times> BulkEdge list \<times> BulkEdge list" where
  "planWrites groups matches storedMembers storedSameAs now =
     (let storedEdges = map (\<lambda>r. e_ID (r_Edge r)) storedMembers @ map (\<lambda>r. e_ID (r_Edge r)) storedSameAs;
          storedGroups = map (\<lambda>r. n_ID (r_Target r)) storedMembers;
          missing = (\<lambda>be. e_ID (be_Edge be) \<notin> set storedEdges)
      in (map (group_node now) (filter (\<lambda>gr. ag_id gr \<notin> set storedGroups) groups),
          filter missing (concat (map (\<lambda>gr. map (member_edge now gr) (ag_members gr)) groups)),
          filter missing (map (same_as_edge now) matches)))"

definition pairCandidates :: "artifactGroup list \<Rightarrow> groupMatch list \<Rightarrow> PairCandidate list" where
  "pairCandidates groups matches =
     (let byID = (\<lambda>i. the (find (\<lambda>gr. ag_id gr = i) groups)) in
      map (\<lambda>m. \<lparr>pa_LowGroupID = gm_low m, pa_HighGroupID = gm_high m,
                pa_CandidateEdgeID = sameAsEdgeID (gm_low m) (gm_high m), pa_SimilarityScore = gm_score m,
                pa_Context = \<lparr>pc_Type = ag_typ (byID (gm_low m)), pc_LowName = ag_name (byID (gm_low m)),
                              pc_HighName = ag_name (byID (gm_high m)), pc_LowSamples = ag_samples (byID (gm_low m)),
                              pc_HighSamples = ag_samples (byID (gm_high m))\<rparr>\<rparr>) matches)"

text \<open>\<^verbatim>\<open>errors.As\<close> for a batch error, and \<^verbatim>\<open>errors.Is\<close> for the two sentinels the reconciler tolerates.\<close>

fun as_bulk_error :: "graph_error \<Rightarrow> (nat \<times> graph_error) option" where
  "as_bulk_error (BulkEdgeError i err) = Some (i, err)"
| "as_bulk_error (Wrapped _ err) = as_bulk_error err"
| "as_bulk_error _ = None"

fun is_edge_exists :: "graph_error \<Rightarrow> bool" where
  "is_edge_exists (ErrEdgeExists _) = True"
| "is_edge_exists (Wrapped _ err) = is_edge_exists err"
| "is_edge_exists (BulkEdgeError _ err) = is_edge_exists err"
| "is_edge_exists _ = False"

fun is_node_exists :: "graph_error \<Rightarrow> bool" where
  "is_node_exists (ErrNodeExists _ _) = True"
| "is_node_exists (Wrapped _ err) = is_node_exists err"
| "is_node_exists (BulkEdgeError _ err) = is_node_exists err"
| "is_node_exists _ = False"

type_synonym 's bulk_write = "'s \<Rightarrow> BulkEdge list \<Rightarrow> 's \<times> (graph_error + string list)"

text \<open>
  The inner loop of \<^verbatim>\<open>writeEdges\<close>, for one chunk: an edge that exists is dropped and the
  rest retried. \<open>None\<close> is the panic of \<^verbatim>\<open>slices.Delete\<close> for an index outside the chunk.
\<close>

function write_chunk :: "'s bulk_write \<Rightarrow> 's \<Rightarrow> BulkEdge list \<Rightarrow> ('s \<times> (graph_error + nat)) option" where
  "write_chunk bulk c chunk =
     (if chunk = [] then Some (c, Inr 0)
      else (case bulk c chunk of
              (c', Inr _) \<Rightarrow> Some (c', Inr (length chunk))
            | (c', Inl err) \<Rightarrow>
                (case as_bulk_error err of
                   None \<Rightarrow> Some (c', Inl err)
                 | Some (i, e) \<Rightarrow>
                     if \<not> is_edge_exists e then Some (c', Inl err)
                     else if i < length chunk then write_chunk bulk c' (take i chunk @ drop (Suc i) chunk)
                     else None)))"
  by pat_completeness auto

termination
  by (relation "measure (\<lambda>(bulk, c, chunk). length chunk)") auto

declare write_chunk.simps [simp del]

text \<open>
  The outer loop: \<open>None\<close> also stands for not returning, which a chunk size of zero would do.
\<close>

partial_function (option) write_from ::
    "'s bulk_write \<Rightarrow> BulkEdge list \<Rightarrow> int \<Rightarrow> int \<Rightarrow> nat \<Rightarrow> 's \<Rightarrow> ('s \<times> nat \<times> (int \<times> int \<times> graph_error) option) option" where
  "write_from bulk edges sz start created c =
     (if start \<ge> int (length edges) then Some (c, created, None)
      else let stop = min (start + sz) (int (length edges)) in
        if stop < start then None
        else (case write_chunk bulk c (take (nat (stop - start)) (drop (nat start) edges)) of
                None \<Rightarrow> None
              | Some (c', Inl err) \<Rightarrow> Some (c', created, Some (start, stop - 1, err))
              | Some (c', Inr n) \<Rightarrow> write_from bulk edges sz (start + sz) (created + n) c'))"

definition writeEdges ::
    "'s bulk_write \<Rightarrow> 's \<Rightarrow> BulkEdge list \<Rightarrow> int \<Rightarrow> ('s \<times> nat \<times> (int \<times> int \<times> graph_error) option) option" where
  "writeEdges bulk c edges sz = write_from bulk edges sz 0 0 c"

text \<open>Creating the group nodes: the store, how many were created, and the error that ended the loop.\<close>

fun create_groups :: "memClient \<Rightarrow> string \<Rightarrow> Node list \<Rightarrow> memClient \<times> nat \<times> (string \<times> graph_error) option" where
  "create_groups c tenantID [] = (c, 0, None)"
| "create_groups c tenantID (n # ns) =
     (case CreateNode c tenantID n of
        (c', None) \<Rightarrow> (case create_groups c' tenantID ns of (c'', k, err) \<Rightarrow> (c'', Suc k, err))
      | (c', Some err) \<Rightarrow> if is_node_exists err then create_groups c' tenantID ns else (c', 0, Some (n_ID n, err)))"

datatype 'e reconcile_error =
    InvalidOptions int int
  | LoadArtifactsFailed graph_error
  | LoadClosedPairsFailed 'e
  | LoadMembersFailed graph_error
  | LoadSameAsFailed graph_error
  | TooManyEdges nat int
  | CreateGroupFailed string graph_error
  | WriteMembersFailed int int graph_error
  | WriteSameAsFailed int int graph_error
  | EnqueueFailed 'e

definition memberQuery :: RelationshipQuery where
  "memberQuery =
     \<lparr>q_SourceLabel = ''Artifact'', q_TargetLabel = ''ArtifactGroup'', q_EdgeLabel = ''MEMBER_OF'', q_Properties = []\<rparr>"

definition sameAsQuery :: RelationshipQuery where
  "sameAsQuery =
     \<lparr>q_SourceLabel = ''ArtifactGroup'', q_TargetLabel = ''ArtifactGroup'', q_EdgeLabel = ''SAME_AS'', q_Properties = []\<rparr>"

definition empty_result :: ReconcileResult where
  "empty_result =
     \<lparr>rr_Artifacts = 0, rr_Skipped = 0, rr_Groups = 0, rr_NewGroups = 0, rr_NewMemberships = 0, rr_Matches = 0,
      rr_Closed = 0, rr_NewMatches = 0\<rparr>"

text \<open>The writes of a run, once they are planned.\<close>

definition reconcile_writes ::
    "memClient \<Rightarrow> string \<Rightarrow> int \<Rightarrow> Node list \<Rightarrow> BulkEdge list \<Rightarrow> BulkEdge list \<Rightarrow> 'e option \<Rightarrow> ReconcileResult
     \<Rightarrow> (memClient \<times> ReconcileResult \<times> 'e reconcile_error option) option" where
  "reconcile_writes c tenantID sz newGroups memberships sameAs enqueued res =
     (case create_groups c tenantID newGroups of
        (c1, k, Some (i, err)) \<Rightarrow> Some (c1, res\<lparr>rr_NewGroups := k\<rparr>, Some (CreateGroupFailed i err))
      | (c1, k, None) \<Rightarrow>
          let res = res\<lparr>rr_NewGroups := k\<rparr> in
          (case writeEdges (\<lambda>c. BulkCreateEdges c tenantID) c1 memberships sz of
             None \<Rightarrow> None
           | Some (c2, k, Some (a, b, err)) \<Rightarrow> Some (c2, res\<lparr>rr_NewMemberships := k\<rparr>, Some (WriteMembersFailed a b err))
           | Some (c2, k, None) \<Rightarrow>
               let res = res\<lparr>rr_NewMemberships := k\<rparr> in
               (case writeEdges (\<lambda>c. BulkCreateEdges c tenantID) c2 sameAs sz of
                  None \<Rightarrow> None
                | Some (c3, k, Some (a, b, err)) \<Rightarrow> Some (c3, res\<lparr>rr_NewMatches := k\<rparr>, Some (WriteSameAsFailed a b err))
                | Some (c3, k, None) \<Rightarrow>
                    Some (c3, res\<lparr>rr_NewMatches := k\<rparr>, map_option EnqueueFailed enqueued))))"

definition Reconcile ::
    "('e + string set) \<Rightarrow> (PairCandidate list \<Rightarrow> 'e option) \<Rightarrow> memClient \<Rightarrow> string \<Rightarrow> ReconcileOptions
     \<Rightarrow> (memClient \<times> ReconcileResult \<times> 'e reconcile_error option) option" where
  "Reconcile closedPairs enqueue c tenantID opts =
     (if ro_MaxEdges opts \<le> 0 \<or> ro_ChunkSize opts \<le> 0 \<or> IsZero (ro_Now opts)
      then Some (c, empty_result, Some (InvalidOptions (ro_MaxEdges opts) (ro_ChunkSize opts)))
      else case loadGroups c tenantID of
        Inl err \<Rightarrow> Some (c, empty_result, Some (LoadArtifactsFailed err))
      | Inr (groups, loaded, skipped) \<Rightarrow>
          let matches = matchGroups groups;
              res = empty_result\<lparr>rr_Artifacts := loaded, rr_Skipped := skipped, rr_Groups := length groups,
                                 rr_Matches := length matches\<rparr>
          in case closedPairs of
            Inl err \<Rightarrow> Some (c, res, Some (LoadClosedPairsFailed err))
          | Inr closedSet \<Rightarrow>
              let opened = filter (\<lambda>m. PairKey (gm_low m) (gm_high m) \<notin> closedSet) matches;
                  res = res\<lparr>rr_Closed := length (filter (\<lambda>m. PairKey (gm_low m) (gm_high m) \<in> closedSet) matches)\<rparr>
              in case QueryRelationships c tenantID memberQuery of
                Inl err \<Rightarrow> Some (c, res, Some (LoadMembersFailed err))
              | Inr storedMembers \<Rightarrow>
                case QueryRelationships c tenantID sameAsQuery of
                  Inl err \<Rightarrow> Some (c, res, Some (LoadSameAsFailed err))
                | Inr storedSameAs \<Rightarrow>
                    (case planWrites groups opened storedMembers storedSameAs (ro_Now opts) of
                       (newGroups, memberships, sameAs) \<Rightarrow>
                         if int (length sameAs) > ro_MaxEdges opts
                         then Some (c, res, Some (TooManyEdges (length sameAs) (ro_MaxEdges opts)))
                         else if ro_DryRun opts
                         then Some (c, res\<lparr>rr_NewGroups := length newGroups, rr_NewMemberships := length memberships,
                                           rr_NewMatches := length sameAs\<rparr>, None)
                         else reconcile_writes c tenantID (ro_ChunkSize opts) newGroups memberships sameAs
                                (enqueue (pairCandidates groups opened)) res))"

subsection \<open>The index finds every match\<close>

lemma set_index_token: "set (index_token i k idx k') = (if k' = k then insert i (set (idx k)) else set (idx k'))"
  unfolding index_token_def using last_in_set [of "idx k"] by auto

lemma set_index_tokens:
  "set (fold (\<lambda>tok. index_token i (typ, tok)) toks idx (ty, tok)) =
     set (idx (ty, tok)) \<union> (if ty = typ \<and> tok \<in> set toks then {i} else {})"
  by (induction toks arbitrary: idx) (auto simp: set_index_token)

lemma set_index_groups:
  "set (fold index_group ps idx (ty, tok)) =
     set (idx (ty, tok)) \<union> {i. \<exists>gr. (i, gr) \<in> set ps \<and> ag_typ gr = ty \<and> tok \<in> tokens (ag_name gr)}"
proof (induction ps arbitrary: idx)
  case (Cons p ps)
  obtain i gr where p: "p = (i, gr)" by (cases p)
  have "set (index_group p idx (ty, tok)) =
      set (idx (ty, tok)) \<union> (if ty = ag_typ gr \<and> tok \<in> tokens (ag_name gr) then {i} else {})"
    by (simp add: index_group_def p set_index_tokens tokens_def)
  with Cons.IH [of "index_group p idx"] show ?case by (auto simp: p)
qed simp

lemma zip_positions: "zip [0..<length xs] xs = map (\<lambda>i. (i, xs ! i)) [0..<length xs]"
  by (rule nth_equalityI) simp_all

lemma set_build_index:
  "set (build_index groups (ty, tok)) =
     {i. i < length groups \<and> ag_typ (groups ! i) = ty \<and> tok \<in> tokens (ag_name (groups ! i))}"
proof -
  have "(i, gr) \<in> set (zip [0..<length groups] groups) \<longleftrightarrow> i < length groups \<and> gr = groups ! i" for i gr
    unfolding zip_positions by auto
  then show ?thesis unfolding build_index_def set_index_groups by auto
qed

definition shares_token :: "artifactGroup \<Rightarrow> artifactGroup \<Rightarrow> bool" where
  "shares_token a b \<longleftrightarrow> ag_typ a = ag_typ b \<and> tokens (ag_name a) \<inter> tokens (ag_name b) \<noteq> {}"

lemma set_index_candidates:
  "set (index_candidates (build_index groups) i gr) = {j. i < j \<and> j < length groups \<and> shares_token gr (groups ! j)}"
  unfolding index_candidates_def by (auto simp: set_build_index shares_token_def tokens_def)

text \<open>The reference: every pair of groups of one type, in order.\<close>

definition all_pair_matches :: "artifactGroup list \<Rightarrow> groupMatch list" where
  "all_pair_matches groups =
     concat (map (\<lambda>i. map (\<lambda>j. \<lparr>gm_low = ag_id (groups ! i), gm_high = ag_id (groups ! j),
                              gm_score = TokenOverlap (ag_name (groups ! i)) (ag_name (groups ! j))\<rparr>)
                       (filter (\<lambda>j. ag_typ (groups ! j) = ag_typ (groups ! i) \<and>
                                    TokenOverlap (ag_name (groups ! i)) (ag_name (groups ! j)) \<ge> reconcileThreshold)
                               [Suc i..<length groups]))
             [0..<length groups])"

lemma overlap_shares:
  "ag_typ a = ag_typ b \<Longrightarrow> reconcileThreshold \<le> TokenOverlap (ag_name a) (ag_name b) \<Longrightarrow> shares_token a b"
  by (auto simp: TokenOverlap_card shares_token_def reconcileThreshold_def split: if_splits)

lemma filter_candidates:
  "filter (\<lambda>j. TokenOverlap (ag_name (groups ! i)) (ag_name (groups ! j)) \<ge> reconcileThreshold)
      (index_candidates (build_index groups) i (groups ! i)) =
   filter (\<lambda>j. ag_typ (groups ! j) = ag_typ (groups ! i) \<and>
      TokenOverlap (ag_name (groups ! i)) (ag_name (groups ! j)) \<ge> reconcileThreshold) [Suc i..<length groups]"
  (is "filter ?P ?xs = filter ?Q ?ys")
proof (rule sorted_distinct_set_unique)
  show "sorted (filter ?P ?xs)" "distinct (filter ?P ?xs)"
    by (simp_all add: index_candidates_def sorted_filter [where f = "\<lambda>x. x", simplified])
  show "sorted (filter ?Q ?ys)" "distinct (filter ?Q ?ys)"
    by (simp_all add: sorted_filter [where f = "\<lambda>x. x", simplified])
  show "set (filter ?P ?xs) = set (filter ?Q ?ys)"
    using overlap_shares [of "groups ! i"] by (auto simp: set_index_candidates shares_token_def)
qed

lemma matchGroups_all_pairs: "matchGroups groups = all_pair_matches groups"
  unfolding matchGroups_def all_pair_matches_def Let_def zip_positions by (simp add: filter_candidates comp_def)

lemma set_pairs:
  "m \<in> set (concat (map (\<lambda>i. map (f i) (filter (P i) [Suc i..<n])) [0..<n])) \<longleftrightarrow>
     (\<exists>i j. i < j \<and> j < n \<and> P i j \<and> m = f i j)"
proof -
  have row: "m \<in> set (map (f i) (filter (P i) [Suc i..<n])) \<longleftrightarrow> (\<exists>j. i < j \<and> j < n \<and> P i j \<and> m = f i j)" for i
    unfolding set_map set_filter image_iff by (simp only: mem_Collect_eq set_upt atLeastLessThan_iff Suc_le_eq Bex_def conj_assoc)
  have "m \<in> set (concat (map g [0..<n])) \<longleftrightarrow> (\<exists>i<n. m \<in> set (g i))" for g by (induction n) (auto simp: less_Suc_eq)
  then have "m \<in> set (concat (map (\<lambda>i. map (f i) (filter (P i) [Suc i..<n])) [0..<n])) \<longleftrightarrow>
      (\<exists>i<n. \<exists>j. i < j \<and> j < n \<and> P i j \<and> m = f i j)" by (simp only: row)
  also have "\<dots> \<longleftrightarrow> (\<exists>i j. i < j \<and> j < n \<and> P i j \<and> m = f i j)"
    by (intro iffI; elim exE conjE) (use less_trans in blast)+
  finally show ?thesis .
qed

text \<open>
  C38. Matching through the inverted token index returns exactly the matches, in the same
  order, that comparing every pair of groups of one type would return.
\<close>

theorem match_groups_all_pairs:
  "matchGroups groups = all_pair_matches groups
   \<and> (m \<in> set (matchGroups groups) \<longleftrightarrow>
       (\<exists>i j. i < j \<and> j < length groups \<and> ag_typ (groups ! j) = ag_typ (groups ! i)
          \<and> reconcileThreshold \<le> TokenOverlap (ag_name (groups ! i)) (ag_name (groups ! j))
          \<and> m = \<lparr>gm_low = ag_id (groups ! i), gm_high = ag_id (groups ! j),
                 gm_score = TokenOverlap (ag_name (groups ! i)) (ag_name (groups ! j))\<rparr>))"
  unfolding matchGroups_all_pairs unfolding all_pair_matches_def set_pairs by (simp only: conj_assoc simp_thms)

end
