(* ===== verification/Reconcile_Runs.thy ===== *)
theory Reconcile_Runs
  imports Artifact_Reconcile
begin

text \<open>
  Whole runs of the artifact reconciler over the in-memory graph store: a run always
  returns, only adds to the graph, and a second run over the result writes nothing.

  The loop that writes edges in chunks relies on a few laws of the batch write of a
  graph store only; they are the locale \<open>bulk_writer\<close>, and the in-memory driver is
  shown to satisfy them.
\<close>

subsection \<open>Writing in chunks\<close>

text \<open>
  \<open>grows\<close> relates a store to a later one, \<open>ready\<close> says that the ends of an edge exist
  and its label may be used, \<open>taken\<close> that an edge identifier is in use.
\<close>

locale bulk_writer =
  fixes bulk :: "'s bulk_write"
    and grows :: "'s \<Rightarrow> 's \<Rightarrow> bool"
    and addable :: "BulkEdge \<Rightarrow> bool"
    and ready :: "'s \<Rightarrow> BulkEdge \<Rightarrow> bool"
    and taken :: "'s \<Rightarrow> string \<Rightarrow> bool"
    and valid :: "BulkEdge \<Rightarrow> bool"
    and eid :: "BulkEdge \<Rightarrow> string"
  assumes grows_refl: "grows c c"
    and grows_trans: "grows c d \<Longrightarrow> grows d d' \<Longrightarrow> grows c d'"
    and ready_mono: "grows c d \<Longrightarrow> ready c be \<Longrightarrow> ready d be"
    and taken_mono: "grows c d \<Longrightarrow> taken c x \<Longrightarrow> taken d x"
    and bulk_grows: "bulk c es = (d, r) \<Longrightarrow> \<forall>be\<in>set es. addable be \<Longrightarrow> grows c d"
    and bulk_accepts: "bulk c es = (d, Inr ids) \<Longrightarrow> be \<in> set es \<Longrightarrow> ready d be \<and> taken d (eid be)"
    and bulk_exists: "bulk c es = (d, Inl err) \<Longrightarrow> as_bulk_error err = Some (i, e) \<Longrightarrow> is_edge_exists e \<Longrightarrow>
      i < length es \<and> ready d (es ! i) \<and> (taken d (eid (es ! i)) \<or> eid (es ! i) \<in> eid ` set (take i es))"
    and bulk_idle: "es \<noteq> [] \<Longrightarrow> \<forall>be\<in>set es. valid be \<and> ready c be \<and> taken c (eid be) \<Longrightarrow>
      \<exists>err e. bulk c es = (c, Inl err) \<and> as_bulk_error err = Some (0, e) \<and> is_edge_exists e"
begin

lemma write_chunk_result:
  assumes "\<forall>be\<in>set es. addable be"
  shows "\<exists>d r. write_chunk bulk c es = Some (d, r) \<and> grows c d \<and>
    (\<forall>n. r = Inr n \<longrightarrow> n \<le> length es \<and> (\<forall>be\<in>set es. ready d be \<and> taken d (eid be)))"
  using assms
proof (induction "length es" arbitrary: es c rule: less_induct)
  case less
  show ?case
  proof (cases "es = []")
    case True
    then have "write_chunk bulk c es = Some (c, Inr 0)" by (simp add: write_chunk.simps [of bulk c "[]"])
    with True show ?thesis using grows_refl by simp
  next
    case ne: False
    obtain d r where d: "bulk c es = (d, r)" by (cases "bulk c es")
    have cd: "grows c d" by (rule bulk_grows [OF d less.prems])
    show ?thesis
    proof (cases r)
      case (Inr ids)
      then have "\<forall>be\<in>set es. ready d be \<and> taken d (eid be)" using bulk_accepts d by blast
      then show ?thesis using ne d Inr cd by (simp add: write_chunk.simps [of bulk c es])
    next
      case (Inl err)
      show ?thesis
      proof (cases "\<exists>i e. as_bulk_error err = Some (i, e) \<and> is_edge_exists e")
        case False
        then show ?thesis
          using ne d Inl cd by (auto simp: write_chunk.simps [of bulk c es] split: option.splits)
      next
        case True
        then obtain i e where ie: "as_bulk_error err = Some (i, e)" "is_edge_exists e" by blast
        note ex = bulk_exists [OF d [unfolded Inl] ie]
        let ?es = "take i es @ drop (Suc i) es"
        have split: "es = take i es @ es ! i # drop (Suc i) es" using ex by (simp add: id_take_nth_drop)
        have len: "length ?es < length es" using ex by auto
        have sub: "set ?es \<subseteq> set es" using set_take_subset set_drop_subset by fastforce
        with len obtain d' r' where d': "write_chunk bulk d ?es = Some (d', r')" "grows d d'"
          and res: "\<forall>n. r' = Inr n \<longrightarrow> n \<le> length ?es \<and> (\<forall>be\<in>set ?es. ready d' be \<and> taken d' (eid be))"
          using less.hyps [of ?es d] less.prems by blast
        have eq: "write_chunk bulk c es = Some (d', r')"
          using ne d Inl ie ex d'(1) by (simp add: write_chunk.simps [of bulk c es])
        have "ready d' be \<and> taken d' (eid be)" if "r' = Inr n" "be \<in> set es" for n be
        proof (cases "be \<in> set ?es")
          case False
          then have "be = es ! i" using that(2) by (subst (asm) split) auto
          moreover have "taken d' (eid (es ! i))"
            using ex res that(1) taken_mono [OF d'(2)] by auto
          ultimately show ?thesis using ex ready_mono [OF d'(2)] by blast
        qed (use res that(1) in blast)
        moreover have "n \<le> length es" if "r' = Inr n" for n
          using res that len by fastforce
        ultimately show ?thesis using eq grows_trans [OF cd d'(2)] by blast
      qed
    qed
  qed
qed

lemma write_chunk_idle:
  assumes "\<forall>be\<in>set es. valid be \<and> ready c be \<and> taken c (eid be)"
  shows "write_chunk bulk c es = Some (c, Inr 0)"
  using assms
proof (induction es)
  case Nil
  then show ?case by (simp add: write_chunk.simps)
next
  case (Cons be es)
  obtain err e where "bulk c (be # es) = (c, Inl err)" "as_bulk_error err = Some (0, e)" "is_edge_exists e"
    using bulk_idle [of "be # es" c] Cons.prems by blast
  then show ?case using Cons by (simp add: write_chunk.simps [of bulk c "be # es"])
qed

lemma drop_chunk:
  assumes "0 \<le> start" "0 < sz"
  shows "drop (nat start) es =
    take (nat (min (start + sz) (int (length es)) - start)) (drop (nat start) es) @ drop (nat (start + sz)) es"
proof (cases "start + sz \<le> int (length es)")
  case True
  then have "nat (min (start + sz) (int (length es)) - start) = nat sz" "nat (start + sz) = nat sz + nat start"
    using assms by (simp_all add: nat_add_distrib)
  then show ?thesis by (metis append_take_drop_id drop_drop)
next
  case False
  then have "length (drop (nat start) es) \<le> nat (min (start + sz) (int (length es)) - start)"
    "length es \<le> nat (start + sz)" using assms by auto
  then show ?thesis by simp
qed

lemma write_from_result:
  assumes "0 < sz" "0 \<le> start" "\<forall>be\<in>set es. addable be"
  shows "\<exists>d n r. write_from bulk es sz start created c = Some (d, n, r) \<and> grows c d \<and>
    n \<le> created + length (drop (nat start) es) \<and>
    (r = None \<longrightarrow> (\<forall>be\<in>set (drop (nat start) es). ready d be \<and> taken d (eid be)))"
  using assms(2)
proof (induction "nat (int (length es) - start)" arbitrary: start created c rule: less_induct)
  case less
  show ?case
  proof (cases "start \<ge> int (length es)")
    case True
    then show ?thesis by (simp add: write_from.simps [of bulk es sz start created c] grows_refl)
  next
    case False
    let ?stop = "min (start + sz) (int (length es))"
    let ?chunk = "take (nat (?stop - start)) (drop (nat start) es)"
    have nostop: "\<not> ?stop < start" using False assms(1) by linarith
    have split: "drop (nat start) es = ?chunk @ drop (nat (start + sz)) es"
      by (rule drop_chunk [OF less.prems assms(1)])
    have "set ?chunk \<subseteq> set es" using set_take_subset set_drop_subset by (meson order_trans)
    then have "\<forall>be\<in>set ?chunk. addable be" using assms(3) by blast
    then obtain d r where d: "write_chunk bulk c ?chunk = Some (d, r)" "grows c d"
      and res: "\<forall>n. r = Inr n \<longrightarrow> n \<le> length ?chunk \<and> (\<forall>be\<in>set ?chunk. ready d be \<and> taken d (eid be))"
      using write_chunk_result by blast
    show ?thesis
    proof (cases r)
      case (Inl err)
      then show ?thesis
        using False nostop d by (simp add: write_from.simps [of bulk es sz start created c] Let_def)
    next
      case (Inr k)
      have "nat (int (length es) - (start + sz)) < nat (int (length es) - start)" "0 \<le> start + sz"
        using False assms(1) less.prems by auto
      then obtain e n s where e: "write_from bulk es sz (start + sz) (created + k) d = Some (e, n, s)" "grows d e"
        and n: "n \<le> created + k + length (drop (nat (start + sz)) es)"
        and rest: "s = None \<longrightarrow> (\<forall>be\<in>set (drop (nat (start + sz)) es). ready e be \<and> taken e (eid be))"
        using less.hyps [of "start + sz" "created + k" d] by auto
      have eq: "write_from bulk es sz start created c = Some (e, n, s)"
        using False nostop d Inr e by (simp add: write_from.simps [of bulk es sz start created c] Let_def)
      have "n \<le> created + length (drop (nat start) es)"
      proof -
        have "k \<le> length ?chunk" using res Inr by blast
        moreover have "length (drop (nat start) es) = length ?chunk + length (drop (nat (start + sz)) es)"
          by (subst split) (rule length_append)
        ultimately show ?thesis using n by linarith
      qed
      moreover have "ready e be \<and> taken e (eid be)" if "s = None" "be \<in> set (drop (nat start) es)" for be
      proof -
        have "be \<in> set ?chunk \<or> be \<in> set (drop (nat (start + sz)) es)" using that(2) by (subst (asm) split) auto
        then show ?thesis using res Inr rest that(1) ready_mono [OF e(2)] taken_mono [OF e(2)] by blast
      qed
      ultimately show ?thesis using eq grows_trans [OF d(2) e(2)] by blast
    qed
  qed
qed

lemma write_from_idle:
  assumes "0 < sz" "0 \<le> start" "\<forall>be\<in>set es. valid be \<and> ready c be \<and> taken c (eid be)"
  shows "write_from bulk es sz start created c = Some (c, created, None)"
  using assms(2)
proof (induction "nat (int (length es) - start)" arbitrary: start rule: less_induct)
  case less
  show ?case
  proof (cases "start \<ge> int (length es)")
    case False
    let ?stop = "min (start + sz) (int (length es))"
    let ?chunk = "take (nat (?stop - start)) (drop (nat start) es)"
    have "\<not> ?stop < start" using False assms(1) by linarith
    moreover have "set ?chunk \<subseteq> set es" using set_take_subset set_drop_subset by (meson order_trans)
    then have "write_chunk bulk c ?chunk = Some (c, Inr 0)" using assms(3) by (intro write_chunk_idle) blast
    moreover have "write_from bulk es sz (start + sz) created c = Some (c, created, None)"
      using less False assms(1) by simp
    ultimately show ?thesis using False by (simp add: write_from.simps [of bulk es sz start created c] Let_def)
  qed (simp add: write_from.simps [of bulk es sz start created c])
qed

lemma writeEdges_result:
  assumes "0 < sz" "\<forall>be\<in>set es. addable be"
  shows "\<exists>d n r. writeEdges bulk c es sz = Some (d, n, r) \<and> grows c d \<and> n \<le> length es \<and>
    (r = None \<longrightarrow> (\<forall>be\<in>set es. ready d be \<and> taken d (eid be)))"
  using write_from_result [OF assms(1) _ assms(2), of 0 0 c] by (simp add: writeEdges_def)

lemma writeEdges_idle:
  assumes "0 < sz" "\<forall>be\<in>set es. valid be \<and> ready c be \<and> taken c (eid be)"
  shows "writeEdges bulk c es sz = Some (c, 0, None)"
  using write_from_idle [OF assms(1) _ assms(2)] by (simp add: writeEdges_def)

end

subsection \<open>The in-memory store as a batch writer\<close>

definition grown :: "memGraph \<Rightarrow> memGraph \<Rightarrow> bool" where
  "grown g g' \<longleftrightarrow>
     (\<exists>ns es. g_nodes g' = g_nodes g @ ns \<and> g_edges g' = g_edges g @ es
        \<and> (\<forall>e\<in>set es. me_label e = ''MEMBER_OF'' \<or> me_label e = ''SAME_AS''))
     \<and> g_labelKinds g \<subseteq>\<^sub>m g_labelKinds g'"

definition store_grows :: "string \<Rightarrow> memClient \<Rightarrow> memClient \<Rightarrow> bool" where
  "store_grows t c c' \<longleftrightarrow>
     (\<forall>u. u \<noteq> t \<longrightarrow> c' u = c u) \<and>
     (case c t of None \<Rightarrow> c' t = None | Some g \<Rightarrow> (\<exists>g'. c' t = Some g' \<and> grown g g'))"

definition edge_addable :: "BulkEdge \<Rightarrow> bool" where
  "edge_addable be \<longleftrightarrow> e_Label (be_Edge be) = ''MEMBER_OF'' \<or> e_Label (be_Edge be) = ''SAME_AS''"

definition bulk_eid :: "BulkEdge \<Rightarrow> string" where
  "bulk_eid be = stringProp (edgeProps (be_Edge be)) ''id''"

definition edge_valid :: "BulkEdge \<Rightarrow> bool" where
  "edge_valid be \<longleftrightarrow> CheckEdge (be_SourceID be) (be_TargetID be) (be_Edge be) = None \<and> bulk_eid be \<noteq> []"

definition ready_in :: "memGraph \<Rightarrow> BulkEdge \<Rightarrow> bool" where
  "ready_in g be \<longleftrightarrow>
     be_SourceID be \<noteq> [] \<and> be_TargetID be \<noteq> []
     \<and> nodeByID g (be_SourceID be) \<noteq> None \<and> nodeByID g (be_TargetID be) \<noteq> None
     \<and> g_labelKinds g (e_Label (be_Edge be)) = Some ''edge''"

definition edge_ready :: "string \<Rightarrow> memClient \<Rightarrow> BulkEdge \<Rightarrow> bool" where
  "edge_ready t c be \<longleftrightarrow> (\<exists>g. graph_of c t = Inr g \<and> ready_in g be)"

definition edge_taken :: "string \<Rightarrow> memClient \<Rightarrow> string \<Rightarrow> bool" where
  "edge_taken t c i \<longleftrightarrow> (\<exists>g. graph_of c t = Inr g \<and> i \<in> edge_id ` set (g_edges g))"

lemma grown_refl: "grown g g"
  by (simp add: grown_def)

lemma grown_trans: "grown g h \<Longrightarrow> grown h k \<Longrightarrow> grown g k"
proof -
  assume gh: "grown g h" and hk: "grown h k"
  obtain ns es where 1: "g_nodes h = g_nodes g @ ns" "g_edges h = g_edges g @ es"
    "\<forall>e\<in>set es. me_label e = ''MEMBER_OF'' \<or> me_label e = ''SAME_AS''" using gh unfolding grown_def by blast
  obtain ms fs where 2: "g_nodes k = g_nodes h @ ms" "g_edges k = g_edges h @ fs"
    "\<forall>e\<in>set fs. me_label e = ''MEMBER_OF'' \<or> me_label e = ''SAME_AS''" using hk unfolding grown_def by blast
  have "g_nodes k = g_nodes g @ (ns @ ms)" "g_edges k = g_edges g @ (es @ fs)"
    "\<forall>e\<in>set (es @ fs). me_label e = ''MEMBER_OF'' \<or> me_label e = ''SAME_AS''" using 1 2 by auto
  moreover have "g_labelKinds g \<subseteq>\<^sub>m g_labelKinds k" using gh hk map_le_trans unfolding grown_def by blast
  ultimately show "grown g k" unfolding grown_def by blast
qed

lemma store_grows_refl: "store_grows t c c"
  by (simp add: store_grows_def grown_refl split: option.split)

lemma store_grows_trans: "store_grows t c d \<Longrightarrow> store_grows t d e \<Longrightarrow> store_grows t c e"
  unfolding store_grows_def by (auto intro: grown_trans split: option.splits)

lemma store_grows_graph:
  assumes "store_grows t c d" "graph_of c t = Inr g"
  obtains g' where "graph_of d t = Inr g'" "grown g g'"
  using assms unfolding store_grows_def by (auto simp: graph_of_def split: option.splits)

lemma store_grows_put: "graph_of c t = Inr g \<Longrightarrow> grown g g' \<Longrightarrow> store_grows t c (c(t := Some g'))"
  using graph_of_Inr [of c t g] by (simp add: store_grows_def)

lemma find_index_append_Some: "find_index P xs = Some i \<Longrightarrow> find_index P (xs @ ys) = Some i"
  by (induction xs arbitrary: i) (auto split: if_splits)

lemma nodeByID_grown: "grown g g' \<Longrightarrow> nodeByID g i = Some n \<Longrightarrow> nodeByID g' i = Some n"
  unfolding grown_def nodeByID_def using find_index_append_Some by auto

lemma kinds_grown: "grown g g' \<Longrightarrow> g_labelKinds g l = Some k \<Longrightarrow> g_labelKinds g' l = Some k"
  unfolding grown_def by (metis domI map_le_def)

lemma ready_in_grown: "grown g g' \<Longrightarrow> ready_in g be \<Longrightarrow> ready_in g' be"
  using nodeByID_grown kinds_grown unfolding ready_in_def by fastforce

lemma edge_ready_mono: "store_grows t c d \<Longrightarrow> edge_ready t c be \<Longrightarrow> edge_ready t d be"
  unfolding edge_ready_def by (metis ready_in_grown store_grows_graph)

lemma edge_taken_mono:
  assumes "store_grows t c d" "edge_taken t c i"
  shows "edge_taken t d i"
proof -
  obtain g where g: "graph_of c t = Inr g" "i \<in> edge_id ` set (g_edges g)" using assms(2) by (auto simp: edge_taken_def)
  obtain g' where g': "graph_of d t = Inr g'" "grown g g'" using assms(1) g(1) by (rule store_grows_graph)
  then have "set (g_edges g) \<subseteq> set (g_edges g')" by (auto simp: grown_def)
  with g g' show ?thesis unfolding edge_taken_def by blast
qed

text \<open>Errors of the checks are never the sentinel for an existing edge.\<close>

lemma first_error_Some: "first_error chk xs = Some e \<Longrightarrow> \<exists>x\<in>set xs. chk x = Some e"
  by (induction xs) (auto split: option.splits)

lemma CheckLabel_not_exists: "CheckLabel kind s = Some e \<Longrightarrow> \<not> is_edge_exists e \<and> \<not> is_node_exists e"
  by (auto simp: CheckLabel_def CheckIdentifier_def split: if_splits)

lemma checkWritten_not_exists:
  "checkWrittenProperties ps reserved = Some e \<Longrightarrow> \<not> is_edge_exists e \<and> \<not> is_node_exists e"
  by (auto simp: checkWrittenProperties_def CheckPropertyKeys_def CheckIdentifier_def
      dest!: first_error_Some split: option.splits if_splits)

lemma CheckEdge_not_exists: "CheckEdge src tgt e = Some err \<Longrightarrow> \<not> is_edge_exists err"
  using CheckLabel_not_exists checkWritten_not_exists
  by (auto simp: CheckEdge_def CheckEdgeProperties_def split: option.splits if_splits)

lemma CheckNode_not_exists: "CheckNode n = Some err \<Longrightarrow> \<not> is_node_exists err"
  using CheckLabel_not_exists checkWritten_not_exists
  by (auto simp: CheckNode_def CheckNodeProperties_def split: option.splits if_splits)

lemma bulk_check_error: "bulk_check i bes = Some err \<Longrightarrow> \<exists>j e. err = BulkEdgeError j e \<and> \<not> is_edge_exists e"
  by (induction bes arbitrary: i) (auto dest: CheckEdge_not_exists split: option.splits)

lemma graph_of_error: "graph_of c t = Inl err \<Longrightarrow> as_bulk_error err = None \<and> \<not> is_node_exists err"
  by (auto simp: graph_of_def CheckTenant_def split: option.splits if_splits)

lemma bulk_labels_error: "bulk_labels g bes = (g', Some err) \<Longrightarrow> as_bulk_error err = None"
proof (induction bes arbitrary: g)
  case (Cons be bes)
  obtain g1 r where g1: "useLabel g (e_Label (be_Edge be)) ''edge'' = (g1, r)"
    by (cases "useLabel g (e_Label (be_Edge be)) ''edge''")
  with Cons show ?case
    by (cases rule: useLabel_cases [OF g1]) auto
qed simp

text \<open>One batch, past the checks: its loop either adds every edge or stops at one.\<close>

lemma bulk_add_accepts:
  assumes "bulk_add i g bes = (g', Inr ids)" "be \<in> set bes"
  shows "nodeByID g' (be_SourceID be) \<noteq> None \<and> nodeByID g' (be_TargetID be) \<noteq> None
    \<and> bulk_eid be \<in> edge_id ` set (g_edges g')"
  using assms
proof (induction bes arbitrary: i g ids)
  case (Cons b bes)
  obtain g1 where g1: "add_bulk_edge g b = Inr g1" using Cons.prems(1) by (auto split: sum.splits)
  obtain ids' where rest: "bulk_add (Suc i) g1 bes = (g', Inr ids')"
    using Cons.prems(1) g1 by (auto split: prod.splits sum.splits)
  show ?case
  proof (cases "be \<in> set bes")
    case False
    then have be: "be = b" using Cons.prems(2) by simp
    obtain es n where g': "g' = g1\<lparr>g_edges := g_edges g1 @ es, g_lastSeq := n\<rparr>"
      using bulk_add_extends [OF rest] by blast
    from g1 show ?thesis
      by (rule addEdge_cases) (simp add: be g' nodeByID_def bulk_eid_def edge_id_def)
  qed (use Cons.IH [OF rest] in blast)
qed simp

lemma bulk_add_exists:
  assumes "bulk_add i g bes = (g', Inl err)"
  shows "\<exists>k e. err = BulkEdgeError (i + k) e \<and> (is_edge_exists e \<longrightarrow> k < length bes
    \<and> nodeByID g (be_SourceID (bes ! k)) \<noteq> None \<and> nodeByID g (be_TargetID (bes ! k)) \<noteq> None
    \<and> (bulk_eid (bes ! k) \<in> edge_id ` set (g_edges g) \<or> bulk_eid (bes ! k) \<in> bulk_eid ` set (take k bes)))"
  using assms
proof (induction bes arbitrary: i g)
  case (Cons b bes)
  show ?case
  proof (cases "add_bulk_edge g b")
    case (Inl e)
    then have err: "err = BulkEdgeError (i + 0) e" using Cons.prems by simp
    have "is_edge_exists e \<longrightarrow> nodeByID g (be_SourceID b) \<noteq> None \<and> nodeByID g (be_TargetID b) \<noteq> None
        \<and> bulk_eid b \<in> edge_id ` set (g_edges g)"
      using Inl by (auto simp: addEdge_def resolveNode_def bulk_eid_def edge_id_def list_ex_iff image_iff Let_def
          split: option.splits if_splits) (metis)+
    then show ?thesis using err by (intro exI [of _ 0] exI [of _ e]) simp
  next
    case (Inr g1)
    then have "bulk_add (Suc i) g1 bes = (g', Inl err)" using Cons.prems by (auto split: prod.splits sum.splits)
    from Cons.IH [OF this] obtain k e where k: "err = BulkEdgeError (Suc i + k) e"
      "is_edge_exists e \<longrightarrow> k < length bes \<and> nodeByID g1 (be_SourceID (bes ! k)) \<noteq> None
        \<and> nodeByID g1 (be_TargetID (bes ! k)) \<noteq> None
        \<and> (bulk_eid (bes ! k) \<in> edge_id ` set (g_edges g1) \<or> bulk_eid (bes ! k) \<in> bulk_eid ` set (take k bes))"
      by blast
    have "nodeByID g1 = nodeByID g" "edge_id ` set (g_edges g1) = insert (bulk_eid b) (edge_id ` set (g_edges g))"
      using Inr by (rule addEdge_cases; simp add: nodeByID_def [abs_def] bulk_eid_def edge_id_def)+
    then show ?thesis using k by (intro exI [of _ "Suc k"] exI [of _ e]) auto
  qed
qed simp

definition passes :: "BulkEdge list \<Rightarrow> bool" where
  "passes es \<longleftrightarrow> (\<forall>be\<in>set es. CheckEdge (be_SourceID be) (be_TargetID be) (be_Edge be) = None)"

lemma BulkCreateEdges_cases:
  assumes "BulkCreateEdges c t es = (d, r)"
  obtains (empty) "es = []" "d = c" "r = Inr []"
    | (unchanged) err where "d = c" "r = Inl err" "\<And>i e. as_bulk_error err = Some (i, e) \<Longrightarrow> \<not> is_edge_exists e"
    | (labels) g g1 err where "graph_of c t = Inr g" "bulk_labels g es = (g1, Some err)" "d = c(t := Some g1)" "r = Inl err"
    | (added) g g1 g2 ids where "passes es" "graph_of c t = Inr g" "bulk_labels g es = (g1, None)"
        "bulk_add 0 g1 es = (g2, Inr ids)" "d = c(t := Some g2)" "r = Inr ids"
    | (stopped) g g1 g2 err where "passes es" "graph_of c t = Inr g" "bulk_labels g es = (g1, None)"
        "bulk_add 0 g1 es = (g2, Inl err)" "d = c(t := Some g1)" "r = Inl err"
proof (cases "es = []")
  case True
  then show thesis
    using assms empty unchanged
    by (auto simp: BulkCreateEdges_def CheckTenant_def split: option.splits if_splits)
next
  case ne: False
  show thesis
  proof (cases "bulk_check 0 es")
    case (Some err)
    then show thesis
      using assms ne unchanged bulk_check_error [OF Some] by (auto simp: BulkCreateEdges_def)
  next
    case chk: None
    then have ok: "passes es" by (simp add: passes_def bulk_check_None)
    show thesis
    proof (cases "graph_of c t")
      case (Inl err)
      then show thesis using assms ne chk unchanged graph_of_error [OF Inl] by (auto simp: BulkCreateEdges_def)
    next
      case g: (Inr g)
      obtain g1 s where g1: "bulk_labels g es = (g1, s)" by (cases "bulk_labels g es")
      obtain g2 q where g2: "bulk_add 0 g1 es = (g2, q)" by (cases "bulk_add 0 g1 es")
      show thesis
      proof (cases s)
        case (Some err)
        then have "d = c(t := Some g1)" "r = Inl err"
          using assms ne chk g g1 by (simp_all add: BulkCreateEdges_def)
        then show thesis using labels [OF g] g1 Some by blast
      next
        case None
        note undone = bulk_add_rollback [OF g2]
        show thesis
        proof (cases q)
          case (Inl err)
          then have "d = c(t := Some g1)" "r = Inl err"
            using assms ne chk g g1 g2 None undone by (simp_all add: BulkCreateEdges_def Let_def)
          then show thesis using stopped [OF ok g] g1 g2 None Inl by blast
        next
          case (Inr ids)
          then have "d = c(t := Some g2)" "r = Inr ids"
            using assms ne chk g g1 g2 None by (simp_all add: BulkCreateEdges_def Let_def)
          then show thesis using added [OF ok g] g1 g2 None Inr by blast
        qed
      qed
    qed
  qed
qed

lemma bulk_labels_grown: "bulk_labels g es = (g', r) \<Longrightarrow> grown g g'"
  using bulk_labels_frame [of g es g' r] by (simp add: grown_def)

lemma bulk_add_grown:
  assumes "bulk_add i g es = (g', r)" "\<forall>be\<in>set es. edge_addable be"
  shows "grown g g'"
proof -
  obtain fs n where g': "g' = g\<lparr>g_edges := g_edges g @ fs, g_lastSeq := n\<rparr>"
    and fs: "me_label ` set fs \<subseteq> (\<lambda>be. e_Label (be_Edge be)) ` set es"
    using bulk_add_extends [OF assms(1)] by blast
  have "\<forall>e\<in>set fs. me_label e = ''MEMBER_OF'' \<or> me_label e = ''SAME_AS''"
  proof
    fix e
    assume "e \<in> set fs"
    then have "me_label e \<in> (\<lambda>be. e_Label (be_Edge be)) ` set es" using fs by (simp only: subsetD image_eqI)
    then obtain be where "be \<in> set es" "me_label e = e_Label (be_Edge be)" by (elim imageE)
    then show "me_label e = ''MEMBER_OF'' \<or> me_label e = ''SAME_AS''" using assms(2) by (simp only: edge_addable_def)
  qed
  then show ?thesis unfolding grown_def by (simp add: g')
qed

lemma mem_bulk_grows:
  assumes "BulkCreateEdges c t es = (d, r)" "\<forall>be\<in>set es. edge_addable be"
  shows "store_grows t c d"
  using assms(1)
proof (cases rule: BulkCreateEdges_cases)
  case (added g g1 g2 ids)
  have "grown g g2" using grown_trans [OF bulk_labels_grown [OF added(3)] bulk_add_grown [OF added(4) assms(2)]] .
  then show ?thesis unfolding added(5) by (rule store_grows_put [OF added(2)])
next
  case (labels g g1 err)
  show ?thesis unfolding labels(3) by (rule store_grows_put [OF labels(1) bulk_labels_grown [OF labels(2)]])
next
  case (stopped g g1 g2 err)
  show ?thesis unfolding stopped(5) by (rule store_grows_put [OF stopped(2) bulk_labels_grown [OF stopped(3)]])
qed (simp_all add: store_grows_refl)

lemma graph_of_put: "graph_of c t = Inr g \<Longrightarrow> graph_of (c(t := Some g')) t = Inr g'"
  using graph_of_Inr [of c t g] by (simp add: graph_of_def)

lemma labels_ready:
  assumes "passes es" "bulk_labels g es = (g1, None)" "be \<in> set es" "grown g1 g2"
    "nodeByID g2 (be_SourceID be) \<noteq> None" "nodeByID g2 (be_TargetID be) \<noteq> None"
  shows "ready_in g2 be"
proof -
  have "g_labelKinds g1 (e_Label (be_Edge be)) = Some ''edge''" using bulk_labels_frame [OF assms(2)] assms(3) by blast
  moreover have "be_SourceID be \<noteq> []" "be_TargetID be \<noteq> []" using assms(1,3) by (auto simp: passes_def CheckEdge_None)
  ultimately show ?thesis using assms kinds_grown by (simp add: ready_in_def)
qed

lemma bulk_add_kinds: "bulk_add i g es = (g', r) \<Longrightarrow> g_labelKinds g' = g_labelKinds g"
  using bulk_add_extends [of i g es g' r] by auto

lemma mem_bulk_accepts:
  assumes "BulkCreateEdges c t es = (d, Inr ids)" "be \<in> set es"
  shows "edge_ready t d be \<and> edge_taken t d (bulk_eid be)"
  using assms(1)
proof (cases rule: BulkCreateEdges_cases)
  case (added g g1 g2 ids')
  note acc = bulk_add_accepts [OF added(4) assms(2)]
  have "g_labelKinds g2 (e_Label (be_Edge be)) = Some ''edge''"
    using bulk_labels_frame [OF added(3)] assms(2) bulk_add_kinds [OF added(4)] by auto
  moreover have "be_SourceID be \<noteq> []" "be_TargetID be \<noteq> []" using added(1) assms(2) by (auto simp: passes_def CheckEdge_None)
  ultimately have "ready_in g2 be" using acc by (simp add: ready_in_def)
  moreover have "graph_of d t = Inr g2" using graph_of_put [OF added(2)] added(5) by simp
  ultimately show ?thesis using acc by (auto simp: edge_ready_def edge_taken_def)
qed (use assms in auto)

lemma mem_bulk_exists:
  assumes "BulkCreateEdges c t es = (d, Inl err)" "as_bulk_error err = Some (i, e)" "is_edge_exists e"
  shows "i < length es \<and> edge_ready t d (es ! i)
    \<and> (edge_taken t d (bulk_eid (es ! i)) \<or> bulk_eid (es ! i) \<in> bulk_eid ` set (take i es))"
  using assms(1)
proof (cases rule: BulkCreateEdges_cases)
  case (labels g g1 err')
  then show ?thesis using bulk_labels_error assms(2) by fastforce
next
  case (stopped g g1 g2 err')
  have g1: "graph_of d t = Inr g1" using graph_of_put [OF stopped(2)] stopped(5) by simp
  obtain k e' where "err' = BulkEdgeError (0 + k) e'" and k: "is_edge_exists e' \<longrightarrow> k < length es
      \<and> nodeByID g1 (be_SourceID (es ! k)) \<noteq> None \<and> nodeByID g1 (be_TargetID (es ! k)) \<noteq> None
      \<and> (bulk_eid (es ! k) \<in> edge_id ` set (g_edges g1) \<or> bulk_eid (es ! k) \<in> bulk_eid ` set (take k es))"
    using bulk_add_exists [OF stopped(4)] by blast
  then have "i = k" "e' = e" using stopped(6) assms(2) by auto
  with k assms(3) have i: "i < length es" "nodeByID g1 (be_SourceID (es ! i)) \<noteq> None"
      "nodeByID g1 (be_TargetID (es ! i)) \<noteq> None"
      "bulk_eid (es ! i) \<in> edge_id ` set (g_edges g1) \<or> bulk_eid (es ! i) \<in> bulk_eid ` set (take i es)" by auto
  have "ready_in g1 (es ! i)"
    by (rule labels_ready [OF stopped(1,3) _ grown_refl i(2,3)]) (simp add: i(1))
  then show ?thesis using g1 i unfolding edge_ready_def edge_taken_def by blast
qed (use assms in auto)

lemma bulk_labels_known:
  "\<forall>be\<in>set es. g_labelKinds g (e_Label (be_Edge be)) = Some ''edge'' \<Longrightarrow> bulk_labels g es = (g, None)"
  by (induction es) (simp_all add: useLabel_def)

lemma mem_bulk_idle:
  assumes "es \<noteq> []" "\<forall>be\<in>set es. edge_valid be \<and> edge_ready t c be \<and> edge_taken t c (bulk_eid be)"
  shows "\<exists>err e. BulkCreateEdges c t es = (c, Inl err) \<and> as_bulk_error err = Some (0, e) \<and> is_edge_exists e"
proof -
  obtain be rest where es: "es = be # rest" using assms(1) by (cases es) auto
  then have be: "edge_valid be" "edge_ready t c be" "edge_taken t c (bulk_eid be)" using assms(2) by auto
  then obtain g where g: "graph_of c t = Inr g" by (auto simp: edge_ready_def)
  have ready: "\<forall>b\<in>set es. ready_in g b" using assms(2) g by (auto simp: edge_ready_def)
  have labels: "bulk_labels g es = (g, None)" using ready by (intro bulk_labels_known) (simp add: ready_in_def)
  have chk: "bulk_check 0 es = None" using assms(2) by (simp add: bulk_check_None edge_valid_def)
  have "bulk_eid be \<in> edge_id ` set (g_edges g)" using be(3) g by (auto simp: edge_taken_def)
  then have "list_ex (\<lambda>e. stringProp (me_props e) ''id'' = bulk_eid be) (g_edges g)"
    by (auto simp: list_ex_iff edge_id_def)
  moreover have "ready_in g be" using ready es by simp
  ultimately have "add_bulk_edge g be = Inl (ErrEdgeExists (bulk_eid be))"
    using be(1) by (auto simp: addEdge_def resolveNode_def ready_in_def edge_valid_def bulk_eid_def Let_def)
  then have "bulk_add 0 g es = (g, Inl (BulkEdgeError 0 (ErrEdgeExists (bulk_eid be))))" by (simp add: es)
  moreover have "c(t := Some g) = c" using graph_of_Inr [OF g] by (auto simp: fun_upd_idem)
  ultimately have "BulkCreateEdges c t es = (c, Inl (BulkEdgeError 0 (ErrEdgeExists (bulk_eid be))))"
    using assms(1) chk labels unfolding BulkCreateEdges_def g by (simp add: Let_def)
  then show ?thesis by simp
qed

interpretation mem_writer: bulk_writer "\<lambda>c. BulkCreateEdges c t" "store_grows t" edge_addable "edge_ready t" "edge_taken t"
    edge_valid bulk_eid for t
proof (rule bulk_writer.intro)
  show "store_grows t c c" for c by (rule store_grows_refl)
  show "store_grows t c d \<Longrightarrow> store_grows t d d' \<Longrightarrow> store_grows t c d'" for c d d' by (rule store_grows_trans)
  show "store_grows t c d \<Longrightarrow> edge_ready t c be \<Longrightarrow> edge_ready t d be" for c d be by (rule edge_ready_mono)
  show "store_grows t c d \<Longrightarrow> edge_taken t c x \<Longrightarrow> edge_taken t d x" for c d x by (rule edge_taken_mono)
  show "BulkCreateEdges c t es = (d, r) \<Longrightarrow> \<forall>be\<in>set es. edge_addable be \<Longrightarrow> store_grows t c d" for c es d r
    by (rule mem_bulk_grows)
  show "BulkCreateEdges c t es = (d, Inr ids) \<Longrightarrow> be \<in> set es \<Longrightarrow> edge_ready t d be \<and> edge_taken t d (bulk_eid be)"
    for c es d ids be by (rule mem_bulk_accepts)
  show "BulkCreateEdges c t es = (d, Inl err) \<Longrightarrow> as_bulk_error err = Some (i, e) \<Longrightarrow> is_edge_exists e \<Longrightarrow>
      i < length es \<and> edge_ready t d (es ! i)
      \<and> (edge_taken t d (bulk_eid (es ! i)) \<or> bulk_eid (es ! i) \<in> bulk_eid ` set (take i es))" for c es d err i e
    by (rule mem_bulk_exists)
  show "es \<noteq> [] \<Longrightarrow> \<forall>be\<in>set es. edge_valid be \<and> edge_ready t c be \<and> edge_taken t c (bulk_eid be) \<Longrightarrow>
      \<exists>err e. BulkCreateEdges c t es = (c, Inl err) \<and> as_bulk_error err = Some (0, e) \<and> is_edge_exists e" for es c
    by (rule mem_bulk_idle)
qed

subsection \<open>Creating the group nodes\<close>

text \<open>The node of a group is stored under its label.\<close>

definition noded :: "string \<Rightarrow> memClient \<Rightarrow> Node \<Rightarrow> bool" where
  "noded t c n \<longleftrightarrow> n_ID n \<noteq> [] \<and>
     (\<exists>g i. graph_of c t = Inr g \<and> nodeByID g (n_ID n) = Some i \<and> mn_label (g_nodes g ! i) = n_Label n
        \<and> g_labelKinds g (n_Label n) = Some ''node'')"

lemma noded_mono:
  assumes "store_grows t c d" "noded t c n"
  shows "noded t d n"
proof -
  obtain g i where g: "graph_of c t = Inr g" "nodeByID g (n_ID n) = Some i" "mn_label (g_nodes g ! i) = n_Label n"
    "g_labelKinds g (n_Label n) = Some ''node''" "n_ID n \<noteq> []" using assms(2) by (auto simp: noded_def)
  obtain g' where g': "graph_of d t = Inr g'" "grown g g'" using assms(1) g(1) by (rule store_grows_graph)
  have "g_nodes g' ! i = g_nodes g ! i" using g'(2) nodeByID_Some [OF g(2)] by (auto simp: grown_def nth_append)
  then show ?thesis
    using g g' nodeByID_grown [OF g'(2) g(2)] kinds_grown [OF g'(2) g(4)] by (auto simp: noded_def)
qed

lemma CreateNode_result:
  assumes "CreateNode c t n = (d, r)"
  shows "store_grows t c d \<and> ((case r of None \<Rightarrow> True | Some err \<Rightarrow> is_node_exists err) \<longrightarrow> noded t d n)"
proof (cases "CheckNode n")
  case (Some err)
  then show ?thesis using assms CheckNode_not_exists [OF Some] by (auto simp: CreateNode_def store_grows_refl)
next
  case chk: None
  show ?thesis
  proof (cases "graph_of c t")
    case (Inl err)
    then show ?thesis using assms chk graph_of_error [OF Inl] by (auto simp: CreateNode_def store_grows_refl)
  next
    case (Inr g0)
    obtain g s where g: "useLabel g0 (n_Label n) ''node'' = (g, s)" by (cases "useLabel g0 (n_Label n) ''node''")
    have gr: "grown g0 g" using useLabel_frame [OF g] by (simp add: grown_def)
    have id: "n_ID n \<noteq> []" using chk by (simp add: CheckNode_None)
    show ?thesis
    proof (cases s)
      case (Some err)
      have "\<not> is_node_exists err" using Some by (cases rule: useLabel_cases [OF g]) auto
      with assms chk Inr g Some show ?thesis
        using store_grows_put [OF Inr gr] by (auto simp: CreateNode_def)
    next
      case None
      note kind = useLabel_frame(5) [OF g None]
      show ?thesis
      proof (cases "nodeByID g (n_ID n)")
        case (Some i)
        then have d: "d = c(t := Some g)" and r: "r \<noteq> None"
          "mn_label (g_nodes g ! i) \<noteq> n_Label n \<longrightarrow> \<not> is_node_exists (the r)"
          using assms chk Inr g None by (auto simp: CreateNode_def Let_def)
        then show ?thesis
          using Some kind id graph_of_put [OF Inr, of g] store_grows_put [OF Inr gr] by (auto simp: noded_def)
      next
        case free: None
        let ?n = "\<lparr>mn_label = n_Label n, mn_props = nodeProps n\<rparr>"
        let ?g = "g\<lparr>g_nodes := g_nodes g @ [?n]\<rparr>"
        have d: "d = c(t := Some ?g)" using assms chk Inr g None free by (auto simp: CreateNode_def)
        have "nodeByID ?g (n_ID n) = Some (length (g_nodes g))"
          using free nodeProps_stored(1) [OF chk] unfolding nodeByID_def by (simp add: find_index_append stringProp_def)
        moreover have "grown g ?g" by (simp add: grown_def)
        ultimately show ?thesis
          using kind id graph_of_put [OF Inr, of ?g] store_grows_put [OF Inr grown_trans [OF gr]]
          unfolding d noded_def by (auto simp: nth_append)
      qed
    qed
  qed
qed

lemma CreateNode_idle:
  assumes "CheckNode n = None" "noded t c n"
  shows "\<exists>err. CreateNode c t n = (c, Some err) \<and> is_node_exists err"
proof -
  obtain g i where g: "graph_of c t = Inr g" "nodeByID g (n_ID n) = Some i" "mn_label (g_nodes g ! i) = n_Label n"
    "g_labelKinds g (n_Label n) = Some ''node''" using assms(2) by (auto simp: noded_def)
  have "c(t := Some g) = c" using graph_of_Inr [OF g(1)] by (auto simp: fun_upd_idem)
  then show ?thesis using g assms(1) by (simp add: CreateNode_def useLabel_def)
qed

lemma create_groups_result:
  assumes "create_groups c t ns = (d, k, r)"
  shows "store_grows t c d \<and> (r = None \<longrightarrow> (\<forall>n\<in>set ns. noded t d n))"
  using assms
proof (induction ns arbitrary: c d k)
  case Nil
  then show ?case by (simp add: store_grows_refl)
next
  case (Cons n ns)
  obtain c1 s where c1: "CreateNode c t n = (c1, s)" by (cases "CreateNode c t n")
  note step = CreateNode_result [OF c1]
  show ?case
  proof (cases "case s of None \<Rightarrow> True | Some err \<Rightarrow> is_node_exists err")
    case True
    then obtain k' where "create_groups c1 t ns = (d, k', r)"
      using Cons.prems c1 by (auto split: option.splits prod.splits)
    from Cons.IH [OF this] step True show ?thesis
      using store_grows_trans noded_mono by (simp only: set_simps ball_simps) blast
  next
    case False
    then show ?thesis using Cons.prems c1 step by (auto split: option.splits)
  qed
qed

lemma create_groups_idle:
  assumes "\<forall>n\<in>set ns. CheckNode n = None \<and> noded t c n"
  shows "create_groups c t ns = (c, 0, None)"
  using assms
proof (induction ns)
  case (Cons n ns)
  then obtain err where "CreateNode c t n = (c, Some err)" "is_node_exists err" using CreateNode_idle by (meson list.set_intros(1))
  with Cons show ?case by simp
qed simp

subsection \<open>One run\<close>

lemma plan_addable:
  assumes "planWrites groups ms sm ss now = (ng, mem, sam)"
  shows "\<forall>be\<in>set mem. edge_addable be" "\<forall>be\<in>set sam. edge_addable be"
  using assms by (auto simp: planWrites_def Let_def edge_addable_def member_edge_def same_as_edge_def)

lemma reconcile_writes_result:
  assumes "0 < sz" "\<forall>be\<in>set mem. edge_addable be" "\<forall>be\<in>set sam. edge_addable be" "rr_NewMatches res = 0"
  shows "\<exists>c' res' err. reconcile_writes c t sz ng mem sam q res = Some (c', res', err) \<and> store_grows t c c'
    \<and> rr_NewMatches res' \<le> length sam
    \<and> rr_Artifacts res' = rr_Artifacts res \<and> rr_Groups res' = rr_Groups res \<and> rr_Matches res' = rr_Matches res
    \<and> (err = None \<longrightarrow> (\<forall>n\<in>set ng. noded t c' n)
        \<and> (\<forall>be\<in>set mem \<union> set sam. edge_ready t c' be \<and> edge_taken t c' (bulk_eid be)))"
proof -
  obtain c1 k r where c1: "create_groups c t ng = (c1, k, r)" by (cases "create_groups c t ng")
  note g1 = create_groups_result [OF c1]
  obtain c2 k2 r2 where c2: "writeEdges (\<lambda>c. BulkCreateEdges c t) c1 mem sz = Some (c2, k2, r2)" "store_grows t c1 c2"
    and m2: "r2 = None \<longrightarrow> (\<forall>be\<in>set mem. edge_ready t c2 be \<and> edge_taken t c2 (bulk_eid be))"
    using mem_writer.writeEdges_result [OF assms(1,2)] by blast
  obtain c3 k3 r3 where c3: "writeEdges (\<lambda>c. BulkCreateEdges c t) c2 sam sz = Some (c3, k3, r3)" "store_grows t c2 c3"
    and k3: "k3 \<le> length sam"
    and m3: "r3 = None \<longrightarrow> (\<forall>be\<in>set sam. edge_ready t c3 be \<and> edge_taken t c3 (bulk_eid be))"
    using mem_writer.writeEdges_result [OF assms(1,3)] by blast
  have s12: "store_grows t c c2" and s13: "store_grows t c c3" and s23: "store_grows t c1 c3"
    using g1 c2(2) c3(2) store_grows_trans by blast+
  show ?thesis
  proof (cases r)
    case (Some p)
    then show ?thesis using g1 c1 assms(4) by (cases p) (simp add: reconcile_writes_def)
  next
    case r: None
    show ?thesis
    proof (cases r2)
      case (Some p)
      then show ?thesis using s12 c1 r c2 assms(4) by (cases p) (simp add: reconcile_writes_def Let_def)
    next
      case r2: None
      show ?thesis
      proof (cases r3)
        case (Some p)
        then show ?thesis using s13 c1 r c2 r2 c3 k3 by (cases p) (simp add: reconcile_writes_def Let_def)
      next
        case r3: None
        have "\<forall>n\<in>set ng. noded t c3 n" using g1 r noded_mono [OF s23] by blast
        moreover have "\<forall>be\<in>set mem. edge_ready t c3 be \<and> edge_taken t c3 (bulk_eid be)"
          using m2 r2 edge_ready_mono [OF c3(2)] edge_taken_mono [OF c3(2)] by blast
        ultimately show ?thesis
          using s13 c1 r c2 r2 c3 r3 k3 m3 by (simp add: reconcile_writes_def Let_def) blast
      qed
    qed
  qed
qed

lemma reconcile_writes_idle:
  assumes "0 < sz" "\<forall>n\<in>set ng. CheckNode n = None \<and> noded t c n"
    and "\<forall>be\<in>set mem \<union> set sam. edge_valid be \<and> edge_ready t c be \<and> edge_taken t c (bulk_eid be)"
  shows "reconcile_writes c t sz ng mem sam q res =
    Some (c, res\<lparr>rr_NewGroups := 0, rr_NewMemberships := 0, rr_NewMatches := 0\<rparr>, map_option EnqueueFailed q)"
proof -
  have "writeEdges (\<lambda>c. BulkCreateEdges c t) c mem sz = Some (c, 0, None)"
    "writeEdges (\<lambda>c. BulkCreateEdges c t) c sam sz = Some (c, 0, None)"
    using assms(3) by (intro mem_writer.writeEdges_idle [OF assms(1)]; blast)+
  then show ?thesis using create_groups_idle [OF assms(2)] by (simp add: reconcile_writes_def Let_def)
qed

lemma reconcile_queries_ok:
  "CheckRelationshipQuery demandsQuery = None" "CheckRelationshipQuery memberQuery = None" "CheckRelationshipQuery sameAsQuery = None"
  by code_simp+

text \<open>A run past its checks, with everything it reads made explicit.\<close>

definition open_matches :: "string set \<Rightarrow> artifactGroup list \<Rightarrow> groupMatch list" where
  "open_matches S groups = filter (\<lambda>m. PairKey (gm_low m) (gm_high m) \<notin> S) (matchGroups groups)"

definition plan_of :: "string set \<Rightarrow> memGraph \<Rightarrow> time \<Rightarrow> Node list \<times> BulkEdge list \<times> BulkEdge list" where
  "plan_of S g now =
     planWrites (fst (groups_of (relationships g demandsQuery None)))
       (open_matches S (fst (groups_of (relationships g demandsQuery None))))
       (relationships g memberQuery None) (relationships g sameAsQuery None) now"

definition counts_of :: "string set \<Rightarrow> memGraph \<Rightarrow> ReconcileResult" where
  "counts_of S g =
     (let (groups, loaded, skipped) = groups_of (relationships g demandsQuery None); matches = matchGroups groups in
      empty_result\<lparr>rr_Artifacts := loaded, rr_Skipped := skipped, rr_Groups := length groups, rr_Matches := length matches,
                   rr_Closed := length (filter (\<lambda>m. PairKey (gm_low m) (gm_high m) \<in> S) matches)\<rparr>)"

lemma Reconcile_run:
  assumes "0 < ro_MaxEdges opts" "0 < ro_ChunkSize opts" "ro_Now opts \<noteq> 0" "graph_of c t = Inr g"
    and "plan_of S g (ro_Now opts) = (ng, mem, sam)"
  shows "Reconcile (Inr S) enqueue c t opts =
    (if int (length sam) > ro_MaxEdges opts
     then Some (c, counts_of S g, Some (TooManyEdges (length sam) (ro_MaxEdges opts)))
     else if ro_DryRun opts
     then Some (c, (counts_of S g)\<lparr>rr_NewGroups := length ng, rr_NewMemberships := length mem, rr_NewMatches := length sam\<rparr>, None)
     else reconcile_writes c t (ro_ChunkSize opts) ng mem sam
       (enqueue (let groups = fst (groups_of (relationships g demandsQuery None)) in pairCandidates groups (open_matches S groups)))
       (counts_of S g))"
proof -
  obtain groups l sk where gs: "groups_of (relationships g demandsQuery None) = (groups, l, sk)"
    by (cases "groups_of (relationships g demandsQuery None)")
  have q: "QueryRelationships c t demandsQuery = Inr (relationships g demandsQuery None)"
    "QueryRelationships c t memberQuery = Inr (relationships g memberQuery None)"
    "QueryRelationships c t sameAsQuery = Inr (relationships g sameAsQuery None)"
    by (simp_all add: QueryRelationships_def reconcile_queries_ok assms(4))
  have plan: "planWrites groups (filter (\<lambda>m. PairKey (gm_low m) (gm_high m) \<notin> S) (matchGroups groups))
      (relationships g memberQuery None) (relationships g sameAsQuery None) (ro_Now opts) = (ng, mem, sam)"
    using assms(5) by (simp add: plan_of_def open_matches_def gs)
  show ?thesis
    using assms(1-3) unfolding Reconcile_def loadGroups_def q
    by (simp add: gs IsZero_def plan counts_of_def open_matches_def Let_def)
qed

lemma counts_of_NewMatches [simp]: "rr_NewMatches (counts_of S g) = 0"
  by (simp add: counts_of_def empty_result_def Let_def split: prod.split)

lemma Reconcile_stops:
  assumes "\<not> (0 < ro_MaxEdges opts \<and> 0 < ro_ChunkSize opts \<and> ro_Now opts \<noteq> 0 \<and> (\<exists>g. graph_of c t = Inr g) \<and> (\<exists>S. cp = Inr S))"
  shows "\<exists>res err. Reconcile cp enqueue c t opts = Some (c, res, Some err) \<and> rr_NewMatches res = 0"
proof (cases "ro_MaxEdges opts \<le> 0 \<or> ro_ChunkSize opts \<le> 0 \<or> IsZero (ro_Now opts)")
  case True
  then show ?thesis by (auto simp: Reconcile_def empty_result_def)
next
  case valid: False
  show ?thesis
  proof (cases "graph_of c t")
    case (Inl err)
    then show ?thesis
      using valid by (simp add: Reconcile_def loadGroups_def QueryRelationships_def reconcile_queries_ok empty_result_def)
  next
    case (Inr g)
    with assms valid obtain err where "cp = Inl err" by (cases cp) (auto simp: IsZero_def)
    with valid Inr show ?thesis
      by (cases "groups_of (relationships g demandsQuery None)")
        (simp add: Reconcile_def loadGroups_def QueryRelationships_def reconcile_queries_ok empty_result_def)
  qed
qed

text \<open>Concrete data for the witnesses: a control that demands one artifact.\<close>

definition sample_artifact :: Node where
  "sample_artifact =
     \<lparr>n_ID = ''a1'', n_Label = ''Artifact'',
      n_Properties = [(''name'', VString ''Policy''), (''type'', VString ''document'')],
      n_ValidFrom = 62135596800000000000, n_ValidTo = None, n_CreatedBy = ''job'', n_CreationMethod = []\<rparr>"

definition sample_demand :: Edge where
  "sample_demand = (sample_edge ''d1'')\<lparr>e_Label := ''DEMANDS''\<rparr>"

definition sample_demands :: memGraph where
  "sample_demands =
     \<lparr>g_nodes = [\<lparr>mn_label = ''Control'', mn_props = nodeProps (sample_node ''c1'')\<rparr>,
                \<lparr>mn_label = ''Artifact'', mn_props = nodeProps sample_artifact\<rparr>],
      g_edges = [\<lparr>me_label = ''DEMANDS'', me_props = edgeProps sample_demand, me_source = 0, me_target = 1, me_seq = 1\<rparr>],
      g_lastSeq = 1, g_labelKinds = [''Control'' \<mapsto> ''node'', ''Artifact'' \<mapsto> ''node'', ''DEMANDS'' \<mapsto> ''edge'']\<rparr>"

definition sample_options :: ReconcileOptions where
  "sample_options = \<lparr>ro_DryRun = False, ro_MaxEdges = 10, ro_ChunkSize = 2, ro_Now = 62135596900000000000\<rparr>"

definition sample_group :: artifactGroup where
  "sample_group =
     \<lparr>ag_id = DerivedID [''artifact-group'', ''document'', ''policy''], ag_name = ''policy'', ag_typ = ''document'',
      ag_members = [''a1''], ag_samples = [\<lparr>ms_Name = ''Policy'', ms_OwnerRole = [], ms_Frequency = []\<rparr>]\<rparr>"

lemma sample_stored:
  "CheckNode (sample_node ''c1'') = None" "CheckNode sample_artifact = None" "CheckEdge ''c1'' ''a1'' sample_demand = None"
  "CheckTenant ''acme'' = None"
  by code_simp+

lemma sample_artifact_props:
  "map_of (nodeProps sample_artifact) ''id'' = Some (VString ''a1'')" "map_of (nodeProps sample_artifact) ''valid_to'' = None"
  "map_of (nodeProps sample_artifact) ''name'' = Some (VString ''Policy'')"
  "map_of (nodeProps sample_artifact) ''type'' = Some (VString ''document'')"
  "map_of (nodeProps sample_artifact) ''owner_role'' = None" "map_of (nodeProps sample_artifact) ''frequency'' = None"
  "map_of (nodeProps (sample_node ''c1'')) ''id'' = Some (VString ''c1'')"
  "map_of (edgeProps sample_demand) ''valid_to'' = None" "map_of (edgeProps sample_demand) ''id'' = Some (VString ''d1'')"
proof -
  note st = nodeProps_stored [OF sample_stored(2)] and ed = edgeProps_stored [OF sample_stored(3)]
  show "map_of (nodeProps sample_artifact) ''id'' = Some (VString ''a1'')" "map_of (nodeProps sample_artifact) ''valid_to'' = None"
    using st(1,3) by (simp_all add: sample_artifact_def)
  show "map_of (nodeProps sample_artifact) ''name'' = Some (VString ''Policy'')"
    "map_of (nodeProps sample_artifact) ''type'' = Some (VString ''document'')"
    using node_property_stored [of sample_artifact] by (simp_all add: sample_artifact_def)
  show "map_of (nodeProps sample_artifact) ''owner_role'' = None" "map_of (nodeProps sample_artifact) ''frequency'' = None"
    by (simp_all add: nodeProps_def sample_artifact_def write_props_def put_time_def put_if_def)
  show "map_of (nodeProps (sample_node ''c1'')) ''id'' = Some (VString ''c1'')"
    using nodeProps_stored(1) [OF sample_stored(1)] by (simp add: sample_node_def)
  show "map_of (edgeProps sample_demand) ''valid_to'' = None" "map_of (edgeProps sample_demand) ''id'' = Some (VString ''d1'')"
    using ed(1,3) by (simp_all add: sample_demand_def sample_edge_def)
qed

lemma sample_wf: "wf_client [''acme'' \<mapsto> sample_demands]"
proof -
  have "safe_label ''Control''" "safe_label ''Artifact''" "safe_label ''DEMANDS''" by code_simp+
  then have "wf_graph sample_demands"
    using nodeProps_stored(7) [OF sample_stored(1)] nodeProps_stored(7) [OF sample_stored(2)] edgeProps_stored(4) [OF sample_stored(3)]
    by (simp add: wf_graph_def sample_demands_def node_ok_def edge_ok_def node_id_def edge_id_def stringProp_def sample_artifact_props)
  then show ?thesis by (simp add: wf_client_def sample_stored(4))
qed

lemma sample_groups: "groups_of (relationships sample_demands demandsQuery None) = ([sample_group], 1, 0)"
proof -
  have "NormalizeArtifactName ''Policy'' = ''policy''" "ToLower (TrimSpace ''document'') = ''document''" by code_simp+
  then show ?thesis
    by (simp add: groups_of_def relationships_def sample_demands_def rel_selected_def matchesProps_def demandsQuery_def
        sample_artifact_props load_step_def decode_rel_def decodeNode_def copyProps_def stringProp_def timePtrProp_absent
        finish_group_def sample_group_def Let_def)
qed

text \<open>
  C39. Every run of the reconciler returns, whatever is stored and whatever the verdict
  store answers: no loop runs on and no slice operation panics. A run only adds to its own
  tenant's graph, keeping every stored node and edge as it was, a dry run changes nothing,
  and no run creates more SAME_AS edges than its limit.
\<close>

theorem reconcile_returns:
  "\<exists>c' res err. Reconcile closedPairs enqueue c t opts = Some (c', res, err)
    \<and> (\<forall>u. u \<noteq> t \<longrightarrow> c' u = c u) \<and> (ro_DryRun opts \<longrightarrow> c' = c)
    \<and> int (rr_NewMatches res) \<le> max 0 (ro_MaxEdges opts)
    \<and> (\<forall>g. c t = Some g \<longrightarrow> (\<exists>g' ns es. c' t = Some g' \<and> g_nodes g' = g_nodes g @ ns \<and> g_edges g' = g_edges g @ es))"
  (is "\<exists>c' res err. _ \<and> ?P c' res")
proof -
  have same: "?P c res" if "int (rr_NewMatches res) \<le> max 0 (ro_MaxEdges opts)" for res using that by simp
  show ?thesis
  proof (cases "0 < ro_MaxEdges opts \<and> 0 < ro_ChunkSize opts \<and> ro_Now opts \<noteq> 0 \<and> (\<exists>g. graph_of c t = Inr g) \<and> (\<exists>S. closedPairs = Inr S)")
    case False
    obtain res err where "Reconcile closedPairs enqueue c t opts = Some (c, res, Some err)" "rr_NewMatches res = 0"
      using Reconcile_stops [OF False] by blast
    then show ?thesis using same [of res] by (intro exI [of _ c] exI [of _ res] exI [of _ "Some err"]) simp
  next
    case True
    then obtain g S where v: "0 < ro_MaxEdges opts" "0 < ro_ChunkSize opts" "ro_Now opts \<noteq> 0" "graph_of c t = Inr g"
      and S: "closedPairs = Inr S" by blast
    obtain ng mem sam where plan: "plan_of S g (ro_Now opts) = (ng, mem, sam)" by (cases "plan_of S g (ro_Now opts)")
    note run = Reconcile_run [OF v plan, of enqueue, folded S]
    show ?thesis
    proof (cases "int (length sam) > ro_MaxEdges opts \<or> ro_DryRun opts")
      case True
      then show ?thesis unfolding run by (cases "int (length sam) > ro_MaxEdges opts") simp_all
    next
      case False
      let ?q = "enqueue (let groups = fst (groups_of (relationships g demandsQuery None)) in pairCandidates groups (open_matches S groups))"
      obtain c' res err where w: "reconcile_writes c t (ro_ChunkSize opts) ng mem sam ?q (counts_of S g) = Some (c', res, err)"
        "store_grows t c c'" "rr_NewMatches res \<le> length sam"
        using reconcile_writes_result [OF v(2) plan_addable [OF plan [unfolded plan_of_def]], of "counts_of S g"] by fastforce
      have "?P c' res" using w(2,3) False unfolding store_grows_def grown_def by (auto split: option.splits)
      then show ?thesis unfolding run using False w(1) by simp
    qed
  qed
qed

theorem reconcile_returns_witness:
  "\<exists>res err. Reconcile (Inr {}) (\<lambda>_. None :: string option) [''acme'' \<mapsto> sample_demands] ''acme'' (sample_options\<lparr>ro_DryRun := True\<rparr>)
    = Some ([''acme'' \<mapsto> sample_demands], res, err) \<and> rr_NewMatches res \<le> 10"
  using reconcile_returns [of "Inr {}" "\<lambda>_. None" "[''acme'' \<mapsto> sample_demands]" "''acme''" "sample_options\<lparr>ro_DryRun := True\<rparr>"]
  by (auto simp: sample_options_def)

subsection \<open>A second run\<close>

text \<open>What a run adds is not visible to the query for demanded artifacts, and hides nothing from the others.\<close>

lemma relationships_grown:
  assumes "wf_graph g" "grown g g'"
  shows "set (relationships g q None) \<subseteq> set (relationships g' q None)"
    and "q_EdgeLabel q = ''DEMANDS'' \<Longrightarrow> relationships g' q None = relationships g q None"
proof -
  obtain ns es where g': "g_nodes g' = g_nodes g @ ns" "g_edges g' = g_edges g @ es"
    "\<forall>e\<in>set es. me_label e = ''MEMBER_OF'' \<or> me_label e = ''SAME_AS''" using assms(2) unfolding grown_def by blast
  have ends: "me_source e < length (g_nodes g) \<and> me_target e < length (g_nodes g)" if "e \<in> set (g_edges g)" for e
    using assms(1) that by (auto simp: wf_graph_def edge_ok_def list_all_iff)
  have sel: "rel_selected g' q None e = rel_selected g q None e" "decode_rel g' e = decode_rel g e" if "e \<in> set (g_edges g)" for e
    using ends [OF that] by (simp_all add: rel_selected_def decode_rel_def g'(1) nth_append)
  have "filter (rel_selected g' q None) (g_edges g) = filter (rel_selected g q None) (g_edges g)"
    by (rule filter_cong [OF refl sel(1)])
  then have eq: "relationships g' q None = relationships g q None @ map (decode_rel g') (filter (rel_selected g' q None) es)"
    using sel(2) by (simp add: relationships_def g'(2))
  then show "set (relationships g q None) \<subseteq> set (relationships g' q None)" by simp
  assume "q_EdgeLabel q = ''DEMANDS''"
  then have "filter (rel_selected g' q None) es = []" using g'(3) by (auto simp: rel_selected_def filter_empty_conv)
  then show "relationships g' q None = relationships g q None" by (simp add: eq)
qed

lemma DerivedID_not_Nil: "derivedIDEscaper p \<noteq> [] \<Longrightarrow> DerivedID (p # q # ps) \<noteq> []"
  by (simp add: DerivedID_def)

lemma planned_node_ok: "now \<noteq> 0 \<Longrightarrow> ag_id gr \<noteq> [] \<Longrightarrow> CheckNode (group_node now gr) = None"
proof -
  have "safe_label ''ArtifactGroup''" "identifierPattern ''name''" "identifierPattern ''type''"
    "''name'' \<notin> fst ` set reservedNodeKeys" "''type'' \<notin> fst ` set reservedNodeKeys" by code_simp+
  then show "now \<noteq> 0 \<Longrightarrow> ag_id gr \<noteq> [] \<Longrightarrow> CheckNode (group_node now gr) = None"
    by (simp add: CheckNode_None group_node_def)
qed

definition planned :: "time \<Rightarrow> BulkEdge \<Rightarrow> bool" where
  "planned now be \<longleftrightarrow> (\<exists>gr a. be = member_edge now gr a) \<or> (\<exists>m. be = same_as_edge now m)"

lemma planned_edge:
  assumes "planned now be" "now \<noteq> 0" "be_SourceID be \<noteq> []" "be_TargetID be \<noteq> []"
  shows "edge_valid be" "bulk_eid be = e_ID (be_Edge be)"
proof -
  have "safe_label ''MEMBER_OF''" "safe_label ''SAME_AS''" "identifierPattern ''similarity_score''"
    "identifierPattern ''matched_at''" "identifierPattern ''algorithm_version''"
    "''similarity_score'' \<notin> fst ` set reservedEdgeKeys" "''matched_at'' \<notin> fst ` set reservedEdgeKeys"
    "''algorithm_version'' \<notin> fst ` set reservedEdgeKeys" by code_simp+
  note ok = this assms(2-4)
  from assms(1) have chk: "CheckEdge (be_SourceID be) (be_TargetID be) (be_Edge be) = None"
    unfolding planned_def
  proof (elim disjE exE)
    show ?thesis if "be = member_edge now gr a" for gr a using ok by (simp add: that CheckEdge_None member_edge_def)
    show ?thesis if "be = same_as_edge now m" for m using ok by (simp add: that CheckEdge_None same_as_edge_def)
  qed
  then show eid: "bulk_eid be = e_ID (be_Edge be)" by (simp add: bulk_eid_def stringProp_def edgeProps_stored(1))
  have "derivedIDEscaper ''member-of'' \<noteq> []" "derivedIDEscaper ''same-as'' \<noteq> []" by code_simp+
  then have "e_ID (be_Edge be) \<noteq> []"
    using assms(1) by (auto simp: planned_def member_edge_def same_as_edge_def sameAsEdgeID_def DerivedID_not_Nil)
  with chk eid show "edge_valid be" by (simp add: edge_valid_def)
qed

text \<open>The same edge planned at two times differs only in its times.\<close>

definition same_ends :: "BulkEdge \<Rightarrow> BulkEdge \<Rightarrow> bool" where
  "same_ends be be' \<longleftrightarrow> be_SourceID be = be_SourceID be' \<and> be_TargetID be = be_TargetID be'
     \<and> e_Label (be_Edge be) = e_Label (be_Edge be') \<and> e_ID (be_Edge be) = e_ID (be_Edge be')"

lemma replanned_edge:
  assumes "planned now be" "planned now' be'" "same_ends be be'" "now \<noteq> 0" "now' \<noteq> 0"
    and "edge_ready t c be" "edge_taken t c (bulk_eid be)"
  shows "edge_valid be' \<and> edge_ready t c be' \<and> edge_taken t c (bulk_eid be')"
proof -
  have ends: "be_SourceID be \<noteq> []" "be_TargetID be \<noteq> []" using assms(6) by (auto simp: edge_ready_def ready_in_def)
  have "be_SourceID be' \<noteq> []" "be_TargetID be' \<noteq> []" using ends assms(3) by (simp_all add: same_ends_def)
  note p = planned_edge [OF assms(1,4) ends] planned_edge [OF assms(2,5) this]
  have "edge_ready t c be'" using assms(3,6) by (simp add: edge_ready_def ready_in_def same_ends_def)
  with p assms(3,7) show ?thesis by (simp add: same_ends_def)
qed

definition stored_ids :: "Relationship list \<Rightarrow> Relationship list \<Rightarrow> string set" where
  "stored_ids sm ss = (\<lambda>r. e_ID (r_Edge r)) ` (set sm \<union> set ss)"

lemma planned_ids:
  "e_ID (be_Edge (member_edge now gr a)) = DerivedID [''member-of'', a, ag_id gr]"
  "e_ID (be_Edge (same_as_edge now m)) = sameAsEdgeID (gm_low m) (gm_high m)"
  by (simp_all add: member_edge_def same_as_edge_def)

lemma plan_parts:
  assumes "planWrites groups ms sm ss now = (ng, mem, sam)"
  shows "n \<in> set ng \<longleftrightarrow> (\<exists>gr\<in>set groups. n = group_node now gr \<and> ag_id gr \<notin> (\<lambda>r. n_ID (r_Target r)) ` set sm)"
    and "be \<in> set mem \<longleftrightarrow> (\<exists>gr\<in>set groups. \<exists>a\<in>set (ag_members gr). be = member_edge now gr a
      \<and> DerivedID [''member-of'', a, ag_id gr] \<notin> stored_ids sm ss)"
    and "be \<in> set sam \<longleftrightarrow> (\<exists>m\<in>set ms. be = same_as_edge now m \<and> sameAsEdgeID (gm_low m) (gm_high m) \<notin> stored_ids sm ss)"
    and "length sam = length (filter (\<lambda>m. sameAsEdgeID (gm_low m) (gm_high m) \<notin> stored_ids sm ss) ms)"
proof -
  have st: "set (map (\<lambda>r. e_ID (r_Edge r)) sm @ map (\<lambda>r. e_ID (r_Edge r)) ss) = stored_ids sm ss"
    by (simp add: stored_ids_def image_Un)
  have ng: "ng = map (group_node now) (filter (\<lambda>gr. ag_id gr \<notin> (\<lambda>r. n_ID (r_Target r)) ` set sm) groups)"
    and mem: "mem = filter (\<lambda>be. e_ID (be_Edge be) \<notin> stored_ids sm ss)
      (concat (map (\<lambda>gr. map (member_edge now gr) (ag_members gr)) groups))"
    and sam: "sam = filter (\<lambda>be. e_ID (be_Edge be) \<notin> stored_ids sm ss) (map (same_as_edge now) ms)"
    using assms unfolding planWrites_def Let_def st by simp_all
  show "n \<in> set ng \<longleftrightarrow> (\<exists>gr\<in>set groups. n = group_node now gr \<and> ag_id gr \<notin> (\<lambda>r. n_ID (r_Target r)) ` set sm)"
    unfolding ng set_map set_filter by blast
  show "be \<in> set mem \<longleftrightarrow> (\<exists>gr\<in>set groups. \<exists>a\<in>set (ag_members gr). be = member_edge now gr a
      \<and> DerivedID [''member-of'', a, ag_id gr] \<notin> stored_ids sm ss)"
    unfolding mem planned_ids(1) [of now, symmetric] by (simp only: set_filter set_concat set_map image_image mem_Collect_eq UN_iff image_iff) blast
  show "be \<in> set sam \<longleftrightarrow> (\<exists>m\<in>set ms. be = same_as_edge now m \<and> sameAsEdgeID (gm_low m) (gm_high m) \<notin> stored_ids sm ss)"
    unfolding sam planned_ids(2) [of now, symmetric] by (simp only: set_filter set_map) blast
  show "length sam = length (filter (\<lambda>m. sameAsEdgeID (gm_low m) (gm_high m) \<notin> stored_ids sm ss) ms)"
    unfolding sam by (simp only: filter_map length_map o_def planned_ids(2))
qed

lemma length_filter_mono: "(\<And>x. P x \<Longrightarrow> Q x) \<Longrightarrow> length (filter P xs) \<le> length (filter Q xs)"
  by (induction xs) (simp_all add: le_SucI)

lemma plan_again:
  assumes "planWrites groups ms sm ss now = (ng, mem, sam)" "planWrites groups ms sm' ss' now' = (ng', mem', sam')"
    and "set sm \<subseteq> set sm'" "set ss \<subseteq> set ss'"
  shows "\<forall>n'\<in>set ng'. \<exists>gr. n' = group_node now' gr \<and> group_node now gr \<in> set ng"
    and "\<forall>be'\<in>set mem' \<union> set sam'. planned now' be' \<and> (\<exists>be\<in>set mem \<union> set sam. planned now be \<and> same_ends be be')"
    and "length sam' \<le> length sam"
proof -
  note p1 = plan_parts [OF assms(1)] and p2 = plan_parts [OF assms(2)]
  have st: "stored_ids sm ss \<subseteq> stored_ids sm' ss'" unfolding stored_ids_def using assms(3,4) by blast
  have gs: "(\<lambda>r. n_ID (r_Target r)) ` set sm \<subseteq> (\<lambda>r. n_ID (r_Target r)) ` set sm'" using assms(3) by (rule image_mono)
  show "\<forall>n'\<in>set ng'. \<exists>gr. n' = group_node now' gr \<and> group_node now gr \<in> set ng"
    unfolding p1(1) p2(1) Ball_def using gs by blast
  have same: "same_ends (member_edge now gr a) (member_edge now' gr a)" "same_ends (same_as_edge now m) (same_as_edge now' m)"
    for gr a m by (simp_all add: same_ends_def member_edge_def same_as_edge_def)
  have pl: "planned n (member_edge n gr a)" "planned n (same_as_edge n m)" for n gr a m unfolding planned_def by blast+
  have mem: "\<exists>gr a. be' = member_edge now' gr a \<and> member_edge now gr a \<in> set mem" if "be' \<in> set mem'" for be'
    using that st unfolding p1(2) p2(2) by blast
  have sam: "\<exists>m. be' = same_as_edge now' m \<and> same_as_edge now m \<in> set sam" if "be' \<in> set sam'" for be'
    using that st unfolding p1(3) p2(3) by blast
  show "\<forall>be'\<in>set mem' \<union> set sam'. planned now' be' \<and> (\<exists>be\<in>set mem \<union> set sam. planned now be \<and> same_ends be be')"
  proof
    fix be'
    assume "be' \<in> set mem' \<union> set sam'"
    then show "planned now' be' \<and> (\<exists>be\<in>set mem \<union> set sam. planned now be \<and> same_ends be be')"
    proof
      assume "be' \<in> set mem'"
      then show ?thesis using mem pl(1) same(1) by blast
    next
      assume "be' \<in> set sam'"
      then show ?thesis using sam pl(2) same(2) by blast
    qed
  qed
  show "length sam' \<le> length sam" unfolding p1(4) p2(4) by (rule length_filter_mono) (use st in blast)
qed

lemma sample_plan:
  "plan_of {} sample_demands now = ([group_node now sample_group], [member_edge now sample_group ''a1''], [])"
proof -
  have "Fields ''policy'' = [''policy'']" by code_simp
  then have "matchGroups [sample_group] = []"
    by (simp add: matchGroups_def build_index_def index_group_def index_token_def index_candidates_def sample_group_def)
  then show ?thesis
    by (simp add: plan_of_def sample_groups planWrites_def open_matches_def sample_group_def)
      (simp add: relationships_def sample_demands_def rel_selected_def memberQuery_def sameAsQuery_def)
qed

text \<open>The run over it creates the group and the membership.\<close>

lemma sample_run:
  "\<exists>c' res. Reconcile (Inr {}) (\<lambda>_. None :: string option) [''acme'' \<mapsto> sample_demands] ''acme'' sample_options = Some (c', res, None)
    \<and> rr_NewGroups res = 1 \<and> rr_NewMemberships res = 1"
proof -
  let ?now = "62135596900000000000" and ?c = "[''acme'' \<mapsto> sample_demands]"
  let ?n = "group_node ?now sample_group" and ?be = "member_edge ?now sample_group ''a1''"
  have gid: "ag_id sample_group = ''artifact-group_document_policy''" by code_simp
  have n: "CheckNode ?n = None" by (rule planned_node_ok) (simp_all add: gid)
  have ends: "be_SourceID ?be = ''a1''" "be_TargetID ?be = ''artifact-group_document_policy''" "e_Label (be_Edge ?be) = ''MEMBER_OF''"
    using gid by (simp_all add: member_edge_def)
  have be: "edge_valid ?be" "bulk_eid ?be = e_ID (be_Edge ?be)"
    using planned_edge [of ?now ?be] ends by (auto simp: planned_def)
  have eid: "e_ID (be_Edge ?be) = ''member-of_a1_artifact-group%5Fdocument%5Fpolicy''" unfolding planned_ids gid by code_simp
  have lab: "n_Label ?n = ''ArtifactGroup''" "n_ID ?n = ''artifact-group_document_policy''" by (simp_all add: group_node_def gid)
  have nid: "map_of (nodeProps ?n) ''id'' = Some (VString ''artifact-group_document_policy'')" using nodeProps_stored(1) [OF n] lab by simp
  let ?g = "sample_demands\<lparr>g_labelKinds := (g_labelKinds sample_demands)(''ArtifactGroup'' \<mapsto> ''node''),
     g_nodes := g_nodes sample_demands @ [\<lparr>mn_label = ''ArtifactGroup'', mn_props = nodeProps ?n\<rparr>]\<rparr>"
  define c1 where "c1 = [''acme'' \<mapsto> ?g]"
  have 1: "create_groups ?c ''acme'' [?n] = (c1, 1, None)"
    unfolding c1_def using n lab by (simp add: CreateNode_def graph_of_def sample_stored(4) useLabel_def sample_demands_def nodeByID_def stringProp_def sample_artifact_props)
  have "\<exists>d ids. BulkCreateEdges c1 ''acme'' [?be] = (d, Inr ids)"
    using be ends eid unfolding edge_valid_def bulk_eid_def c1_def
    by (simp add: BulkCreateEdges_def graph_of_def sample_stored(4) useLabel_def addEdge_def resolveNode_def
        sample_demands_def nodeByID_def stringProp_def sample_artifact_props nid Let_def)
  then obtain d ids where "BulkCreateEdges c1 ''acme'' [?be] = (d, Inr ids)" by blast
  then have 2: "writeEdges (\<lambda>c. BulkCreateEdges c ''acme'') c1 [?be] 2 = Some (d, 1, None)"
    by (simp add: writeEdges_def write_from.simps write_chunk.simps [of _ _ "[?be]"] Let_def)
  have 3: "writeEdges (\<lambda>c. BulkCreateEdges c ''acme'') d [] 2 = Some (d, 0, None)"
    by (simp add: writeEdges_def write_from.simps)
  have "reconcile_writes ?c ''acme'' 2 [?n] [?be] [] (None :: string option) res =
      Some (d, res\<lparr>rr_NewGroups := 1, rr_NewMemberships := 1, rr_NewMatches := 0\<rparr>, None)" for res
    unfolding reconcile_writes_def 1 by (simp add: 2 3 Let_def)
  moreover have "graph_of ?c ''acme'' = Inr sample_demands" by (simp add: graph_of_def sample_stored(4))
  ultimately show ?thesis
    using Reconcile_run [of sample_options ?c "''acme''" sample_demands "{}", OF _ _ _ _ sample_plan, of "\<lambda>_. None :: string option"]
    by (simp add: sample_options_def)
qed

text \<open>
  C40. A repeated run writes nothing: after a run of the reconciler that ended without an
  error, running it again, at any later time, with the same closed pairs and the same
  limits, creates no group, no membership and no SAME_AS edge and leaves the store as it
  is, while counting the same artifacts, groups and matches. Only the queue of pairs to
  adjudicate can still fail.
\<close>

theorem reconcile_idempotent:
  assumes "wf_client c" "Reconcile (Inr S) enqueue c t opts = Some (c', res, None)" "\<not> ro_DryRun opts" "now' \<noteq> 0"
  shows "\<exists>res' err. Reconcile (Inr S) enqueue' c' t (opts\<lparr>ro_Now := now'\<rparr>) = Some (c', res', err)
    \<and> rr_NewGroups res' = 0 \<and> rr_NewMemberships res' = 0 \<and> rr_NewMatches res' = 0
    \<and> rr_Artifacts res' = rr_Artifacts res \<and> rr_Groups res' = rr_Groups res \<and> rr_Matches res' = rr_Matches res
    \<and> (err = None \<or> (\<exists>e. err = Some (EnqueueFailed e)))"
proof -
  obtain g where v: "0 < ro_MaxEdges opts" "0 < ro_ChunkSize opts" "ro_Now opts \<noteq> 0" "graph_of c t = Inr g"
    using Reconcile_stops [of opts c t "Inr S" enqueue] assms(2) by fastforce
  obtain ng mem sam where plan: "plan_of S g (ro_Now opts) = (ng, mem, sam)" by (cases "plan_of S g (ro_Now opts)")
  note run = Reconcile_run [OF v plan, of enqueue]
  have few: "int (length sam) \<le> ro_MaxEdges opts" using assms(2) run by (auto split: if_splits)
  have grows: "store_grows t c c'" "\<forall>n\<in>set ng. noded t c' n"
    "\<forall>be\<in>set mem \<union> set sam. edge_ready t c' be \<and> edge_taken t c' (bulk_eid be)"
    and counts: "rr_Artifacts res = rr_Artifacts (counts_of S g)" "rr_Groups res = rr_Groups (counts_of S g)"
      "rr_Matches res = rr_Matches (counts_of S g)"
    using reconcile_writes_result [OF v(2) plan_addable [OF plan [unfolded plan_of_def]] counts_of_NewMatches [of S g],
        of c t ng "enqueue (let groups = fst (groups_of (relationships g demandsQuery None)) in pairCandidates groups (open_matches S groups))"]
      assms(2,3) run few by auto
  obtain g' where g': "graph_of c' t = Inr g'" "grown g g'" using grows(1) v(4) by (rule store_grows_graph)
  note rel = relationships_grown [OF wf_client_graph [OF assms(1) v(4)] g'(2)]
  have dem: "relationships g' demandsQuery None = relationships g demandsQuery None" by (rule rel(2)) (simp add: demandsQuery_def)
  obtain ng' mem' sam' where plan': "plan_of S g' now' = (ng', mem', sam')" by (cases "plan_of S g' now'")
  note again = plan_again [OF plan [unfolded plan_of_def] plan' [unfolded plan_of_def dem] rel(1) rel(1)]
  have idle: "\<forall>n\<in>set ng'. CheckNode n = None \<and> noded t c' n"
  proof
    fix n
    assume "n \<in> set ng'"
    then obtain gr where gr: "n = group_node now' gr" "noded t c' (group_node (ro_Now opts) gr)" using again(1) grows(2) by blast
    then show "CheckNode n = None \<and> noded t c' n"
      using planned_node_ok [OF assms(4)] by (simp add: noded_def group_node_def)
  qed
  have "\<forall>be\<in>set mem' \<union> set sam'. edge_valid be \<and> edge_ready t c' be \<and> edge_taken t c' (bulk_eid be)"
    using again(2) grows(3) replanned_edge [OF _ _ _ v(3) assms(4)] by blast
  note writes = reconcile_writes_idle [OF v(2) idle this]
  have "counts_of S g' = counts_of S g" by (simp add: counts_of_def dem)
  then show ?thesis
    using Reconcile_run [of "opts\<lparr>ro_Now := now'\<rparr>" c' t g' S ng' mem' sam' enqueue'] v(1,2) assms(3,4) g'(1) plan' again(3) few
    by (simp add: writes counts) (meson not_None_eq)
qed

theorem reconcile_idempotent_witness:
  "\<exists>c' res res' err. Reconcile (Inr {}) (\<lambda>_. None :: string option) [''acme'' \<mapsto> sample_demands] ''acme'' sample_options = Some (c', res, None)
    \<and> rr_NewGroups res = 1 \<and> rr_NewMemberships res = 1
    \<and> Reconcile (Inr {}) (\<lambda>_. None :: string option) c' ''acme'' (sample_options\<lparr>ro_Now := 62135597000000000000\<rparr>) = Some (c', res', err)
    \<and> rr_NewGroups res' = 0 \<and> rr_NewMemberships res' = 0"
proof -
  obtain c' res where run: "Reconcile (Inr {}) (\<lambda>_. None :: string option) [''acme'' \<mapsto> sample_demands] ''acme'' sample_options = Some (c', res, None)"
    "rr_NewGroups res = 1" "rr_NewMemberships res = 1" using sample_run by blast
  have "\<not> ro_DryRun sample_options" "(62135597000000000000 :: time) \<noteq> 0" by (simp_all add: sample_options_def)
  from reconcile_idempotent [OF sample_wf run(1) this, of "\<lambda>_. None :: string option"] run show ?thesis by blast
qed

end
