(* ===== verification/Spec2Isabelle.thy ===== *)
theory Spec2Isabelle
  imports
    Subjects Abandoned_Set Task_Collector Task_Ids
    Analyzer_DAG Vote_Consensus Relationship_Consensus Artifact_Consensus Candidates Synthesis
    Reconcile_Runs
begin

text \<open>
  A verification library for CrossCodex, a multi-tenant service that compares compliance
  catalogs: analyzers ask language models about controls, panels of answers are reduced to
  a consensus, and the results are stored as a graph per tenant.

  \<^bold>\<open>The program and its parts.\<close> A job runs a plan of analyzers. The engine
  (\<^verbatim>\<open>src/internal/analysis\<close>) publishes the tasks of an analyzer on the bus and collects the
  answers of the workers (\<^verbatim>\<open>src/internal/worker\<close>); when it gives a collection up it announces
  that, and workers drop what is left of it. Pairs of controls to ask about come from
  candidate generators. The analyzers reduce the answers to a consensus, synthesis weighs
  and caps the mappings of a job, and the artifact reconciler links equal artifacts in the
  graph store.

  \<^bold>\<open>Theories.\<close> Definitions keep the names of the source; a suffix or prefix marks a name
  that two packages share, as in \<open>rel_String\<close> or \<open>ComputeArtConsensus\<close>.

  \<^item> \<open>Go_Prelude\<close>: Go strings, \<^verbatim>\<open>float64\<close> with its special values (\<open>f64\<close>), number
    printing, \<^verbatim>\<open>sort.Slice\<close> for a strict weak order (locale \<open>go_less\<close>), and the lemmas the
    other theories share.
  \<^item> \<open>Subjects\<close>: \<^verbatim>\<open>pkg/tenant/validate.go\<close> and \<^verbatim>\<open>pkg/natsbus/subjects.go\<close>. Subjects of
    different tenants differ; the abandon subject is parsed back exactly (locale
    \<open>subject_codec\<close>).
  \<^item> \<open>Abandoned_Set\<close>: \<^verbatim>\<open>internal/worker/abandoned.go\<close>. The set implements a bounded FIFO with
    expiry (locale \<open>expiring_memory\<close>), never panics, and a worker drops only tasks whose
    collection was announced by its own tenant.
  \<^item> \<open>Task_Collector\<close>: \<^verbatim>\<open>internal/analysis/dispatcher.go\<close>, \<^verbatim>\<open>collector.go\<close>, \<^verbatim>\<open>types.go\<close> and the
    calls of them in \<^verbatim>\<open>engine.go\<close>, as steps of the goroutines of one collection. Over every
    interleaving: nothing is published after the abandon, a collection that ends without an
    error is complete unless a retry could not be published, and what goes wrong then.
  \<^item> \<open>Task_Ids\<close>: \<^verbatim>\<open>internal/analyzer/taskid.go\<close> with the formats the analyzers print.
  \<^item> \<open>Analyzer_DAG\<close>: \<^verbatim>\<open>pkg/analyzer/registry.go\<close> and \<^verbatim>\<open>dag.go\<close>. The levels are a topological
    order with every analyzer as early as possible, independent of map order; errors name a
    missing dependency or a real cycle (locale \<open>dep_graph\<close>).
  \<^item> \<open>Vote_Consensus\<close>: \<^verbatim>\<open>pkg/analyzer/consensus\<close>, the weighted yes/no vote.
  \<^item> \<open>Priority_Vote\<close>, \<open>Relationship_Consensus\<close>, \<open>Fuzzy_Match\<close>, \<open>Artifact_Consensus\<close>: plurality
    with a priority list (locale \<open>priority_vote\<close>), used by
    \<^verbatim>\<open>internal/analyzer/relationship/consensus.go\<close> and
    \<^verbatim>\<open>internal/analyzer/artifacts/consensus.go\<close>; the latter groups names with
    \<^verbatim>\<open>internal/analyzer/fuzzy.go\<close>.
  \<^item> \<open>Candidates\<close>: \<^verbatim>\<open>pkg/analyzer/candidate\<close>, the aggregation of candidate pairs and the
    generator registry. Ranks equal their counting definition; fusion keeps the best.
  \<^item> \<open>Synthesis\<close>: \<^verbatim>\<open>internal/synthesis\<close>, from validation to the database update, with the
    configuration records of \<^verbatim>\<open>pkg/config/types.go\<close> it reads. It is correct for any sort by
    weight (locale \<open>weight_sort\<close>).
  \<^item> \<open>Go_Time\<close>, \<open>Graph_Model\<close>: package \<^verbatim>\<open>time\<close> as it is used, and \<^verbatim>\<open>pkg/graphdb\<close>: data,
    checks, derived identifiers, stored times, whose text order is the order of the times.
  \<^item> \<open>Mem_Graph\<close>, \<open>Graph_Store\<close>, \<open>Graph_Queries\<close>, \<open>Graph_Traversal\<close>: the driver
    \<^verbatim>\<open>pkg/graphdb/memdriver\<close>. \<open>Mem_Graph\<close> has every method; the others show the isolation
    of tenants (locale \<open>tenant_store\<close>), the invariant of every reachable graph, the
    behaviour of writes, batches, reads and supersession, and that a traversal ends with
    exactly the trails of the graph.
  \<^item> \<open>Artifact_Reconcile\<close>, \<open>Reconcile_Runs\<close>: \<^verbatim>\<open>internal/analyzer/artifacts/reconcile.go\<close> over
    that driver. Indexed matching equals comparing all pairs; a run returns, stays within
    its limits, and a second run writes nothing. The chunked writing needs only the laws of
    the locale \<open>bulk_writer\<close>.

  \<^bold>\<open>How parts meet.\<close> \<open>Task_Collector\<close> builds its subjects with \<open>Subjects\<close>, and its main
  property parses the abandon it publishes with the parser the worker of \<open>Abandoned_Set\<close>
  uses. \<open>Reconcile_Runs\<close> runs the reconciler on the states of \<open>Mem_Graph\<close> through
  the same operations as every other client, and relies on the invariant of \<open>Graph_Store\<close>.
  Each locale is interpreted on the definitions of the component that provides it.

  \<^bold>\<open>Conventions.\<close> A Go function with an error result returns a sum with the error on the
  left, or an option when it returns only an error; a panic is \<open>None\<close>. A map that is
  iterated over is an association list in one iteration order. A mutex that covers a whole
  method makes the method one step; the collector, where locks are taken and released
  inside goroutines, has one event per critical section. Time is an integer of nanoseconds.

  \<^bold>\<open>Bounds and termination.\<close> No definition uses fuel. The loops of the source end by a
  measure: the shrinking queue of the abandoned set, the analyzers not yet placed in Kahn's
  algorithm or visited by the cycle search and by \<^verbatim>\<open>Subset\<close>, the scores left in the tie runs
  of the ranking, the edges a traversal has not used yet, and the edges left in a chunk of
  the edge writer, which drops an edge per retry. The loop over chunks is a
  \<^verbatim>\<open>partial_function\<close>, where not returning is \<open>None\<close>: a chunk size of 0 would not return,
  the options are checked to exclude it, and every run is shown to return. Executions of a
  collection are finite lists of events of any length. Real arithmetic is exact: rounding
  and overflow of finite floats are not modelled. Parsing a sample number keeps the limit
  of a 64-bit integer.

  \<^bold>\<open>Parameters.\<close> Code outside the repository is an argument: the UUID parser, protobuf
  encoding, whether a publish or subscription succeeds, the answers of the database to
  synthesis and of the verdict store to the reconciler, the candidate generators'
  results, and the order of equal rows under \<^verbatim>\<open>sort.Slice\<close> in synthesis.

  \<^bold>\<open>Not modelled.\<close>
  \<^item> What is I/O or the behaviour of another system: the command line client, the daemon,
    the gateway, the RPC, admin and graph services, the pipeline and results services,
    \<^verbatim>\<open>pkg/db\<close>, \<^verbatim>\<open>pkg/vectordb\<close>, \<^verbatim>\<open>pkg/graphdb/agedriver\<close>, \<^verbatim>\<open>pkg/resultcache\<close>, \<^verbatim>\<open>pkg/storage\<close>,
    \<^verbatim>\<open>pkg/retention\<close>, \<^verbatim>\<open>pkg/backup\<close>, the bus and LLM clients, and the SQL verdict store.
  \<^item> What is a use of cryptography or of certificates: \<^verbatim>\<open>pkg/attestation\<close>, \<^verbatim>\<open>pkg/authn\<close>,
    \<^verbatim>\<open>pkg/tlsconfig\<close>.
  \<^item> Documents and texts: \<^verbatim>\<open>pkg/oscal\<close>, the catalog service, \<^verbatim>\<open>pkg/prompt\<close>, the parsers of
    model answers and the graph materializers of the analyzers, configuration loading.
  \<^item> Floating-point scores: the embedding analyzer and the built-in candidate generators.
  \<^item> Of the engine: stage scheduling, the result cache, backoff durations and progress
    ticks; of the worker: everything but the abandoned set.
  \<^item> Telemetry and logging everywhere; Unicode letters and spaces in artifact names.
\<close>

end
